theory Spec2Isabelle
  imports Main "HOL-Library.Word"
begin

unbundle bit_operations_syntax

section \<open>Data model\<close>

text \<open>
  The paging core of the kernel exists twice in the repository: \<^verbatim>\<open>demand_paging.c\<close>
  (descriptors found by a linear search, dirty pages tracked by write faults) and
  \<^verbatim>\<open>lazy.c\<close> (descriptors indexed by \<^verbatim>\<open>(va / PGSIZE) % MAX_PROC_PAGES\<close>, writable pages
  mapped writable at once). Both define \<^verbatim>\<open>get_page_info\<close>, \<^verbatim>\<open>alloc_swap_slot\<close>,
  \<^verbatim>\<open>free_swap_slot\<close> and \<^verbatim>\<open>delete_swap_file\<close>; the functions of \<^verbatim>\<open>demand_paging.c\<close> carry
  the suffix \<open>_dp\<close> here and those of \<^verbatim>\<open>lazy.c\<close> the suffix \<open>_lazy\<close> where the names clash.
\<close>

type_synonym uint64 = "64 word"
type_synonym uint32 = "32 word"
type_synonym uchar = "8 word"

text \<open>
  Modelled from the spec: \<^verbatim>\<open>riscv.h\<close> and \<^verbatim>\<open>proc.h\<close> are not among the sources. The glossary
  gives the page size 4096 and the data model gives \<^verbatim>\<open>MAX_PROC_PAGES\<close> as 128;
  \<^verbatim>\<open>MAX_SWAP_SLOTS\<close> is 1024 in \<^verbatim>\<open>lazyalloc.h\<close>, and \<^verbatim>\<open>demand_paging.c\<close> writes 1024 out.
\<close>

definition PGSIZE :: nat where
  "PGSIZE = 4096"

definition MAX_PROC_PAGES :: nat where
  "MAX_PROC_PAGES = 128"

definition MAX_SWAP_SLOTS :: nat where
  "MAX_SWAP_SLOTS = 1024"

definition PGROUNDDOWN :: "uint64 \<Rightarrow> uint64" where
  "PGROUNDDOWN a = a AND NOT (of_nat PGSIZE - 1)"

definition PGROUNDUP :: "uint64 \<Rightarrow> uint64" where
  "PGROUNDUP a = (a + of_nat PGSIZE - 1) AND NOT (of_nat PGSIZE - 1)"

datatype page_state = UNMAPPED | RESIDENT | SWAPPED

text \<open>
  \<^verbatim>\<open>struct page_info\<close>. The C \<^verbatim>\<open>int\<close> fields \<open>seq\<close> and \<open>swap_slot\<close> are integers; the one
  place where an \<^verbatim>\<open>int\<close> is incremented without bound, the FIFO counter, has its
  wrap-around written out in \<open>int_incr\<close>.
\<close>

record page_info =
  va :: uint64
  state :: page_state
  is_dirty :: bool
  seq :: int
  swap_slot :: int

definition INT_MAX :: int where
  "INT_MAX = 2147483647"

definition int_incr :: "int \<Rightarrow> int" where
  "int_incr x = (if x = INT_MAX then - 2147483648 else x + 1)"

text \<open>A page-table entry that is valid: the frame and the permission bits beside \<^verbatim>\<open>PTE_V\<close>.\<close>

datatype perm = PTE_R | PTE_W | PTE_X | PTE_U

record pte =
  frame :: uint64
  perms :: "perm set"

text \<open>One line of the console, without the \<^verbatim>\<open>[pid %d]\<close> prefix that every line carries.\<close>

datatype access = Acc_read | Acc_write | Acc_exec

datatype cause = Cause_unknown | Cause_swap | Cause_exec | Cause_heap | Cause_stack

datatype event =
    PAGEFAULT uint64 access cause
  | PAGEFAULT_invalid uint64 access
  | KILL_invalid_access uint64 access
  | KILL_swap_exhausted
  | MEMFULL
  | SWAPFULL
  | VICTIM uint64 int
  | EVICT_dirty uint64
  | EVICT_clean uint64
  | EVICT uint64
  | DISCARD uint64
  | SWAPOUT uint64 int
  | SWAPIN uint64 int
  | RESIDENT_seq uint64 int
  | LOADEXEC uint64
  | ALLOC uint64
  | SWAPCLEANUP int

text \<open>Calls into the file system (\<^verbatim>\<open>fs.c\<close>, \<^verbatim>\<open>file.c\<close>, \<^verbatim>\<open>log.c\<close>), in the order they are made.\<close>

datatype fs_call =
    Begin_op | End_op
  | Ilock nat | Iunlock nat | Iupdate nat | Iput nat
  | Fileclose nat
  | Create string
  | Namei string | Iunlockput nat

text \<open>The fields of \<^verbatim>\<open>struct inode\<close> that \<^verbatim>\<open>delete_swap_file\<close> of \<^verbatim>\<open>lazy.c\<close> reads and writes.\<close>

record inode =
  iref :: int
  itype :: int
  nlink :: int

text \<open>
  The state the paging code works on. The first group are the fields of \<^verbatim>\<open>struct proc\<close>
  that the sources use (a null pointer is \<open>None\<close>, a file or inode pointer its number, an
  array a function of the index, the page table a partial map from page addresses to
  valid entries). The type parameter is the element type of \<^verbatim>\<open>swap_slot_bitmap\<close>:
  \<^verbatim>\<open>demand_paging.c\<close> uses it as 32 words of 32 bits, \<^verbatim>\<open>lazy.c\<close> as 16 words of 64 bits.
  The second group is what the code reads and writes outside the process: the physical
  frames (frame address, then byte offset), the bytes of the files (inode number, then
  offset), the in-core inodes, the console, the frames given back with \<^verbatim>\<open>kfree\<close> and the
  file-system calls made.
\<close>

record 'b proc =
  pid :: nat
  sz :: uint64
  text_start :: uint64
  text_end :: uint64
  data_start :: uint64
  data_end :: uint64
  heap_start :: uint64
  stack_top :: uint64
  next_fifo_seq :: int
  swapfile :: "nat option"
  swapfile_inode :: "nat option"
  num_swapped_pages :: int
  num_pages :: nat
  exec_inode :: "nat option"
  swap_slot_bitmap :: "nat \<Rightarrow> 'b"
  pages :: "nat \<Rightarrow> page_info"
  exec_off :: "nat \<Rightarrow> uint64"
  exec_len :: "nat \<Rightarrow> int"
  pagetable :: "uint64 \<Rightarrow> pte option"
  killed :: bool
  physmem :: "uint64 \<Rightarrow> nat \<Rightarrow> uchar"
  disk :: "nat \<Rightarrow> nat \<Rightarrow> uchar"
  inodes :: "nat \<Rightarrow> inode"
  console :: "event list"
  kfreed :: "uint64 list"
  fs_calls :: "fs_call list"

definition printf :: "event \<Rightarrow> 'b proc \<Rightarrow> 'b proc" where
  "printf ev p = p\<lparr>console := console p @ [ev]\<rparr>"

definition fs :: "fs_call \<Rightarrow> 'b proc \<Rightarrow> 'b proc" where
  "fs c p = p\<lparr>fs_calls := fs_calls p @ [c]\<rparr>"

definition kfree :: "uint64 \<Rightarrow> 'b proc \<Rightarrow> 'b proc" where
  "kfree pa p = p\<lparr>kfreed := kfreed p @ [pa]\<rparr>"

section \<open>Swap-slot allocator\<close>

subsection \<open>\<^verbatim>\<open>demand_paging.c\<close>\<close>

text \<open>
  \<^verbatim>\<open>for(int i = 0; i < 1024; i++)\<close> with the \<^verbatim>\<open>return i\<close> inside: the scan from slot \<open>i\<close> on.
  \<^verbatim>\<open>1 << bit\<close> is \<open>push_bit bit 1\<close> in the 32-bit element.
\<close>

function alloc_scan_dp :: "(nat \<Rightarrow> uint32) \<Rightarrow> nat \<Rightarrow> int \<times> (nat \<Rightarrow> uint32)" where
  "alloc_scan_dp bm i =
     (if i < 1024 then
        (let w = i div 32; b = i mod 32 in
         if bm w AND push_bit b 1 = 0
         then (int i, bm(w := bm w OR push_bit b 1))
         else alloc_scan_dp bm (i + 1))
      else (- 1, bm))"
  by pat_completeness auto
termination
  by (relation "measure (\<lambda>(bm, i). 1024 - i)") auto

declare alloc_scan_dp.simps [simp del]

definition alloc_swap_slot_dp :: "uint32 proc \<Rightarrow> int \<times> uint32 proc" where
  "alloc_swap_slot_dp p =
     (let (r, bm) = alloc_scan_dp (swap_slot_bitmap p) 0
      in (r, p\<lparr>swap_slot_bitmap := bm\<rparr>))"

definition free_swap_slot_dp :: "uint32 proc \<Rightarrow> int \<Rightarrow> uint32 proc" where
  "free_swap_slot_dp p slot =
     (if slot < 0 \<or> slot \<ge> 1024 then p
      else
        (let w = nat slot div 32; b = nat slot mod 32
         in p\<lparr>swap_slot_bitmap :=
               (swap_slot_bitmap p)(w := swap_slot_bitmap p w AND NOT (push_bit b 1))\<rparr>))"

subsection \<open>\<^verbatim>\<open>lazy.c\<close>\<close>

text \<open>
  The inner loop over the 64 bits of word \<open>i\<close>, from bit \<open>j\<close> on: the bit found, or \<open>None\<close>
  when the loop ends or breaks at \<^verbatim>\<open>slot_num >= MAX_SWAP_SLOTS\<close>.
\<close>

function alloc_scan_bits :: "(nat \<Rightarrow> uint64) \<Rightarrow> nat \<Rightarrow> nat \<Rightarrow> nat option" where
  "alloc_scan_bits bm i j =
     (if j < 64 then
        (let slot_num = i * 64 + j in
         if slot_num \<ge> MAX_SWAP_SLOTS then None
         else if bm i AND push_bit j 1 = 0 then Some j
         else alloc_scan_bits bm i (j + 1))
      else None)"
  by pat_completeness auto
termination
  by (relation "measure (\<lambda>(bm, i, j). 64 - j)") auto

declare alloc_scan_bits.simps [simp del]

function alloc_scan_lazy :: "(nat \<Rightarrow> uint64) \<Rightarrow> nat \<Rightarrow> int \<times> (nat \<Rightarrow> uint64)" where
  "alloc_scan_lazy bm i =
     (if i < 16 then
        (case alloc_scan_bits bm i 0 of
           Some j \<Rightarrow> (int (i * 64 + j), bm(i := bm i OR push_bit j 1))
         | None \<Rightarrow> alloc_scan_lazy bm (i + 1))
      else (- 1, bm))"
  by pat_completeness auto
termination
  by (relation "measure (\<lambda>(bm, i). 16 - i)") auto

declare alloc_scan_lazy.simps [simp del]

definition alloc_swap_slot_lazy :: "uint64 proc \<Rightarrow> int \<times> uint64 proc" where
  "alloc_swap_slot_lazy p =
     (if num_swapped_pages p \<ge> int MAX_SWAP_SLOTS then (- 1, p)
      else
        (let (r, bm) = alloc_scan_lazy (swap_slot_bitmap p) 0
         in (r, p\<lparr>swap_slot_bitmap := bm\<rparr>)))"

definition free_swap_slot_lazy :: "uint64 proc \<Rightarrow> int \<Rightarrow> uint64 proc" where
  "free_swap_slot_lazy p slot =
     (if slot < 0 \<or> slot \<ge> int MAX_SWAP_SLOTS then p
      else
        (let i = nat slot div 64; j = nat slot mod 64
         in if i < 16
            then p\<lparr>swap_slot_bitmap :=
                   (swap_slot_bitmap p)(i := swap_slot_bitmap p i AND NOT (push_bit j 1))\<rparr>
            else p))"

text \<open>Bit \<open>i\<close> of the bitmap, as each file lays it out.\<close>

definition slot_used_dp :: "(nat \<Rightarrow> uint32) \<Rightarrow> nat \<Rightarrow> bool" where
  "slot_used_dp bm i = bit (bm (i div 32)) (i mod 32)"

definition slot_used_lazy :: "(nat \<Rightarrow> uint64) \<Rightarrow> nat \<Rightarrow> bool" where
  "slot_used_lazy bm i = bit (bm (i div 64)) (i mod 64)"

section \<open>Collaborators outside the sources\<close>

text \<open>
  What the code takes from outside the sources on one entry into the kernel: the
  constants \<^verbatim>\<open>USERSTACK\<close> (\<^verbatim>\<open>param.h\<close>) and \<^verbatim>\<open>SBRK_EAGER\<close> (\<^verbatim>\<open>vm.h\<close>), and the results of
  the calls whose outcome the paging code cannot determine: the first and the second
  \<^verbatim>\<open>kalloc()\<close> (0 when no frame is free), the value \<^verbatim>\<open>readi\<close> and \<^verbatim>\<open>writei\<close> return (the
  number of bytes moved, or a negative value), the value \<^verbatim>\<open>mappages\<close> returns and the
  inode \<^verbatim>\<open>create\<close> returns.
\<close>

record env =
  USERSTACK :: nat
  SBRK_EAGER :: int
  kalloc_1st :: uint64
  kalloc_2nd :: uint64
  readi_ret :: int
  writei_ret :: int
  mappages_ret :: int
  create_ret :: "nat option"

text \<open>
  Modelled from the spec: \<^verbatim>\<open>vm.c\<close>, \<^verbatim>\<open>string.c\<close> and \<^verbatim>\<open>fs.c\<close> are not among the sources.
  \<^verbatim>\<open>memset(mem, 0, PGSIZE)\<close> zeroes the frame; \<^verbatim>\<open>walk\<close> finds the entry of the page an
  address lies in; \<^verbatim>\<open>mappages\<close> installs an entry with the given permissions (the page
  table manipulator of section 2); \<^verbatim>\<open>uvmunmap(pagetable, va, npages, do_free)\<close> tears
  down the mappings of \<open>npages\<close> pages from \<open>va\<close> on, passing over pages that are not
  mapped, and with \<open>do_free\<close> gives their frames back (\<^verbatim>\<open>exec.c\<close> calls it with
  \<open>npages = 1\<close> to unmap one page and free its physical memory); \<^verbatim>\<open>readi\<close> and \<^verbatim>\<open>writei\<close> move
  bytes between a frame and a file at an offset (section 4.5), as many as they report.
\<close>

definition memset_page :: "uint64 \<Rightarrow> 'b proc \<Rightarrow> 'b proc" where
  "memset_page mem p =
     p\<lparr>physmem := (physmem p)(mem := (\<lambda>i. if i < PGSIZE then 0 else physmem p mem i))\<rparr>"

definition walk :: "'b proc \<Rightarrow> uint64 \<Rightarrow> pte option" where
  "walk p a = pagetable p (PGROUNDDOWN a)"

definition ismapped :: "'b proc \<Rightarrow> uint64 \<Rightarrow> bool" where
  "ismapped p a = (walk p a \<noteq> None)"

definition walkaddr :: "'b proc \<Rightarrow> uint64 \<Rightarrow> uint64" where
  "walkaddr p a =
     (case walk p a of
        None \<Rightarrow> 0
      | Some e \<Rightarrow> if PTE_U \<in> perms e then frame e else 0)"

definition clear_pte :: "uint64 \<Rightarrow> 'b proc \<Rightarrow> 'b proc" where
  "clear_pte a p = p\<lparr>pagetable := (pagetable p)(PGROUNDDOWN a := None)\<rparr>"

definition mappages :: "env \<Rightarrow> uint64 \<Rightarrow> uint64 \<Rightarrow> perm set \<Rightarrow> 'b proc \<Rightarrow> int \<times> 'b proc" where
  "mappages e a pa perm p =
     (if mappages_ret e < 0 then (mappages_ret e, p)
      else (0, p\<lparr>pagetable := (pagetable p)(PGROUNDDOWN a \<mapsto> \<lparr>frame = pa, perms = perm\<rparr>)\<rparr>))"

definition unmap_page :: "bool \<Rightarrow> uint64 \<Rightarrow> 'b proc \<Rightarrow> 'b proc" where
  "unmap_page do_free a p =
     (case walk p a of
        None \<Rightarrow> p
      | Some e \<Rightarrow> clear_pte a (if do_free then kfree (frame e) p else p))"

definition uvmunmap :: "uint64 \<Rightarrow> nat \<Rightarrow> bool \<Rightarrow> 'b proc \<Rightarrow> 'b proc" where
  "uvmunmap a npages do_free p =
     fold (\<lambda>i. unmap_page do_free (a + of_nat (i * PGSIZE))) [0..<npages] p"

definition readi :: "env \<Rightarrow> nat \<Rightarrow> uint64 \<Rightarrow> nat \<Rightarrow> nat \<Rightarrow> 'b proc \<Rightarrow> int \<times> 'b proc" where
  "readi e ip dst off n p =
     (readi_ret e,
      p\<lparr>physmem := (physmem p)(dst :=
           (\<lambda>i. if int i < readi_ret e \<and> i < n then disk p ip (off + i) else physmem p dst i))\<rparr>)"

definition writei :: "env \<Rightarrow> nat \<Rightarrow> uint64 \<Rightarrow> nat \<Rightarrow> nat \<Rightarrow> 'b proc \<Rightarrow> int \<times> 'b proc" where
  "writei e ip src off n p =
     (writei_ret e,
      p\<lparr>disk := (disk p)(ip :=
           (\<lambda>k. if off \<le> k \<and> int (k - off) < writei_ret e \<and> k - off < n
                then physmem p src (k - off) else disk p ip k))\<rparr>)"

definition setkilled :: "'b proc \<Rightarrow> 'b proc" where
  "setkilled p = p\<lparr>killed := True\<rparr>"

section \<open>\<^verbatim>\<open>demand_paging.c\<close>\<close>

definition demand_paging_init :: "uint32 proc \<Rightarrow> uint32 proc" where
  "demand_paging_init p =
     p\<lparr>text_start := 0, text_end := 0, data_start := 0, data_end := 0,
       heap_start := 0, stack_top := 0, next_fifo_seq := 0, swapfile := None,
       num_swapped_pages := 0, num_pages := 0, exec_inode := None,
       swap_slot_bitmap := (\<lambda>i. if i < 32 then 0 else swap_slot_bitmap p i),
       pages := (\<lambda>i. if i < MAX_PROC_PAGES
                      then \<lparr>va = 0, state = UNMAPPED, is_dirty = False, seq = - 1, swap_slot = - 1\<rparr>
                      else pages p i),
       exec_off := (\<lambda>i. if i < MAX_PROC_PAGES then 0 else exec_off p i)\<rparr>"

text \<open>The search \<^verbatim>\<open>for(int i = 0; i < p->num_pages; i++) if(p->pages[i].va == va)\<close>, from \<open>i\<close> on.\<close>

function find_page :: "(nat \<Rightarrow> page_info) \<Rightarrow> uint64 \<Rightarrow> nat \<Rightarrow> nat \<Rightarrow> nat option" where
  "find_page pg a i n =
     (if i < n then (if va (pg i) = a then Some i else find_page pg a (i + 1) n) else None)"
  by pat_completeness auto
termination
  by (relation "measure (\<lambda>(pg, a, i, n). n - i)") auto

declare find_page.simps [simp del]

text \<open>A pointer into \<^verbatim>\<open>p->pages\<close> is the index of the entry; the null pointer is \<open>None\<close>.\<close>

definition get_page_info_dp :: "uint32 proc \<Rightarrow> uint64 \<Rightarrow> nat option \<times> uint32 proc" where
  "get_page_info_dp p a0 =
     (let a = PGROUNDDOWN a0 in
      case find_page (pages p) a 0 (num_pages p) of
        Some i \<Rightarrow> (Some i, p)
      | None \<Rightarrow>
          if num_pages p < MAX_PROC_PAGES then
            (let i = num_pages p in
             (Some i,
              p\<lparr>num_pages := i + 1,
                pages := (pages p)(i :=
                  \<lparr>va = a, state = UNMAPPED, is_dirty = False, seq = - 1, swap_slot = - 1\<rparr>)\<rparr>))
          else (None, p))"

text \<open>
  \<^verbatim>\<open>create_swap_file\<close>: the path is \<^verbatim>\<open>/pgswp\<close> and the pid in five digits. Whether \<^verbatim>\<open>namei\<close> finds
  an inode under the path (\<open>existing\<close>) and whether \<^verbatim>\<open>filealloc\<close> has a file structure left
  are arguments; \<^verbatim>\<open>p->swapfile\<close> is a \<^verbatim>\<open>struct file\<close>, known here by the number of its inode.
\<close>

definition pid_digits5 :: "nat \<Rightarrow> string" where
  "pid_digits5 n = map (\<lambda>k. char_of (48 + (n div 10 ^ k) mod 10)) [4, 3, 2, 1, 0]"

definition create_swap_file_dp :: "env \<Rightarrow> nat option \<Rightarrow> bool \<Rightarrow> uint32 proc \<Rightarrow> int \<times> uint32 proc" where
  "create_swap_file_dp e existing filealloc_ok p =
     (let path = ''/pgswp'' @ pid_digits5 (pid p);
          p1 = fs (Namei path) (fs Begin_op p);
          p2 = (case existing of None \<Rightarrow> p1 | Some ip \<Rightarrow> fs (Iunlockput ip) p1);
          p3 = fs (Create path) p2
      in case create_ret e of
           None \<Rightarrow> (- 1, fs End_op p3)
         | Some ip \<Rightarrow>
             if \<not> filealloc_ok then (- 1, fs End_op (fs (Iunlockput ip) p3))
             else (0, (fs End_op (fs (Iunlock ip) p3))\<lparr>swapfile := Some ip\<rparr>))"

text \<open>The count \<^verbatim>\<open>freed_slots\<close> of \<^verbatim>\<open>delete_swap_file\<close>: the set bits among slots \<open>i\<close> to 1023.\<close>

function count_slots_dp :: "(nat \<Rightarrow> uint32) \<Rightarrow> nat \<Rightarrow> int \<Rightarrow> int" where
  "count_slots_dp bm i freed_slots =
     (if i < 1024 then
        count_slots_dp bm (i + 1)
          (if bm (i div 32) AND push_bit (i mod 32) 1 \<noteq> 0 then freed_slots + 1 else freed_slots)
      else freed_slots)"
  by pat_completeness auto
termination
  by (relation "measure (\<lambda>(bm, i, c). 1024 - i)") auto

declare count_slots_dp.simps [simp del]

text \<open>\<^verbatim>\<open>p->swapfile\<close> is a \<^verbatim>\<open>struct file\<close>; it is known here by the number of its inode.\<close>

definition delete_swap_file_dp :: "uint32 proc \<Rightarrow> uint32 proc" where
  "delete_swap_file_dp p =
     (case swapfile p of
        None \<Rightarrow> p
      | Some f \<Rightarrow>
          (let freed_slots = count_slots_dp (swap_slot_bitmap p) 0 0;
               p1 = printf (SWAPCLEANUP freed_slots) p;
               p2 = fs (Fileclose f) p1
           in p2\<lparr>swapfile := None\<rparr>))"

definition swap_out_page :: "env \<Rightarrow> uint32 proc \<Rightarrow> uint64 \<Rightarrow> uint64 \<Rightarrow> int \<times> uint32 proc" where
  "swap_out_page e p a pa =
     (case swapfile p of
        None \<Rightarrow> (- 1, p)
      | Some ip \<Rightarrow>
          (case get_page_info_dp p a of
             (None, p1) \<Rightarrow> (- 1, p1)
           | (Some i, p1) \<Rightarrow>
               (case alloc_swap_slot_dp p1 of
                  (slot, p2) \<Rightarrow>
                    if slot < 0 then (- 1, printf KILL_swap_exhausted (printf SWAPFULL p2))
                    else
                      (case writei e ip pa (nat slot * PGSIZE) PGSIZE (fs (Ilock ip) (fs Begin_op p2)) of
                         (r, p3) \<Rightarrow>
                           if r \<noteq> int PGSIZE
                           then (- 1, free_swap_slot_dp (fs End_op (fs (Iunlock ip) p3)) slot)
                           else
                             (let p4 = fs End_op (fs (Iunlock ip) p3);
                                  p5 = p4\<lparr>pages := (pages p4)(i :=
                                            (pages p4 i)\<lparr>swap_slot := slot, state := SWAPPED\<rparr>),
                                          num_swapped_pages := num_swapped_pages p4 + 1\<rparr>
                              in (slot, printf (SWAPOUT (PGROUNDDOWN a) slot) p5))))))"

definition swap_in_page :: "env \<Rightarrow> uint32 proc \<Rightarrow> uint64 \<Rightarrow> uint64 \<Rightarrow> int \<times> uint32 proc" where
  "swap_in_page e p a pa =
     (case swapfile p of
        None \<Rightarrow> (- 1, p)
      | Some ip \<Rightarrow>
          (case get_page_info_dp p a of
             (None, p1) \<Rightarrow> (- 1, p1)
           | (Some i, p1) \<Rightarrow>
               if state (pages p1 i) \<noteq> SWAPPED then (- 1, p1)
               else
                 (let slot = swap_slot (pages p1 i) in
                  if slot < 0 then (- 1, p1)
                  else
                    (case readi e ip pa (nat slot * PGSIZE) PGSIZE (fs (Ilock ip) (fs Begin_op p1)) of
                       (r, p2) \<Rightarrow>
                         if r \<noteq> int PGSIZE then (- 1, fs End_op (fs (Iunlock ip) p2))
                         else
                           (let p3 = printf (SWAPIN (PGROUNDDOWN a) slot) (fs End_op (fs (Iunlock ip) p2));
                                p4 = free_swap_slot_dp p3 slot;
                                p5 = p4\<lparr>pages := (pages p4)(i :=
                                          (pages p4 i)\<lparr>swap_slot := - 1, state := RESIDENT\<rparr>)\<rparr>;
                                p6 = (if num_swapped_pages p5 > 0
                                      then p5\<lparr>num_swapped_pages := num_swapped_pages p5 - 1\<rparr>
                                      else p5);
                                p7 = p6\<lparr>pages := (pages p6)(i :=
                                          (pages p6 i)\<lparr>seq := next_fifo_seq p6, is_dirty := False\<rparr>),
                                        next_fifo_seq := int_incr (next_fifo_seq p6)\<rparr>
                            in (0, printf (RESIDENT_seq (PGROUNDDOWN a) (seq (pages p7 i))) p7))))))"

text \<open>The scan of \<^verbatim>\<open>find_fifo_victim\<close> from entry \<open>i\<close> on, with \<^verbatim>\<open>min_seq\<close> and \<^verbatim>\<open>victim_va\<close>.\<close>

function fifo_scan :: "(nat \<Rightarrow> page_info) \<Rightarrow> nat \<Rightarrow> nat \<Rightarrow> int \<Rightarrow> uint64 \<Rightarrow> uint64" where
  "fifo_scan pg i n min_seq victim_va =
     (if i < n then
        (if state (pg i) = RESIDENT \<and> (min_seq = - 1 \<or> seq (pg i) < min_seq)
         then fifo_scan pg (i + 1) n (seq (pg i)) (va (pg i))
         else fifo_scan pg (i + 1) n min_seq victim_va)
      else victim_va)"
  by pat_completeness auto
termination
  by (relation "measure (\<lambda>(pg, i, n, m, v). n - i)") auto

declare fifo_scan.simps [simp del]

definition find_fifo_victim :: "uint32 proc \<Rightarrow> uint64" where
  "find_fifo_victim p = fifo_scan (pages p) 0 (num_pages p) (- 1) 0"

definition evict_page :: "env \<Rightarrow> uint32 proc \<Rightarrow> uint64 \<Rightarrow> int \<times> uint32 proc" where
  "evict_page e p victim_va =
     (case get_page_info_dp p victim_va of
        (None, p1) \<Rightarrow> (- 1, p1)
      | (Some i, p1) \<Rightarrow>
          if state (pages p1 i) \<noteq> RESIDENT then (- 1, p1)
          else
            (case walk p1 victim_va of
               None \<Rightarrow> (- 1, p1)
             | Some pte \<Rightarrow>
                 (let pa = frame pte;
                      p2 = printf (VICTIM victim_va (seq (pages p1 i))) p1
                  in if is_dirty (pages p2 i) then
                       (case swap_out_page e (printf (EVICT_dirty victim_va) p2) victim_va pa of
                          (r, p3) \<Rightarrow>
                            if r < 0 then (- 1, p3)
                            else (0, kfree pa (clear_pte victim_va p3)))
                     else
                       (let p3 = printf (DISCARD victim_va) (printf (EVICT_clean victim_va) p2);
                            p4 = p3\<lparr>pages := (pages p3)(i := (pages p3 i)\<lparr>state := UNMAPPED\<rparr>)\<rparr>
                        in (0, kfree pa (clear_pte victim_va p4))))))"

text \<open>
  \<^verbatim>\<open>handle_page_fault\<close> in four steps, each its own definition: the classification of the
  fault (lines 353 to 378), the frame (lines 391 to 416; a frame of 0 stands for the
  three \<^verbatim>\<open>return -1\<close>), the contents of the page and its descriptor (lines 421 to 492),
  and the mapping.
\<close>

definition fault_cause_dp :: "uint32 proc \<Rightarrow> nat option \<Rightarrow> uint64 \<Rightarrow> cause \<times> bool" where
  "fault_cause_dp p pi a =
     (if (case pi of None \<Rightarrow> False | Some i \<Rightarrow> state (pages p i) = SWAPPED) then (Cause_swap, True)
      else if text_start p \<le> a \<and> a < data_end p then (Cause_exec, True)
      else if heap_start p \<le> a \<and> a < sz p then (Cause_heap, True)
      else if a < stack_top p \<and> stack_top p - 2 * of_nat PGSIZE \<le> a then (Cause_stack, True)
      else (Cause_unknown, False))"

definition fault_frame_dp :: "env \<Rightarrow> uint32 proc \<Rightarrow> uint64 \<times> uint32 proc" where
  "fault_frame_dp e p =
     (if kalloc_1st e \<noteq> 0 then (kalloc_1st e, p)
      else
        (let p1 = printf MEMFULL p;
             victim_va = find_fifo_victim p1
         in if victim_va = 0 then (0, p1)
            else
              (case evict_page e p1 victim_va of
                 (r, p2) \<Rightarrow> if r < 0 then (0, p2) else (kalloc_2nd e, p2))))"

definition make_resident_dp :: "uint32 proc \<Rightarrow> nat option \<Rightarrow> uint64 \<Rightarrow> uint32 proc" where
  "make_resident_dp p pi a =
     (case (case pi of None \<Rightarrow> get_page_info_dp p a | Some i \<Rightarrow> (Some i, p)) of
        (None, p1) \<Rightarrow> printf (RESIDENT_seq a (- 1)) p1
      | (Some i, p1) \<Rightarrow>
          (let p2 = p1\<lparr>pages := (pages p1)(i :=
                      (pages p1 i)\<lparr>state := RESIDENT, seq := next_fifo_seq p1, is_dirty := False\<rparr>),
                    next_fifo_seq := int_incr (next_fifo_seq p1)\<rparr>
           in printf (RESIDENT_seq a (seq (pages p2 i))) p2))"

definition fault_fill_dp ::
  "env \<Rightarrow> uint32 proc \<Rightarrow> nat option \<Rightarrow> uint64 \<Rightarrow> uint64 \<Rightarrow> int \<times> uint32 proc" where
  "fault_fill_dp e p pi a mem =
     (if (case pi of None \<Rightarrow> False | Some i \<Rightarrow> state (pages p i) = SWAPPED) then
        (case swap_in_page e p a mem of
           (r, p1) \<Rightarrow> if r < 0 then (- 1, kfree mem p1) else (0, p1))
      else if text_start p \<le> a \<and> a < data_end p then
        (case exec_inode p of
           None \<Rightarrow> (- 1, kfree mem p)
         | Some ip \<Rightarrow>
             (let (offset, found) = (case find_page (pages p) a 0 (num_pages p) of
                                       None \<Rightarrow> (0, False) | Some i \<Rightarrow> (exec_off p i, True))
              in if found \<and> offset > 0 then
                   (case readi e ip mem (unat offset) PGSIZE (fs (Ilock ip) (fs Begin_op p)) of
                      (r, p1) \<Rightarrow>
                        if r < 0 then (- 1, kfree mem (fs End_op (fs (Iunlock ip) p1)))
                        else (0, make_resident_dp
                                   (printf (LOADEXEC a) (fs End_op (fs (Iunlock ip) p1))) pi a))
                 else (0, make_resident_dp (printf (LOADEXEC a) p) pi a)))
      else (0, make_resident_dp (printf (ALLOC a) p) pi a))"

definition handle_page_fault :: "env \<Rightarrow> uint32 proc \<Rightarrow> uint64 \<Rightarrow> bool \<Rightarrow> int \<times> uint32 proc" where
  "handle_page_fault e p a0 is_write =
     (let a = PGROUNDDOWN a0;
          access_type = (if is_write then Acc_write
                         else if text_start p \<le> a \<and> a < text_end p then Acc_exec
                         else Acc_read)
      in case get_page_info_dp p a of
           (pi, p1) \<Rightarrow>
             (case fault_cause_dp p1 pi a of
                (cause, is_valid) \<Rightarrow>
                  (let p2 = printf (PAGEFAULT a access_type cause) p1
                   in if \<not> is_valid then (- 1, printf (KILL_invalid_access a access_type) p2)
                      else
                        (case fault_frame_dp e p2 of
                           (mem, p3) \<Rightarrow>
                             if mem = 0 then (- 1, p3)
                             else
                               (case fault_fill_dp e (memset_page mem p3) pi a mem of
                                  (r, p4) \<Rightarrow>
                                    if r < 0 then (- 1, p4)
                                    else
                                      (let perm = {PTE_U, PTE_R} \<union>
                                             (if text_start p4 \<le> a \<and> a < text_end p4
                                              then {PTE_X} else {})
                                       in case mappages e a mem perm p4 of
                                            (m, p5) \<Rightarrow>
                                              if m < 0 then (- 1, kfree mem p5)
                                              else (0, p5)))))))"

definition handle_write_fault :: "uint32 proc \<Rightarrow> uint64 \<Rightarrow> int \<times> uint32 proc" where
  "handle_write_fault p a0 =
     (let a = PGROUNDDOWN a0
      in case get_page_info_dp p a of
           (None, p1) \<Rightarrow> (- 1, p1)
         | (Some i, p1) \<Rightarrow>
             if state (pages p1 i) \<noteq> RESIDENT then (- 1, p1)
             else
               (let p2 = p1\<lparr>pages := (pages p1)(i := (pages p1 i)\<lparr>is_dirty := True\<rparr>)\<rparr>
                in case walk p2 a of
                     None \<Rightarrow> (- 1, p2)
                   | Some pte \<Rightarrow>
                       (0, p2\<lparr>pagetable := (pagetable p2)(PGROUNDDOWN a \<mapsto>
                                 pte\<lparr>perms := perms pte \<union> {PTE_W}\<rparr>)\<rparr>)))"

section \<open>\<^verbatim>\<open>lazy.c\<close>\<close>

definition lazy_init :: "uint64 proc \<Rightarrow> uint64 proc" where
  "lazy_init p =
     p\<lparr>text_start := 0, text_end := 0, data_start := 0, data_end := 0,
       heap_start := 0, stack_top := 0, next_fifo_seq := 0, swapfile_inode := None,
       num_swapped_pages := 0, num_pages := 0, exec_inode := None,
       swap_slot_bitmap := (\<lambda>i. if i < 32 then 0 else swap_slot_bitmap p i),
       pages := (\<lambda>i. if i < MAX_PROC_PAGES
                      then \<lparr>va = 0, state = UNMAPPED, is_dirty = False, seq = 0, swap_slot = - 1\<rparr>
                      else pages p i)\<rparr>"

definition lazy_free :: "uint64 proc \<Rightarrow> uint64 proc" where
  "lazy_free p =
     (let p1 = (case swapfile_inode p of
                  None \<Rightarrow> p
                | Some ip \<Rightarrow> (fs End_op (fs (Iput ip) (fs Begin_op p)))\<lparr>swapfile_inode := None\<rparr>);
          p2 = (case exec_inode p1 of
                  None \<Rightarrow> p1
                | Some ip \<Rightarrow> (fs End_op (fs (Iput ip) (fs Begin_op p1)))\<lparr>exec_inode := None\<rparr>)
      in if num_swapped_pages p2 > 0 then printf (SWAPCLEANUP (num_swapped_pages p2)) p2 else p2)"

definition get_page_info_lazy :: "uint64 proc \<Rightarrow> uint64 \<Rightarrow> nat option" where
  "get_page_info_lazy p a =
     (let page_num = unat ((a div of_nat PGSIZE) mod of_nat MAX_PROC_PAGES)
      in if page_num \<ge> MAX_PROC_PAGES then None else Some page_num)"

text \<open>The decimal digits of the pid that \<^verbatim>\<open>create_swap_file\<close> writes behind \<^verbatim>\<open>/pgswp\<close>.\<close>

function pid_digits :: "nat \<Rightarrow> string" where
  "pid_digits n = (if n = 0 then [] else pid_digits (n div 10) @ [char_of (48 + n mod 10)])"
  by pat_completeness auto
termination
  by (relation "measure (\<lambda>n. n)") auto

declare pid_digits.simps [simp del]

definition create_swap_file_lazy :: "env \<Rightarrow> uint64 proc \<Rightarrow> int \<times> uint64 proc" where
  "create_swap_file_lazy e p =
     (if swapfile_inode p \<noteq> None then (0, p)
      else
        (let path = ''/pgswp'' @ pid_digits (pid p);
             p1 = fs (Create path) (fs Begin_op p)
         in case create_ret e of
              None \<Rightarrow> (- 1, fs End_op p1)
            | Some ip \<Rightarrow> (0, fs End_op ((fs (Iunlock ip) p1)\<lparr>swapfile_inode := Some ip\<rparr>))))"

definition delete_swap_file_lazy :: "uint64 proc \<Rightarrow> uint64 proc" where
  "delete_swap_file_lazy p =
     (case swapfile_inode p of
        None \<Rightarrow> p
      | Some ip \<Rightarrow>
          if iref (inodes p ip) = 0 \<or> itype (inodes p ip) = 0 then p\<lparr>swapfile_inode := None\<rparr>
          else
            (let p1 = fs (Ilock ip) (fs Begin_op p);
                 p2 = p1\<lparr>inodes := (inodes p1)(ip := (inodes p1 ip)\<lparr>nlink := 0\<rparr>)\<rparr>;
                 p3 = fs End_op (fs (Iput ip) (fs (Iunlock ip) (fs (Iupdate ip) p2)))
             in p3\<lparr>swapfile_inode := None\<rparr>))"

text \<open>
  The victim scan of \<^verbatim>\<open>lazy_evict_page\<close> from entry \<open>i\<close> on. \<^verbatim>\<open>min_seq\<close> is a \<^verbatim>\<open>uint32\<close>, so
  the comparison and the assignment take \<^verbatim>\<open>seq\<close> modulo \<open>2 ^ 32\<close>.
\<close>

definition to_uint32 :: "int \<Rightarrow> int" where
  "to_uint32 x = x mod 4294967296"

function lazy_victim_scan :: "(nat \<Rightarrow> page_info) \<Rightarrow> nat \<Rightarrow> nat option \<Rightarrow> int \<Rightarrow> nat option" where
  "lazy_victim_scan pg i victim_idx min_seq =
     (if i < MAX_PROC_PAGES then
        (if state (pg i) = RESIDENT \<and> to_uint32 (seq (pg i)) < min_seq
         then lazy_victim_scan pg (i + 1) (Some i) (to_uint32 (seq (pg i)))
         else lazy_victim_scan pg (i + 1) victim_idx min_seq)
      else victim_idx)"
  by pat_completeness auto
termination
  by (relation "measure (\<lambda>(pg, i, v, m). MAX_PROC_PAGES - i)") auto

declare lazy_victim_scan.simps [simp del]

definition lazy_evict_page :: "env \<Rightarrow> uint64 proc \<Rightarrow> int \<times> uint64 proc" where
  "lazy_evict_page e p =
     (case lazy_victim_scan (pages p) 0 None 4294967295 of
        None \<Rightarrow> (- 1, p)
      | Some victim_idx \<Rightarrow>
          (let victim_va = va (pages p victim_idx);
               p1 = printf (VICTIM victim_va (seq (pages p victim_idx))) p;
               dirty = is_dirty (pages p1 victim_idx);
               is_executable = (text_start p1 \<le> victim_va \<and> victim_va < text_end p1);
               finish = (\<lambda>q. (1, printf (EVICT victim_va) (uvmunmap victim_va PGSIZE True q)))
           in if dirty \<or> \<not> is_executable then
                (case (if swapfile_inode p1 = None then create_swap_file_lazy e p1 else (0, p1)) of
                   (c, p2) \<Rightarrow>
                     if c \<noteq> 0 then (- 1, setkilled (printf KILL_swap_exhausted p2))
                     else
                       (case alloc_swap_slot_lazy p2 of
                          (slot, p3) \<Rightarrow>
                            if slot < 0 then (- 1, setkilled (printf KILL_swap_exhausted p3))
                            else
                              (let pa = walkaddr p3 victim_va;
                                   p4 = (if pa \<noteq> 0 then
                                           (case swapfile_inode p3 of
                                              None \<Rightarrow> p3
                                            | Some ip \<Rightarrow>
                                                printf (SWAPOUT victim_va slot)
                                                  (fs (Iunlock ip)
                                                    (snd (writei e ip pa (nat slot * PGSIZE) PGSIZE
                                                           (fs (Ilock ip) p3)))))
                                         else p3);
                                   p5 = p4\<lparr>pages := (pages p4)(victim_idx :=
                                             (pages p4 victim_idx)\<lparr>state := SWAPPED, swap_slot := slot\<rparr>),
                                           num_swapped_pages := num_swapped_pages p4 + 1\<rparr>
                               in finish p5)))
              else
                (let p2 = printf (DISCARD victim_va) p1;
                     p3 = p2\<lparr>pages := (pages p2)(victim_idx :=
                               (pages p2 victim_idx)\<lparr>state := UNMAPPED, swap_slot := - 1\<rparr>)\<rparr>
                 in finish p3)))"

text \<open>
  The frame of a fault in \<^verbatim>\<open>lazy_handle_fault\<close> (lines 106 to 118 and again 195 to 208); a
  frame of 0 stands for the \<^verbatim>\<open>return -1\<close> behind \<^verbatim>\<open>MEMFULL\<close>.
\<close>

definition fault_frame_lazy :: "env \<Rightarrow> uint64 proc \<Rightarrow> uint64 \<times> uint64 proc" where
  "fault_frame_lazy e p =
     (if kalloc_1st e \<noteq> 0 then (kalloc_1st e, p)
      else
        (case lazy_evict_page e p of
           (r, p1) \<Rightarrow>
             (let mem = (if r > 0 then kalloc_2nd e else 0)
              in if mem = 0 then (0, setkilled (printf MEMFULL p1)) else (mem, p1))))"

definition pte_flags_lazy :: "uint64 proc \<Rightarrow> uint64 \<Rightarrow> perm set" where
  "pte_flags_lazy p a =
     {PTE_U, PTE_R} \<union> (if text_start p \<le> a \<and> a < text_end p then {PTE_X} else {PTE_W})"

text \<open>Lines 100 to 162: the fault on a page whose descriptor is \<^verbatim>\<open>SWAPPED\<close>.\<close>

definition lazy_swap_in :: "env \<Rightarrow> uint64 proc \<Rightarrow> nat \<Rightarrow> uint64 \<Rightarrow> access \<Rightarrow> int \<times> uint64 proc" where
  "lazy_swap_in e p i a access_type =
     (case fault_frame_lazy e (printf (PAGEFAULT a access_type Cause_swap) p) of
        (mem, p1) \<Rightarrow>
          if mem = 0 then (- 1, p1)
          else
            (let p2 = memset_page mem p1;
                 p3 = (case swapfile_inode p2 of
                         None \<Rightarrow> p2
                       | Some ip \<Rightarrow>
                           if swap_slot (pages p2 i) \<ge> 0 then
                             printf (SWAPIN a (swap_slot (pages p2 i)))
                               (fs (Iunlock ip)
                                 (snd (readi e ip mem (nat (swap_slot (pages p2 i)) * PGSIZE) PGSIZE
                                        (fs (Ilock ip) p2))))
                           else p2)
             in case mappages e a mem (pte_flags_lazy p3 a) p3 of
                  (m, p4) \<Rightarrow>
                    if m \<noteq> 0 then (- 1, setkilled (kfree mem p4))
                    else
                      (let old_slot = swap_slot (pages p4 i);
                           p5 = p4\<lparr>pages := (pages p4)(i :=
                                     (pages p4 i)\<lparr>state := RESIDENT, seq := next_fifo_seq p4,
                                                  swap_slot := - 1\<rparr>),
                                   next_fifo_seq := int_incr (next_fifo_seq p4)\<rparr>;
                           p6 = (if old_slot \<ge> 0
                                 then (free_swap_slot_lazy p5 old_slot)
                                        \<lparr>num_swapped_pages := num_swapped_pages p5 - 1\<rparr>
                                 else p5)
                       in (0, printf (RESIDENT_seq a (seq (pages p6 i))) p6))))"

text \<open>Lines 166 to 182: the region the address lies in.\<close>

definition fault_cause_lazy :: "env \<Rightarrow> uint64 proc \<Rightarrow> uint64 \<Rightarrow> cause \<times> bool" where
  "fault_cause_lazy e p a =
     (let stack_bottom = stack_top p - of_nat ((USERSTACK e + 1) * PGSIZE)
      in if stack_bottom \<le> a \<and> a < stack_top p then (Cause_stack, True)
         else if heap_start p \<le> a \<and> a < stack_bottom then (Cause_heap, True)
         else if (text_start p \<le> a \<and> a < text_end p) \<or> (data_start p \<le> a \<and> a < data_end p)
              then (Cause_exec, True)
         else (Cause_unknown, False))"

text \<open>Lines 212 to 224: the bytes of an exec page.\<close>

definition load_exec_lazy :: "env \<Rightarrow> uint64 proc \<Rightarrow> uint64 \<Rightarrow> uint64 \<Rightarrow> uint64 proc" where
  "load_exec_lazy e p a mem =
     (case exec_inode p of
        None \<Rightarrow> p
      | Some ip \<Rightarrow>
          (let page_idx = unat ((a div of_nat PGSIZE) mod of_nat MAX_PROC_PAGES);
               file_offset = (if page_idx < MAX_PROC_PAGES then exec_off p page_idx else 0);
               read_len = (if page_idx < MAX_PROC_PAGES then exec_len p page_idx else 0)
           in if file_offset > 0 \<and> read_len > 0
              then fs (Iunlock ip)
                     (snd (readi e ip mem (unat file_offset) (nat read_len) (fs (Ilock ip) p)))
              else p))"

definition lazy_handle_fault :: "env \<Rightarrow> uint64 proc \<Rightarrow> uint64 \<Rightarrow> bool \<Rightarrow> int \<times> uint64 proc" where
  "lazy_handle_fault e p a0 write_fault =
     (let a = PGROUNDDOWN a0;
          access_type = (if write_fault then Acc_write else Acc_read)
      in if ismapped p a then (- 1, p)
         else if (case get_page_info_lazy p a of
                    None \<Rightarrow> False | Some i \<Rightarrow> state (pages p i) = SWAPPED)
         then lazy_swap_in e p (the (get_page_info_lazy p a)) a access_type
         else
           (case fault_cause_lazy e p a of
              (cause, valid) \<Rightarrow>
                if \<not> valid then (- 1, printf (PAGEFAULT_invalid a access_type) p)
                else
                  (case fault_frame_lazy e (printf (PAGEFAULT a access_type cause) p) of
                     (mem, p1) \<Rightarrow>
                       if mem = 0 then (- 1, p1)
                       else
                         (let p2 = memset_page mem p1;
                              p3 = (if cause = Cause_exec then load_exec_lazy e p2 a mem else p2)
                          in case mappages e a mem (pte_flags_lazy p3 a) p3 of
                               (m, p4) \<Rightarrow>
                                 if m \<noteq> 0 then (- 1, setkilled (kfree mem p4))
                                 else
                                   (let p5 = printf (if cause = Cause_exec then LOADEXEC a else ALLOC a) p4
                                    in case get_page_info_lazy p5 a of
                                         None \<Rightarrow> (0, p5)
                                       | Some i \<Rightarrow>
                                           (let p6 = p5\<lparr>pages := (pages p5)(i :=
                                                       \<lparr>va = a, state = RESIDENT, is_dirty = write_fault,
                                                        seq = next_fifo_seq p5, swap_slot = - 1\<rparr>),
                                                     next_fifo_seq := int_incr (next_fifo_seq p5)\<rparr>
                                            in (0, printf (RESIDENT_seq a (seq (pages p6 i))) p6)))))))"

section \<open>\<^verbatim>\<open>sysproc.c\<close>\<close>

text \<open>
  \<^verbatim>\<open>sys_sbrk\<close>, with the arguments \<open>n\<close> and \<open>t\<close> that \<^verbatim>\<open>argint\<close> fetches (C \<^verbatim>\<open>int\<close>s, read with
  \<open>sint\<close>) and with \<^verbatim>\<open>growproc\<close> of \<^verbatim>\<open>proc.c\<close>, which is not among the sources, as a parameter.
  \<^verbatim>\<open>addr + n\<close> converts \<open>n\<close> to \<^verbatim>\<open>uint64\<close> by sign extension; the result \<open>- 1\<close> is the
  \<^verbatim>\<open>uint64\<close> of all ones.
\<close>

definition sys_sbrk ::
  "env \<Rightarrow> (int \<Rightarrow> 'b proc \<Rightarrow> int \<times> 'b proc) \<Rightarrow> 32 word \<Rightarrow> 32 word \<Rightarrow> 'b proc \<Rightarrow> uint64 \<times> 'b proc" where
  "sys_sbrk e growproc n t p =
     (let addr = sz p
      in if sint t = SBRK_EAGER e \<or> sint n < 0 then
           (case growproc (sint n) p of
              (r, p1) \<Rightarrow> if r < 0 then (- 1, p1) else (addr, p1))
         else if addr + of_int (sint n) < addr then (- 1, p)
         else (addr, p\<lparr>sz := sz p + of_int (sint n)\<rparr>))"

section \<open>\<^verbatim>\<open>exec.c\<close>\<close>

text \<open>
  The parts of \<^verbatim>\<open>kexec\<close> that touch the paging state. \<^verbatim>\<open>exec.c\<close> calls \<^verbatim>\<open>get_page_info\<close>, which
  is that of \<^verbatim>\<open>demand_paging.c\<close> or that of \<^verbatim>\<open>lazy.c\<close> depending on the file the kernel is
  linked with; the definitions that call it exist for both. The fields of the program
  header that the loop over a segment's pages reads (\<^verbatim>\<open>elf.h\<close> is not among the sources):
\<close>

record proghdr =
  ph_vaddr :: uint64
  ph_off :: uint64
  ph_filesz :: uint64
  ph_memsz :: uint64

text \<open>Lines 50 to 54: the old exec information is cleared.\<close>

definition kexec_clear :: "'b proc \<Rightarrow> 'b proc" where
  "kexec_clear p =
     p\<lparr>exec_off := (\<lambda>i. if i < MAX_PROC_PAGES then 0 else exec_off p i),
       exec_len := (\<lambda>i. if i < MAX_PROC_PAGES then 0 else exec_len p i),
       num_pages := 0\<rparr>"

text \<open>Lines 112 to 126: what the loop records for the page \<open>a\<close> of a segment in descriptor \<open>i\<close>.\<close>

definition kexec_record :: "proghdr \<Rightarrow> uint64 \<Rightarrow> nat \<Rightarrow> 'b proc \<Rightarrow> 'b proc" where
  "kexec_record ph a i p =
     (let p1 = p\<lparr>pages := (pages p)(i := (pages p i)\<lparr>va := a, state := UNMAPPED\<rparr>)\<rparr>;
          page_off = a - ph_vaddr ph
      in if page_off < ph_filesz ph then
           (let bytes_left = ph_filesz ph - page_off
            in p1\<lparr>exec_off := (exec_off p1)(i := ph_off ph + page_off),
                  exec_len := (exec_len p1)(i :=
                    (if bytes_left > of_nat PGSIZE then int PGSIZE else uint bytes_left))\<rparr>)
         else p1\<lparr>exec_off := (exec_off p1)(i := 0), exec_len := (exec_len p1)(i := 0)\<rparr>)"

definition kexec_page_dp :: "proghdr \<Rightarrow> uint64 \<Rightarrow> uint32 proc \<Rightarrow> uint32 proc" where
  "kexec_page_dp ph a p =
     (case get_page_info_dp p a of
        (None, p1) \<Rightarrow> p1
      | (Some i, p1) \<Rightarrow> kexec_record ph a i p1)"

definition kexec_page_lazy :: "proghdr \<Rightarrow> uint64 \<Rightarrow> uint64 proc \<Rightarrow> uint64 proc" where
  "kexec_page_lazy ph a p =
     (case get_page_info_lazy p a of
        None \<Rightarrow> p
      | Some i \<Rightarrow> kexec_record ph a i p)"

text \<open>Lines 152 to 158: the layout, from the segment bounds and the rounded end \<open>sz0\<close> of the program.\<close>

definition kexec_layout ::
  "env \<Rightarrow> uint64 \<Rightarrow> uint64 \<Rightarrow> uint64 \<Rightarrow> uint64 \<Rightarrow> uint64 \<Rightarrow> 'b proc \<Rightarrow> 'b proc" where
  "kexec_layout e ts te ds de sz0 p =
     p\<lparr>text_start := ts, text_end := te, data_start := ds, data_end := de,
       heap_start := PGROUNDUP de,
       stack_top := sz0 + of_nat ((USERSTACK e + 1) * PGSIZE),
       sz := sz0 + of_nat ((USERSTACK e + 1) * PGSIZE)\<rparr>"

text \<open>Lines 174 to 179: the first stack page, allocated at once, enters the descriptor table.\<close>

definition kexec_track :: "nat \<Rightarrow> 'b proc \<Rightarrow> 'b proc" where
  "kexec_track i p =
     p\<lparr>pages := (pages p)(i :=
          (pages p i)\<lparr>state := RESIDENT, seq := next_fifo_seq p, is_dirty := False\<rparr>),
       next_fifo_seq := int_incr (next_fifo_seq p)\<rparr>"

definition kexec_stack_dp :: "uint64 \<Rightarrow> uint32 proc \<Rightarrow> uint32 proc" where
  "kexec_stack_dp stackbase p =
     (case get_page_info_dp p stackbase of
        (None, p1) \<Rightarrow> p1
      | (Some i, p1) \<Rightarrow> kexec_track i p1)"

definition kexec_stack_lazy :: "uint64 \<Rightarrow> uint64 proc \<Rightarrow> uint64 proc" where
  "kexec_stack_lazy stackbase p =
     (case get_page_info_lazy p stackbase of
        None \<Rightarrow> p
      | Some i \<Rightarrow> kexec_track i p)"

section \<open>Concrete states\<close>

text \<open>A process slot with nothing in it, from which the example states below are built.\<close>

definition proc0 :: "'b::zero proc" where
  "proc0 = \<lparr>pid = 1, sz = 0, text_start = 0, text_end = 0, data_start = 0, data_end = 0,
     heap_start = 0, stack_top = 0, next_fifo_seq = 0, swapfile = None, swapfile_inode = None,
     num_swapped_pages = 0, num_pages = 0, exec_inode = None,
     swap_slot_bitmap = (\<lambda>_. 0),
     pages = (\<lambda>_. \<lparr>va = 0, state = UNMAPPED, is_dirty = False, seq = - 1, swap_slot = - 1\<rparr>),
     exec_off = (\<lambda>_. 0), exec_len = (\<lambda>_. 0), pagetable = (\<lambda>_. None), killed = False,
     physmem = (\<lambda>_ _. 0), disk = (\<lambda>_ _. 0),
     inodes = (\<lambda>_. \<lparr>iref = 0, itype = 0, nlink = 0\<rparr>),
     console = [], kfreed = [], fs_calls = []\<rparr>"

definition bitmap_one_dp :: "uint32 proc" where
  "bitmap_one_dp = proc0\<lparr>swap_slot_bitmap := (\<lambda>_. 0)(0 := 1)\<rparr>"

definition bitmap_full_dp :: "uint32 proc" where
  "bitmap_full_dp = proc0\<lparr>swap_slot_bitmap := (\<lambda>_. - 1)\<rparr>"

definition bitmap_one_lazy :: "uint64 proc" where
  "bitmap_one_lazy = proc0\<lparr>swap_slot_bitmap := (\<lambda>_. 0)(0 := 1)\<rparr>"

definition bitmap_full_lazy :: "uint64 proc" where
  "bitmap_full_lazy = proc0\<lparr>swap_slot_bitmap := (\<lambda>_. - 1)\<rparr>"

text \<open>
  An environment in which every collaborator succeeds: \<^verbatim>\<open>USERSTACK\<close> 1 and \<^verbatim>\<open>SBRK_EAGER\<close> 1
  as in xv6, two free frames, complete transfers.
\<close>

definition env0 :: env where
  "env0 = \<lparr>USERSTACK = 1, SBRK_EAGER = 1, kalloc_1st = 0x87000000, kalloc_2nd = 0x87001000,
     readi_ret = 4096, writei_ret = 4096, mappages_ret = 0, create_ret = Some 30\<rparr>"

definition swapfile_open_dp :: "uint32 proc" where
  "swapfile_open_dp = bitmap_one_dp\<lparr>swapfile := Some 30\<rparr>"

definition swapfile_open_lazy :: "uint64 proc" where
  "swapfile_open_lazy =
     bitmap_one_lazy\<lparr>swapfile_inode := Some 30,
       inodes := (\<lambda>_. \<lparr>iref = 0, itype = 0, nlink = 0\<rparr>)(30 := \<lparr>iref = 1, itype = 2, nlink = 1\<rparr>)\<rparr>"

definition env_short :: env where
  "env_short = env0\<lparr>kalloc_1st := 0, writei_ret := 100\<rparr>"

definition dp_image :: "uint32 proc" where
  "dp_image = proc0\<lparr>text_start := 0x1000, text_end := 0x3000, data_start := 0x3000,
     data_end := 0x4000, heap_start := 0x4000, sz := 0x6000, stack_top := 0x10000,
     exec_inode := Some 20, swapfile := Some 30\<rparr>"

definition dp_resident :: "uint32 proc" where
  "dp_resident = dp_image\<lparr>num_pages := 2, next_fifo_seq := 2,
     pages := (pages dp_image)
       (0 := \<lparr>va = 0x4000, state = RESIDENT, is_dirty = True, seq = 0, swap_slot = - 1\<rparr>,
        1 := \<lparr>va = 0x1000, state = RESIDENT, is_dirty = False, seq = 1, swap_slot = - 1\<rparr>),
     pagetable := (pagetable dp_image)
       (0x4000 \<mapsto> \<lparr>frame = 0x87000000, perms = {PTE_U, PTE_R, PTE_W}\<rparr>,
        0x1000 \<mapsto> \<lparr>frame = 0x87001000, perms = {PTE_U, PTE_R, PTE_X}\<rparr>)\<rparr>"

definition lazy_image :: "uint64 proc" where
  "lazy_image = proc0\<lparr>text_start := 0x1000, text_end := 0x3000, data_start := 0x3000,
     data_end := 0x4000, heap_start := 0x4000, sz := 0x10000, stack_top := 0x10000,
     exec_inode := Some 20, swapfile_inode := Some 30\<rparr>"

definition lazy_resident :: "uint64 proc" where
  "lazy_resident = lazy_image\<lparr>next_fifo_seq := 2,
     pages := (pages lazy_image)
       (4 := \<lparr>va = 0x4000, state = RESIDENT, is_dirty = True, seq = 0, swap_slot = - 1\<rparr>,
        1 := \<lparr>va = 0x1000, state = RESIDENT, is_dirty = False, seq = 1, swap_slot = - 1\<rparr>),
     pagetable := (pagetable lazy_image)
       (0x4000 \<mapsto> \<lparr>frame = 0x87000000, perms = {PTE_U, PTE_R, PTE_W}\<rparr>,
        0x1000 \<mapsto> \<lparr>frame = 0x87001000, perms = {PTE_U, PTE_R, PTE_X}\<rparr>)\<rparr>"

definition lazy_written :: "uint64 proc" where
  "lazy_written =
     (let p = snd (lazy_handle_fault env0 lazy_image 0x4000 True)
      in p\<lparr>physmem := (physmem p)(0x87000000 := (physmem p 0x87000000)(0 := 0x51))\<rparr>)"

definition lazy_evicted :: "uint64 proc" where
  "lazy_evicted = snd (lazy_evict_page env0 lazy_written)"

definition lazy_swapped :: "uint64 proc" where
  "lazy_swapped = lazy_image\<lparr>next_fifo_seq := 1, num_swapped_pages := 1,
     swap_slot_bitmap := (\<lambda>_. 0)(0 := 1),
     pages := (pages lazy_image)
       (4 := \<lparr>va = 0x4000, state = SWAPPED, is_dirty = True, seq = 0, swap_slot = 0\<rparr>),
     disk := (\<lambda>_ _. 0)(30 := (\<lambda>_. 0)(0 := 0x51))\<rparr>"

definition dp_exec :: "uint32 proc" where
  "dp_exec = dp_image\<lparr>num_pages := 1,
     pages := (pages dp_image)
       (0 := \<lparr>va = 0x3000, state = UNMAPPED, is_dirty = False, seq = - 1, swap_slot = - 1\<rparr>),
     exec_off := (exec_off dp_image)(0 := 0x2000),
     exec_len := (exec_len dp_image)(0 := 100),
     disk := (\<lambda>_ _. 0)(20 := (\<lambda>_. 0)(0x2000 := 0x11, 0x2064 := 0xAA))\<rparr>"

definition lazy_exec :: "uint64 proc" where
  "lazy_exec = lazy_image\<lparr>
     pages := (pages lazy_image)
       (3 := \<lparr>va = 0x3000, state = UNMAPPED, is_dirty = False, seq = 0, swap_slot = - 1\<rparr>),
     exec_off := (exec_off lazy_image)(3 := 0x2000),
     exec_len := (exec_len lazy_image)(3 := 100),
     disk := (\<lambda>_ _. 0)(20 := (\<lambda>_. 0)(0x2000 := 0x11, 0x2064 := 0xAA))\<rparr>"

definition env_nomem :: env where
  "env_nomem = env0\<lparr>kalloc_1st := 0\<rparr>"

definition dp_text0 :: "uint32 proc" where
  "dp_text0 = proc0\<lparr>text_start := 0, text_end := 0x2000, data_start := 0x2000,
     data_end := 0x3000, heap_start := 0x3000, sz := 0x5000, stack_top := 0x10000,
     exec_inode := Some 20, num_pages := 1, next_fifo_seq := 1,
     pages := (\<lambda>_. \<lparr>va = 0, state = UNMAPPED, is_dirty = False, seq = - 1, swap_slot = - 1\<rparr>)
       (0 := \<lparr>va = 0, state = RESIDENT, is_dirty = False, seq = 0, swap_slot = - 1\<rparr>),
     pagetable := (\<lambda>_. None)(0 \<mapsto> \<lparr>frame = 0x87000000, perms = {PTE_U, PTE_R, PTE_X}\<rparr>)\<rparr>"

definition dp_text1 :: "uint32 proc" where
  "dp_text1 = dp_image\<lparr>num_pages := 1, next_fifo_seq := 1,
     pages := (pages dp_image)
       (0 := \<lparr>va = 0x1000, state = RESIDENT, is_dirty = False, seq = 0, swap_slot = - 1\<rparr>),
     pagetable := (pagetable dp_image)
       (0x1000 \<mapsto> \<lparr>frame = 0x87000000, perms = {PTE_U, PTE_R, PTE_X}\<rparr>)\<rparr>"

definition lazy_text0 :: "uint64 proc" where
  "lazy_text0 = proc0\<lparr>text_start := 0, text_end := 0x2000, data_start := 0x2000,
     data_end := 0x3000, heap_start := 0x3000, sz := 0x10000, stack_top := 0x10000,
     exec_inode := Some 20, next_fifo_seq := 1,
     pages := (\<lambda>_. \<lparr>va = 0, state = UNMAPPED, is_dirty = False, seq = 0, swap_slot = - 1\<rparr>)
       (0 := \<lparr>va = 0, state = RESIDENT, is_dirty = False, seq = 0, swap_slot = - 1\<rparr>),
     pagetable := (\<lambda>_. None)(0 \<mapsto> \<lparr>frame = 0x87000000, perms = {PTE_U, PTE_R, PTE_X}\<rparr>)\<rparr>"

section \<open>The validity of a fault, in the words of the specification\<close>

text \<open>
  Section 4.7 of the specification: a fault on the page \<open>a\<close> is valid when the page's
  descriptor is \<^verbatim>\<open>SWAPPED\<close>, or \<open>a\<close> lies in \<open>[text.start, data.end)\<close>, in \<open>[heap.start, sz)\<close> or in
  \<open>[stack_top - K * PGSIZE, stack_top)\<close>. This definition follows those words; the theorems
  on claim C2 compare it with what the two handlers compute.
\<close>

definition descriptor_swapped :: "'b proc \<Rightarrow> nat option \<Rightarrow> bool" where
  "descriptor_swapped p pi = (case pi of None \<Rightarrow> False | Some i \<Rightarrow> state (pages p i) = SWAPPED)"

definition claimed_valid :: "nat \<Rightarrow> 'b proc \<Rightarrow> bool \<Rightarrow> uint64 \<Rightarrow> bool" where
  "claimed_valid K p swapped a =
     (swapped
      \<or> (text_start p \<le> a \<and> a < data_end p)
      \<or> (heap_start p \<le> a \<and> a < sz p)
      \<or> (stack_top p - of_nat (K * PGSIZE) \<le> a \<and> a < stack_top p))"

text \<open>
  How a handler answers, read off the console: the lines of an invalid fault are
  \<^verbatim>\<open>KILL invalid-access\<close>, \<^verbatim>\<open>PAGEFAULT ... cause=invalid\<close> and \<^verbatim>\<open>PAGEFAULT ... cause=unknown\<close>. A
  fault is answered as valid between \<open>p\<close> and \<open>p'\<close> when the console has grown by lines none of
  which is one of these.
\<close>

definition invalid_line :: "event \<Rightarrow> bool" where
  "invalid_line ev =
     (case ev of
        KILL_invalid_access a acc \<Rightarrow> True
      | PAGEFAULT_invalid a acc \<Rightarrow> True
      | PAGEFAULT a acc c \<Rightarrow> c = Cause_unknown
      | _ \<Rightarrow> False)"

definition answered_valid :: "'b proc \<Rightarrow> 'b proc \<Rightarrow> bool" where
  "answered_valid p p' =
     (take (length (console p)) (console p') = console p
      \<and> list_all (\<lambda>ev. \<not> invalid_line ev) (drop (length (console p)) (console p')))"

definition lazy_grown :: "uint64 proc" where
  "lazy_grown = lazy_image\<lparr>sz := 0x12000\<rparr>"

definition dp_clean_heap :: "uint32 proc" where
  "dp_clean_heap = dp_image\<lparr>num_pages := 1, next_fifo_seq := 1,
     pages := (pages dp_image)
       (0 := \<lparr>va = 0x4000, state = RESIDENT, is_dirty = False, seq = 0, swap_slot = - 1\<rparr>),
     pagetable := (pagetable dp_image)
       (0x4000 \<mapsto> \<lparr>frame = 0x87000000, perms = {PTE_U, PTE_R}\<rparr>)\<rparr>"

section \<open>The FIFO sequence numbers\<close>

text \<open>
  Invariant I4 of the specification: the sequence numbers of the descriptors that are
  \<^verbatim>\<open>RESIDENT\<close> are pairwise distinct and below \<^verbatim>\<open>next_fifo_seq\<close>.
\<close>

definition I4 :: "'b proc \<Rightarrow> bool" where
  "I4 p =
     ((\<forall>i<MAX_PROC_PAGES. state (pages p i) = RESIDENT \<longrightarrow> seq (pages p i) < next_fifo_seq p)
      \<and> (\<forall>i<MAX_PROC_PAGES. \<forall>j<MAX_PROC_PAGES.
            i \<noteq> j \<and> state (pages p i) = RESIDENT \<and> state (pages p j) = RESIDENT
            \<longrightarrow> seq (pages p i) \<noteq> seq (pages p j)))"

text \<open>
  Descriptor \<open>i\<close> has been made resident between \<open>p\<close> and \<open>p'\<close>: it is \<^verbatim>\<open>RESIDENT\<close> with the
  value the counter had, and the counter has been incremented (\<^verbatim>\<open>next_fifo_seq++\<close>, which
  \<open>int_incr\<close> writes out: one more below \<^verbatim>\<open>INT_MAX\<close>, the wrap to \<open>- 2 ^ 31\<close> at \<^verbatim>\<open>INT_MAX\<close>).
\<close>

definition admitted :: "'b proc \<Rightarrow> nat \<Rightarrow> 'b proc \<Rightarrow> bool" where
  "admitted p i p' =
     (state (pages p' i) = RESIDENT \<and> seq (pages p' i) = next_fifo_seq p
      \<and> next_fifo_seq p' = int_incr (next_fifo_seq p))"

text \<open>
  Two ways a step can leave the numbers: it makes no descriptor resident and leaves the
  counter alone, or it makes one descriptor resident with the counter's value and
  advances the counter by one. Both keep I4, and a function of the two files does the one
  or the other when it starts with the counter below \<^verbatim>\<open>INT_MAX\<close>.
\<close>

definition quiet :: "'b proc \<Rightarrow> 'b proc \<Rightarrow> bool" where
  "quiet p p' =
     (next_fifo_seq p' = next_fifo_seq p
      \<and> (\<forall>j. state (pages p' j) = RESIDENT \<longrightarrow>
             state (pages p j) = RESIDENT \<and> seq (pages p' j) = seq (pages p j)))"

definition admits :: "'b proc \<Rightarrow> 'b proc \<Rightarrow> bool" where
  "admits p p' =
     (next_fifo_seq p' = next_fifo_seq p + 1
      \<and> (\<exists>i. \<forall>j. state (pages p' j) = RESIDENT \<longrightarrow>
             (j = i \<and> seq (pages p' j) = next_fifo_seq p)
             \<or> (state (pages p j) = RESIDENT \<and> seq (pages p' j) = seq (pages p j))))"

text \<open>
  The states of a process under \<^verbatim>\<open>demand_paging.c\<close>: \<open>reachable_dp n p\<close> says that \<open>p\<close> is reached
  from \<^verbatim>\<open>demand_paging_init\<close> by \<open>n\<close> calls of the functions of the file, of the parts of
  \<^verbatim>\<open>kexec\<close> above and of the lazy branch of \<^verbatim>\<open>sys_sbrk\<close>, with any arguments and any behaviour
  of the collaborators.
\<close>

inductive reachable_dp :: "nat \<Rightarrow> uint32 proc \<Rightarrow> bool" where
  dp_init: "reachable_dp 0 (demand_paging_init p)"
| dp_descriptor: "reachable_dp n p \<Longrightarrow> reachable_dp (Suc n) (snd (get_page_info_dp p a))"
| dp_fault: "reachable_dp n p \<Longrightarrow> reachable_dp (Suc n) (snd (handle_page_fault e p a w))"
| dp_write_fault: "reachable_dp n p \<Longrightarrow> reachable_dp (Suc n) (snd (handle_write_fault p a))"
| dp_evict: "reachable_dp n p \<Longrightarrow> reachable_dp (Suc n) (snd (evict_page e p a))"
| dp_swap_out: "reachable_dp n p \<Longrightarrow> reachable_dp (Suc n) (snd (swap_out_page e p a pa))"
| dp_swap_in: "reachable_dp n p \<Longrightarrow> reachable_dp (Suc n) (snd (swap_in_page e p a pa))"
| dp_create_swap: "reachable_dp n p \<Longrightarrow> reachable_dp (Suc n) (snd (create_swap_file_dp e x f p))"
| dp_delete_swap: "reachable_dp n p \<Longrightarrow> reachable_dp (Suc n) (delete_swap_file_dp p)"
| dp_alloc_slot: "reachable_dp n p \<Longrightarrow> reachable_dp (Suc n) (snd (alloc_swap_slot_dp p))"
| dp_free_slot: "reachable_dp n p \<Longrightarrow> reachable_dp (Suc n) (free_swap_slot_dp p s)"
| dp_sbrk: "reachable_dp n p \<Longrightarrow> sint t \<noteq> SBRK_EAGER e \<Longrightarrow> 0 \<le> sint k
     \<Longrightarrow> reachable_dp (Suc n) (snd (sys_sbrk e g k t p))"
| dp_exec_clear: "reachable_dp n p \<Longrightarrow> reachable_dp (Suc n) (kexec_clear p)"
| dp_exec_page: "reachable_dp n p \<Longrightarrow> reachable_dp (Suc n) (kexec_page_dp ph a p)"
| dp_exec_layout: "reachable_dp n p \<Longrightarrow> reachable_dp (Suc n) (kexec_layout e ts te ds de sz0 p)"
| dp_exec_stack: "reachable_dp n p \<Longrightarrow> reachable_dp (Suc n) (kexec_stack_dp a p)"

text \<open>
  The same for \<^verbatim>\<open>lazy.c\<close>, whose \<^verbatim>\<open>alloc_swap_slot\<close> and \<^verbatim>\<open>free_swap_slot\<close> are called from
  \<^verbatim>\<open>lazy_evict_page\<close> and \<^verbatim>\<open>lazy_handle_fault\<close> only (lines 427 and 155) and enter through
  them.
\<close>

inductive reachable_lazy :: "nat \<Rightarrow> uint64 proc \<Rightarrow> bool" where
  lazy_init: "reachable_lazy 0 (lazy_init p)"
| lazy_fault: "reachable_lazy n p \<Longrightarrow> reachable_lazy (Suc n) (snd (lazy_handle_fault e p a w))"
| lazy_evict: "reachable_lazy n p \<Longrightarrow> reachable_lazy (Suc n) (snd (lazy_evict_page e p))"
| lazy_create_swap: "reachable_lazy n p \<Longrightarrow> reachable_lazy (Suc n) (snd (create_swap_file_lazy e p))"
| lazy_delete_swap: "reachable_lazy n p \<Longrightarrow> reachable_lazy (Suc n) (delete_swap_file_lazy p)"
| lazy_free_proc: "reachable_lazy n p \<Longrightarrow> reachable_lazy (Suc n) (lazy_free p)"
| lazy_sbrk: "reachable_lazy n p \<Longrightarrow> sint t \<noteq> SBRK_EAGER e \<Longrightarrow> 0 \<le> sint k
     \<Longrightarrow> reachable_lazy (Suc n) (snd (sys_sbrk e g k t p))"
| lazy_exec_clear: "reachable_lazy n p \<Longrightarrow> reachable_lazy (Suc n) (kexec_clear p)"
| lazy_exec_page: "reachable_lazy n p \<Longrightarrow> reachable_lazy (Suc n) (kexec_page_lazy ph a p)"
| lazy_exec_layout: "reachable_lazy n p \<Longrightarrow> reachable_lazy (Suc n) (kexec_layout e ts te ds de sz0 p)"
| lazy_exec_stack: "reachable_lazy n p \<Longrightarrow> reachable_lazy (Suc n) (kexec_stack_lazy a p)"

text \<open>
  The swap slots of \<^verbatim>\<open>lazy.c\<close> are consistent when \<^verbatim>\<open>num_swapped_pages\<close> is the number of set
  bits, every \<^verbatim>\<open>SWAPPED\<close> descriptor holds a slot whose bit is set, and no two of them hold
  the same slot.
\<close>

definition slots_ok :: "uint64 proc \<Rightarrow> bool" where
  "slots_ok q =
     (num_swapped_pages q
        = int (card {s. s < MAX_SWAP_SLOTS \<and> slot_used_lazy (swap_slot_bitmap q) s})
      \<and> (\<forall>i<MAX_PROC_PAGES. state (pages q i) = SWAPPED \<longrightarrow>
             0 \<le> swap_slot (pages q i) \<and> swap_slot (pages q i) < int MAX_SWAP_SLOTS
             \<and> slot_used_lazy (swap_slot_bitmap q) (nat (swap_slot (pages q i))))
      \<and> (\<forall>i<MAX_PROC_PAGES. \<forall>j<MAX_PROC_PAGES.
            i \<noteq> j \<and> state (pages q i) = SWAPPED \<and> state (pages q j) = SWAPPED
            \<longrightarrow> swap_slot (pages q i) \<noteq> swap_slot (pages q j)))"

text \<open>
  States reached from the initialisation: the layout of a program with text at \<open>0x1000\<close>, data at
  \<open>0x3000\<close> and two pages above \<open>0x4000\<close>, then a fault on each of those pages, the second
  served with another frame. \<open>dp_swapped\<close> has its one page in slot 0 of the swap file.
\<close>

definition env1 :: env where
  "env1 = env0\<lparr>kalloc_1st := 0x87001000\<rparr>"

definition dp_boot :: "uint32 proc" where
  "dp_boot = kexec_layout env0 0x1000 0x3000 0x3000 0x4000 0x4000 (demand_paging_init proc0)"

definition dp_one_page :: "uint32 proc" where
  "dp_one_page = snd (handle_page_fault env0 dp_boot 0x4000 False)"

definition dp_two_pages :: "uint32 proc" where
  "dp_two_pages = snd (handle_page_fault env1 dp_one_page 0x5000 False)"

definition lazy_boot :: "uint64 proc" where
  "lazy_boot = kexec_layout env0 0x1000 0x3000 0x3000 0x4000 0x4000 (lazy_init proc0)"

definition lazy_one_page :: "uint64 proc" where
  "lazy_one_page = snd (lazy_handle_fault env0 lazy_boot 0x4000 True)"

definition lazy_two_pages :: "uint64 proc" where
  "lazy_two_pages = snd (lazy_handle_fault env1 lazy_one_page 0x5000 True)"

definition dp_swapped :: "uint32 proc" where
  "dp_swapped = dp_image\<lparr>num_pages := 1, next_fifo_seq := 1, num_swapped_pages := 1,
     swap_slot_bitmap := (\<lambda>_. 0)(0 := 1),
     pages := (pages dp_image)
       (0 := \<lparr>va = 0x4000, state = SWAPPED, is_dirty = True, seq = 0, swap_slot = 0\<rparr>)\<rparr>"

text \<open>The process of \<open>lazy_one_page\<close> after the eviction of its page, which goes to slot 0.\<close>

definition lazy_one_swapped :: "uint64 proc" where
  "lazy_one_swapped = snd (lazy_evict_page env0 lazy_one_page)"

text \<open>
  Where the counter ends: \<open>dp_last\<close> is the process of \<open>dp_boot\<close> with the counter at \<^verbatim>\<open>INT_MAX\<close>,
  \<open>dp_wrapped\<close> and \<open>lazy_wrapped\<close> are the process after \<open>2 ^ 31\<close> calls of \<^verbatim>\<open>exec\<close>, each of which
  enters its stack page at \<open>0x4000\<close> in the descriptor table.
\<close>

definition dp_last :: "uint32 proc" where
  "dp_last = dp_boot\<lparr>next_fifo_seq := INT_MAX\<rparr>"

definition dp_wrapped :: "uint32 proc" where
  "dp_wrapped = (kexec_stack_dp 0x4000 ^^ 2147483648) (demand_paging_init proc0)"

definition lazy_wrapped :: "uint64 proc" where
  "lazy_wrapped = (kexec_stack_lazy 0x4000 ^^ 2147483648) (lazy_init proc0)"

section \<open>The swap-slot allocator scans\<close>

lemma test_clear32: "(w AND push_bit b 1 = 0) = (\<not> bit (w::uint32) b)"
  by (simp add: bit_iff_and_push_bit_not_eq_0)

lemma alloc_scan_dp_found:
  "i \<le> k \<Longrightarrow> k < 1024 \<Longrightarrow> \<not> slot_used_dp bm k \<Longrightarrow> (\<forall>j. i \<le> j \<and> j < k \<longrightarrow> slot_used_dp bm j)
   \<Longrightarrow> alloc_scan_dp bm i = (int k, bm(k div 32 := bm (k div 32) OR push_bit (k mod 32) 1))"
proof (induction bm i rule: alloc_scan_dp.induct)
  case (1 bm i)
  show ?case
  proof (cases "i = k")
    case True
    with "1.prems" have z: "bm (k div 32) AND push_bit (k mod 32) 1 = 0"
      unfolding slot_used_dp_def test_clear32 by simp
    show ?thesis
      using True "1.prems"(2) z by (subst alloc_scan_dp.simps) (simp add: Let_def)
  next
    case False
    with "1.prems" have used: "slot_used_dp bm i" and lt: "i < k" by auto
    from lt "1.prems" have i1024: "i < 1024" by simp
    from used have nz: "bm (i div 32) AND push_bit (i mod 32) 1 \<noteq> 0"
      unfolding slot_used_dp_def test_clear32 by simp
    have "alloc_scan_dp bm (i + 1) = (int k, bm(k div 32 := bm (k div 32) OR push_bit (k mod 32) 1))"
      by (rule "1.IH" [OF i1024 refl refl nz]) (use lt "1.prems" in auto)
    then show ?thesis
      using i1024 nz by (subst alloc_scan_dp.simps) (simp add: Let_def)
  qed
qed

lemma alloc_scan_dp_full:
  "(\<forall>j. i \<le> j \<and> j < 1024 \<longrightarrow> slot_used_dp bm j) \<Longrightarrow> alloc_scan_dp bm i = (- 1, bm)"
proof (induction bm i rule: alloc_scan_dp.induct)
  case (1 bm i)
  show ?case
  proof (cases "i < 1024")
    case True
    with "1.prems" have "slot_used_dp bm i" by simp
    then have nz: "bm (i div 32) AND push_bit (i mod 32) 1 \<noteq> 0"
      unfolding slot_used_dp_def test_clear32 by simp
    have "alloc_scan_dp bm (i + 1) = (- 1, bm)"
      by (rule "1.IH" [OF True refl refl nz]) (use "1.prems" in auto)
    then show ?thesis
      using True nz by (subst alloc_scan_dp.simps) (simp add: Let_def)
  next
    case False
    then show ?thesis by (subst alloc_scan_dp.simps) simp
  qed
qed

lemma div_mod_same: "j div n = k div n \<Longrightarrow> j mod n = k mod n \<Longrightarrow> (j::nat) = k"
  by (metis div_mult_mod_eq)

lemma slot_used_dp_set:
  "slot_used_dp (bm(k div 32 := bm (k div 32) OR push_bit (k mod 32) 1)) j = (j = k \<or> slot_used_dp bm j)"
  by (auto simp: slot_used_dp_def bit_simps dest: div_mod_same)

lemma slot_used_dp_clear:
  "slot_used_dp (bm(k div 32 := bm (k div 32) AND NOT (push_bit (k mod 32) 1))) j = (j \<noteq> k \<and> slot_used_dp bm j)"
  by (auto simp: slot_used_dp_def bit_simps dest: div_mod_same)

lemma slot_used_lazy_set:
  "slot_used_lazy (bm(k div 64 := bm (k div 64) OR push_bit (k mod 64) 1)) j = (j = k \<or> slot_used_lazy bm j)"
  by (auto simp: slot_used_lazy_def bit_simps dest: div_mod_same)

lemma slot_used_lazy_clear:
  "slot_used_lazy (bm(k div 64 := bm (k div 64) AND NOT (push_bit (k mod 64) 1))) j = (j \<noteq> k \<and> slot_used_lazy bm j)"
  by (auto simp: slot_used_lazy_def bit_simps dest: div_mod_same)

lemma test_clear64: "(w AND push_bit b 1 = 0) = (\<not> bit (w::uint64) b)"
  by (simp add: bit_iff_and_push_bit_not_eq_0)

lemma alloc_scan_bits_found:
  "j \<le> b \<Longrightarrow> b < 64 \<Longrightarrow> i < 16 \<Longrightarrow> \<not> bit (bm i) b \<Longrightarrow> (\<forall>x. j \<le> x \<and> x < b \<longrightarrow> bit (bm i) x)
   \<Longrightarrow> alloc_scan_bits bm i j = Some b"
proof (induction bm i j rule: alloc_scan_bits.induct)
  case (1 bm i j)
  have small: "\<not> MAX_SWAP_SLOTS \<le> i * 64 + j" if "j < 64"
    using that "1.prems"(3) by (simp add: MAX_SWAP_SLOTS_def)
  show ?case
  proof (cases "j = b")
    case True
    from "1.prems" have z: "bm i AND push_bit b 1 = 0"
      unfolding test_clear64 by simp
    show ?thesis
      using True "1.prems"(2) z small by (subst alloc_scan_bits.simps) (simp add: Let_def)
  next
    case False
    with "1.prems" have used: "bit (bm i) j" and lt: "j < b" by auto
    from lt "1.prems" have j64: "j < 64" by simp
    from used have nz: "bm i AND push_bit j 1 \<noteq> 0"
      unfolding test_clear64 by simp
    have "alloc_scan_bits bm i (j + 1) = Some b"
      by (rule "1.IH" [OF j64 refl small [OF j64] nz]) (use lt "1.prems" in auto)
    then show ?thesis
      using j64 nz small by (subst alloc_scan_bits.simps) (simp add: Let_def)
  qed
qed

lemma alloc_scan_bits_none:
  "(\<forall>x. j \<le> x \<and> x < 64 \<longrightarrow> bit (bm i) x) \<Longrightarrow> alloc_scan_bits bm i j = None"
proof (induction bm i j rule: alloc_scan_bits.induct)
  case (1 bm i j)
  show ?case
  proof (cases "j < 64 \<and> \<not> MAX_SWAP_SLOTS \<le> i * 64 + j")
    case True
    with "1.prems" have "bit (bm i) j" by simp
    then have nz: "bm i AND push_bit j 1 \<noteq> 0"
      unfolding test_clear64 by simp
    have "alloc_scan_bits bm i (j + 1) = None"
      by (rule "1.IH" [OF _ refl _ nz]) (use True "1.prems" in auto)
    then show ?thesis
      using True nz by (subst alloc_scan_bits.simps) (simp add: Let_def)
  next
    case False
    then show ?thesis by (subst alloc_scan_bits.simps) (auto simp: Let_def)
  qed
qed

lemma alloc_scan_lazy_found:
  "i \<le> k div 64 \<Longrightarrow> k < 1024 \<Longrightarrow> \<not> slot_used_lazy bm k
   \<Longrightarrow> (\<forall>x. i * 64 \<le> x \<and> x < k \<longrightarrow> slot_used_lazy bm x)
   \<Longrightarrow> alloc_scan_lazy bm i = (int k, bm(k div 64 := bm (k div 64) OR push_bit (k mod 64) 1))"
proof (induction bm i rule: alloc_scan_lazy.induct)
  case (1 bm i)
  from "1.prems" have i16: "i < 16" by simp
  show ?case
  proof (cases "i = k div 64")
    case True
    have "\<forall>x. 0 \<le> x \<and> x < k mod 64 \<longrightarrow> bit (bm i) x"
    proof (intro allI impI)
      fix x assume x: "0 \<le> x \<and> x < k mod 64"
      have k: "k = i * 64 + k mod 64" using True by simp
      have x64: "x < 64" using x by (rule_tac less_trans [of _ "k mod 64"]) simp_all
      have "i * 64 + x < k" using x k by linarith
      then have "slot_used_lazy bm (i * 64 + x)" using "1.prems"(4) by simp
      then show "bit (bm i) x" using x64 by (simp add: slot_used_lazy_def)
    qed
    moreover have "\<not> bit (bm i) (k mod 64)"
      using "1.prems"(3) True by (simp add: slot_used_lazy_def)
    ultimately have "alloc_scan_bits bm i 0 = Some (k mod 64)"
      using i16 by (intro alloc_scan_bits_found) auto
    moreover have "i * 64 + k mod 64 = k" using True by simp
    ultimately show ?thesis
      using i16 True by (subst alloc_scan_lazy.simps) simp
  next
    case False
    with "1.prems" have lt: "i < k div 64" by simp
    have "\<forall>x. 0 \<le> x \<and> x < 64 \<longrightarrow> bit (bm i) x"
    proof (intro allI impI)
      fix x :: nat assume x: "0 \<le> x \<and> x < 64"
      have "(i + 1) * 64 \<le> k" using lt by (simp add: less_eq_div_iff_mult_less_eq Suc_le_eq)
      then have "i * 64 + x < k" using x by simp
      then have "slot_used_lazy bm (i * 64 + x)" using "1.prems" by simp
      then show "bit (bm i) x" using x by (simp add: slot_used_lazy_def)
    qed
    then have none: "alloc_scan_bits bm i 0 = None"
      by (rule alloc_scan_bits_none)
    have "alloc_scan_lazy bm (i + 1) = (int k, bm(k div 64 := bm (k div 64) OR push_bit (k mod 64) 1))"
    proof (rule "1.IH" [OF i16 none])
      show "i + 1 \<le> k div 64" using lt by simp
      show "\<forall>x. (i + 1) * 64 \<le> x \<and> x < k \<longrightarrow> slot_used_lazy bm x"
        using "1.prems" by simp
    qed (use "1.prems" in auto)
    then show ?thesis
      using i16 none by (subst alloc_scan_lazy.simps) simp
  qed
qed

lemma alloc_scan_lazy_full:
  "(\<forall>x. i * 64 \<le> x \<and> x < 1024 \<longrightarrow> slot_used_lazy bm x) \<Longrightarrow> alloc_scan_lazy bm i = (- 1, bm)"
proof (induction bm i rule: alloc_scan_lazy.induct)
  case (1 bm i)
  show ?case
  proof (cases "i < 16")
    case True
    have "\<forall>x. 0 \<le> x \<and> x < 64 \<longrightarrow> bit (bm i) x"
    proof (intro allI impI)
      fix x :: nat assume x: "0 \<le> x \<and> x < 64"
      have "i * 64 + x < 1024" using True x by simp
      then have "slot_used_lazy bm (i * 64 + x)" using "1.prems" by simp
      then show "bit (bm i) x" using x by (simp add: slot_used_lazy_def)
    qed
    then have none: "alloc_scan_bits bm i 0 = None"
      by (rule alloc_scan_bits_none)
    have "alloc_scan_lazy bm (i + 1) = (- 1, bm)"
      by (rule "1.IH" [OF True none]) (use "1.prems" in simp)
    then show ?thesis
      using True none by (subst alloc_scan_lazy.simps) simp
  next
    case False
    then show ?thesis by (subst alloc_scan_lazy.simps) simp
  qed
qed

lemma alloc_scan_dp_cases:
  "alloc_scan_dp bm i = (r, bm') \<Longrightarrow>
     (r = - 1 \<and> bm' = bm) \<or>
     (\<exists>k. r = int k \<and> i \<le> k \<and> k < 1024 \<and> \<not> slot_used_dp bm k
          \<and> (\<forall>j. i \<le> j \<and> j < k \<longrightarrow> slot_used_dp bm j)
          \<and> bm' = bm(k div 32 := bm (k div 32) OR push_bit (k mod 32) 1))"
proof -
  consider (full) "\<forall>j. i \<le> j \<and> j < 1024 \<longrightarrow> slot_used_dp bm j"
    | (hole) "\<exists>j. i \<le> j \<and> j < 1024 \<and> \<not> slot_used_dp bm j" by blast
  then show "alloc_scan_dp bm i = (r, bm') \<Longrightarrow> ?thesis"
  proof cases
    case full
    assume "alloc_scan_dp bm i = (r, bm')"
    with alloc_scan_dp_full [OF full] show ?thesis by simp
  next
    case hole
    assume a: "alloc_scan_dp bm i = (r, bm')"
    define k where "k = (LEAST j. i \<le> j \<and> j < 1024 \<and> \<not> slot_used_dp bm j)"
    from hole have k: "i \<le> k \<and> k < 1024 \<and> \<not> slot_used_dp bm k"
      unfolding k_def by (rule LeastI_ex)
    have least: "\<forall>j. i \<le> j \<and> j < k \<longrightarrow> slot_used_dp bm j"
    proof (intro allI impI)
      fix j assume j: "i \<le> j \<and> j < k"
      show "slot_used_dp bm j"
      proof (rule ccontr)
        assume "\<not> slot_used_dp bm j"
        with j k have "i \<le> j \<and> j < 1024 \<and> \<not> slot_used_dp bm j" by simp
        then have "k \<le> j" unfolding k_def by (rule Least_le)
        with j show False by simp
      qed
    qed
    from k least have "alloc_scan_dp bm i = (int k, bm(k div 32 := bm (k div 32) OR push_bit (k mod 32) 1))"
      by (intro alloc_scan_dp_found) auto
    with a k least show ?thesis by auto
  qed
qed

lemma alloc_swap_slot_dp_cases:
  "alloc_swap_slot_dp p = (r, p') \<Longrightarrow>
     (r = - 1 \<and> p' = p) \<or>
     (\<exists>k. r = int k \<and> k < 1024 \<and> \<not> slot_used_dp (swap_slot_bitmap p) k
          \<and> (\<forall>j<k. slot_used_dp (swap_slot_bitmap p) j)
          \<and> p' = p\<lparr>swap_slot_bitmap := (swap_slot_bitmap p)
                  (k div 32 := swap_slot_bitmap p (k div 32) OR push_bit (k mod 32) 1)\<rparr>)"
proof -
  assume a: "alloc_swap_slot_dp p = (r, p')"
  obtain r0 bm where s: "alloc_scan_dp (swap_slot_bitmap p) 0 = (r0, bm)" by fastforce
  with a have r: "r = r0" and p': "p' = p\<lparr>swap_slot_bitmap := bm\<rparr>"
    by (simp_all add: alloc_swap_slot_dp_def)
  from alloc_scan_dp_cases [OF s] show ?thesis
  proof
    assume "r0 = - 1 \<and> bm = swap_slot_bitmap p"
    with r p' show ?thesis by simp
  next
    assume "\<exists>k. r0 = int k \<and> 0 \<le> k \<and> k < 1024 \<and> \<not> slot_used_dp (swap_slot_bitmap p) k
          \<and> (\<forall>j. 0 \<le> j \<and> j < k \<longrightarrow> slot_used_dp (swap_slot_bitmap p) j)
          \<and> bm = (swap_slot_bitmap p)(k div 32 := swap_slot_bitmap p (k div 32) OR push_bit (k mod 32) 1)"
    with r p' show ?thesis by auto
  qed
qed

lemma set_then_clear_dp:
  "\<not> slot_used_dp bm k \<Longrightarrow>
   (bm(k div 32 := bm (k div 32) OR push_bit (k mod 32) 1))
     (k div 32 := (bm(k div 32 := bm (k div 32) OR push_bit (k mod 32) 1)) (k div 32)
                    AND NOT (push_bit (k mod 32) 1)) = bm"
proof -
  assume a: "\<not> slot_used_dp bm k"
  have "(bm (k div 32) OR push_bit (k mod 32) 1) AND NOT (push_bit (k mod 32) 1) = bm (k div 32)"
  proof (rule bit_eqI)
    fix n
    show "bit ((bm (k div 32) OR push_bit (k mod 32) 1) AND NOT (push_bit (k mod 32) 1)) n
        = bit (bm (k div 32)) n"
      using a by (auto simp: bit_simps slot_used_dp_def dest: bit_imp_le_length)
  qed
  then show ?thesis by (simp del: push_bit_eq_mult add: fun_upd_idem_iff)
qed

lemma get_page_info_dp_found:
  "find_page (pages p) (PGROUNDDOWN v) 0 (num_pages p) = Some i \<Longrightarrow> get_page_info_dp p v = (Some i, p)"
  by (simp add: get_page_info_dp_def)

lemma swap_out_page_short:
  assumes sf: "swapfile p = Some ip"
    and fp: "find_page (pages p) (PGROUNDDOWN v) 0 (num_pages p) = Some i"
    and al: "fst (alloc_swap_slot_dp p) = int k"
    and sh: "writei_ret e \<noteq> int PGSIZE"
  shows "swap_out_page e p v pa =
           (- 1, p\<lparr>fs_calls := fs_calls p @ [Begin_op, Ilock ip, Iunlock ip, End_op],
                     disk := disk (snd (writei e ip pa (k * PGSIZE) PGSIZE p))\<rparr>)"
    and "k < 1024" and "\<not> slot_used_dp (swap_slot_bitmap p) k"
proof -
  obtain r p2 where a: "alloc_swap_slot_dp p = (r, p2)" by fastforce
  with al have r: "r = int k" by simp
  from alloc_swap_slot_dp_cases [OF a] r
  have k: "k < 1024 \<and> \<not> slot_used_dp (swap_slot_bitmap p) k
          \<and> p2 = p\<lparr>swap_slot_bitmap := (swap_slot_bitmap p)
                  (k div 32 := swap_slot_bitmap p (k div 32) OR push_bit (k mod 32) 1)\<rparr>"
    by auto
  then show "k < 1024" and "\<not> slot_used_dp (swap_slot_bitmap p) k" by simp_all
  from k have p2: "p2 = p\<lparr>swap_slot_bitmap := (swap_slot_bitmap p)
                  (k div 32 := swap_slot_bitmap p (k div 32) OR push_bit (k mod 32) 1)\<rparr>" by simp
  have clr: "(swap_slot_bitmap p)(k div 32 := (swap_slot_bitmap p (k div 32) OR push_bit (k mod 32) 1)
                    AND NOT (push_bit (k mod 32) 1)) = swap_slot_bitmap p"
    using set_then_clear_dp [of "swap_slot_bitmap p" k] k by simp
  show "swap_out_page e p v pa =
           (- 1, p\<lparr>fs_calls := fs_calls p @ [Begin_op, Ilock ip, Iunlock ip, End_op],
                     disk := disk (snd (writei e ip pa (k * PGSIZE) PGSIZE p))\<rparr>)"
    using sf sh k clr
    by (simp add: swap_out_page_def get_page_info_dp_found [OF fp] a r p2 writei_def fs_def
        free_swap_slot_dp_def Let_def del: push_bit_eq_mult cong: if_cong)
qed

lemma alloc_swap_slot_dp_printf:
  "fst (alloc_swap_slot_dp (printf ev p)) = fst (alloc_swap_slot_dp p)"
  by (simp add: alloc_swap_slot_dp_def printf_def split_def Let_def)

lemma alloc_scan_lazy_cases:
  "alloc_scan_lazy bm 0 = (r, bm') \<Longrightarrow>
     (r = - 1 \<and> bm' = bm \<and> (\<forall>j<1024. slot_used_lazy bm j)) \<or>
     (\<exists>k. r = int k \<and> k < 1024 \<and> \<not> slot_used_lazy bm k
          \<and> (\<forall>j<k. slot_used_lazy bm j)
          \<and> bm' = bm(k div 64 := bm (k div 64) OR push_bit (k mod 64) 1))"
proof -
  assume a: "alloc_scan_lazy bm 0 = (r, bm')"
  consider (full) "\<forall>j. 0 * 64 \<le> j \<and> j < 1024 \<longrightarrow> slot_used_lazy bm j"
    | (hole) "\<exists>j. j < 1024 \<and> \<not> slot_used_lazy bm j" by auto
  then show ?thesis
  proof cases
    case full
    with a alloc_scan_lazy_full [OF full] show ?thesis by simp
  next
    case hole
    define k where "k = (LEAST j. j < 1024 \<and> \<not> slot_used_lazy bm j)"
    from hole have k: "k < 1024 \<and> \<not> slot_used_lazy bm k"
      unfolding k_def by (rule LeastI_ex)
    have least: "slot_used_lazy bm j" if "j < k" for j
    proof (rule ccontr)
      assume "\<not> slot_used_lazy bm j"
      with that k have "j < 1024 \<and> \<not> slot_used_lazy bm j" by simp
      then have "k \<le> j" unfolding k_def by (rule Least_le)
      with that show False by simp
    qed
    from k least have "alloc_scan_lazy bm 0 = (int k, bm(k div 64 := bm (k div 64) OR push_bit (k mod 64) 1))"
      by (intro alloc_scan_lazy_found) auto
    with a k least show ?thesis by auto
  qed
qed

lemma alloc_swap_slot_lazy_cases:
  "alloc_swap_slot_lazy p = (r, p') \<Longrightarrow>
     (r = - 1 \<and> p' = p) \<or>
     (\<exists>k. r = int k \<and> k < 1024 \<and> \<not> slot_used_lazy (swap_slot_bitmap p) k
          \<and> (\<forall>j<k. slot_used_lazy (swap_slot_bitmap p) j)
          \<and> p' = p\<lparr>swap_slot_bitmap := (swap_slot_bitmap p)
                  (k div 64 := swap_slot_bitmap p (k div 64) OR push_bit (k mod 64) 1)\<rparr>)"
proof -
  assume a: "alloc_swap_slot_lazy p = (r, p')"
  show ?thesis
  proof (cases "int MAX_SWAP_SLOTS \<le> num_swapped_pages p")
    case True
    with a show ?thesis by (simp add: alloc_swap_slot_lazy_def)
  next
    case False
    obtain r0 bm where s: "alloc_scan_lazy (swap_slot_bitmap p) 0 = (r0, bm)" by fastforce
    with a False have r: "r = r0" and p': "p' = p\<lparr>swap_slot_bitmap := bm\<rparr>"
      by (simp_all add: alloc_swap_slot_lazy_def)
    from alloc_scan_lazy_cases [OF s] r p' show ?thesis by auto
  qed
qed

lemma alloc_swap_slot_lazy_fst_cong:
  "swap_slot_bitmap p' = swap_slot_bitmap p \<Longrightarrow> num_swapped_pages p' = num_swapped_pages p
   \<Longrightarrow> fst (alloc_swap_slot_lazy p') = fst (alloc_swap_slot_lazy p)"
  by (simp add: alloc_swap_slot_lazy_def split_def Let_def)

lemma alloc_swap_slot_lazy_slot:
  assumes "fst (alloc_swap_slot_lazy p) = int k"
  shows "alloc_swap_slot_lazy p = (int k, p\<lparr>swap_slot_bitmap := (swap_slot_bitmap p)
                  (k div 64 := swap_slot_bitmap p (k div 64) OR push_bit (k mod 64) 1)\<rparr>)"
    and "k < 1024" and "\<not> slot_used_lazy (swap_slot_bitmap p) k"
proof -
  obtain r p' where a: "alloc_swap_slot_lazy p = (r, p')" by fastforce
  with assms have r: "r = int k" by simp
  from alloc_swap_slot_lazy_cases [OF a] r
  have "k < 1024 \<and> \<not> slot_used_lazy (swap_slot_bitmap p) k
      \<and> p' = p\<lparr>swap_slot_bitmap := (swap_slot_bitmap p)
                  (k div 64 := swap_slot_bitmap p (k div 64) OR push_bit (k mod 64) 1)\<rparr>"
    by auto
  with a r show "alloc_swap_slot_lazy p = (int k, p\<lparr>swap_slot_bitmap := (swap_slot_bitmap p)
                  (k div 64 := swap_slot_bitmap p (k div 64) OR push_bit (k mod 64) 1)\<rparr>)"
    and "k < 1024" and "\<not> slot_used_lazy (swap_slot_bitmap p) k" by simp_all
qed

lemma alloc_swap_slot_dp_slot:
  assumes "fst (alloc_swap_slot_dp p) = int k"
  shows "alloc_swap_slot_dp p = (int k, p\<lparr>swap_slot_bitmap := (swap_slot_bitmap p)
                  (k div 32 := swap_slot_bitmap p (k div 32) OR push_bit (k mod 32) 1)\<rparr>)"
    and "k < 1024" and "\<not> slot_used_dp (swap_slot_bitmap p) k"
proof -
  obtain r p' where a: "alloc_swap_slot_dp p = (r, p')" by fastforce
  with assms have r: "r = int k" by simp
  from alloc_swap_slot_dp_cases [OF a] r
  have "k < 1024 \<and> \<not> slot_used_dp (swap_slot_bitmap p) k
      \<and> p' = p\<lparr>swap_slot_bitmap := (swap_slot_bitmap p)
                  (k div 32 := swap_slot_bitmap p (k div 32) OR push_bit (k mod 32) 1)\<rparr>"
    by auto
  with a r show "alloc_swap_slot_dp p = (int k, p\<lparr>swap_slot_bitmap := (swap_slot_bitmap p)
                  (k div 32 := swap_slot_bitmap p (k div 32) OR push_bit (k mod 32) 1)\<rparr>)"
    and "k < 1024" and "\<not> slot_used_dp (swap_slot_bitmap p) k" by simp_all
qed

section \<open>Tearing down mappings\<close>

lemma uvmunmap_0: "uvmunmap a 0 f p = p"
  by (simp add: uvmunmap_def)

lemma uvmunmap_Suc:
  "uvmunmap a (Suc n) f p = unmap_page f (a + of_nat (n * PGSIZE)) (uvmunmap a n f p)"
  by (simp add: uvmunmap_def)

lemma unmap_page_frame:
  "unmap_page f a p = p\<lparr>pagetable := pagetable (unmap_page f a p), kfreed := kfreed (unmap_page f a p)\<rparr>"
  by (simp add: unmap_page_def clear_pte_def kfree_def split: option.splits)

lemma uvmunmap_frame:
  "uvmunmap a n f p = p\<lparr>pagetable := pagetable (uvmunmap a n f p), kfreed := kfreed (uvmunmap a n f p)\<rparr>"
proof (induction n)
  case 0
  show ?case by (simp add: uvmunmap_0)
next
  case (Suc n)
  show ?case
    by (subst (1) uvmunmap_Suc, subst unmap_page_frame, subst (1) Suc.IH) (simp add: uvmunmap_Suc)
qed

lemma unmap_page_pagetable:
  "pagetable (unmap_page f a p) x = (if x = PGROUNDDOWN a then None else pagetable p x)"
  by (auto simp: unmap_page_def clear_pte_def kfree_def walk_def split: option.splits)

lemma uvmunmap_pagetable:
  "pagetable (uvmunmap a n f p) x =
     (if \<exists>i<n. x = PGROUNDDOWN (a + of_nat (i * PGSIZE)) then None else pagetable p x)"
proof (induction n)
  case 0
  show ?case by (simp add: uvmunmap_0)
next
  case (Suc n)
  show ?case
    by (simp add: uvmunmap_Suc unmap_page_pagetable Suc.IH less_Suc_eq) blast
qed

lemma uvmunmap_unmaps_first:
  "0 < n \<Longrightarrow> pagetable (uvmunmap a n f p) (PGROUNDDOWN a) = None"
proof -
  assume "0 < n"
  then have "\<exists>i<n. PGROUNDDOWN a = PGROUNDDOWN (a + of_nat (i * PGSIZE))"
    by (intro exI [of _ 0]) simp
  then show ?thesis by (simp only: uvmunmap_pagetable if_True)
qed

lemma unmap_page_kfreed:
  "kfreed (unmap_page f a p) =
     kfreed p @ (case walk p a of None \<Rightarrow> [] | Some e \<Rightarrow> if f then [frame e] else [])"
  by (simp add: unmap_page_def clear_pte_def kfree_def split: option.splits)

lemma uvmunmap_kfreed_prefix:
  "\<exists>rest. kfreed (uvmunmap a n f p) = kfreed p @ rest"
proof (induction n)
  case 0
  show ?case by (simp add: uvmunmap_0)
next
  case (Suc n)
  then obtain rest where "kfreed (uvmunmap a n f p) = kfreed p @ rest" by blast
  then show ?case by (simp add: uvmunmap_Suc unmap_page_kfreed)
qed

lemma uvmunmap_frees_first:
  "0 < n \<Longrightarrow> walk p a = Some e \<Longrightarrow> \<exists>rest. kfreed (uvmunmap a n True p) = kfreed p @ frame e # rest"
proof (induction n)
  case 0
  then show ?case by simp
next
  case (Suc n)
  show ?case
  proof (cases n)
    case 0
    with Suc.prems show ?thesis
      by (simp add: uvmunmap_Suc uvmunmap_0 unmap_page_kfreed)
  next
    case (Suc m)
    with Suc.IH Suc.prems obtain rest where "kfreed (uvmunmap a n True p) = kfreed p @ frame e # rest"
      by auto
    then show ?thesis by (simp add: uvmunmap_Suc unmap_page_kfreed)
  qed
qed

lemma uvmunmap_fields [simp]:
  "pages (uvmunmap a n f p) = pages p"
  "next_fifo_seq (uvmunmap a n f p) = next_fifo_seq p"
  "swap_slot_bitmap (uvmunmap a n f p) = swap_slot_bitmap p"
  "num_swapped_pages (uvmunmap a n f p) = num_swapped_pages p"
  "swapfile_inode (uvmunmap a n f p) = swapfile_inode p"
  "exec_inode (uvmunmap a n f p) = exec_inode p"
  "console (uvmunmap a n f p) = console p"
  "physmem (uvmunmap a n f p) = physmem p"
  "disk (uvmunmap a n f p) = disk p"
  "killed (uvmunmap a n f p) = killed p"
  "text_start (uvmunmap a n f p) = text_start p"
  "text_end (uvmunmap a n f p) = text_end p"
  "data_start (uvmunmap a n f p) = data_start p"
  "data_end (uvmunmap a n f p) = data_end p"
  "heap_start (uvmunmap a n f p) = heap_start p"
  "stack_top (uvmunmap a n f p) = stack_top p"
  "sz (uvmunmap a n f p) = sz p"
  "exec_off (uvmunmap a n f p) = exec_off p"
  "exec_len (uvmunmap a n f p) = exec_len p"
  "fs_calls (uvmunmap a n f p) = fs_calls p"
  "num_pages (uvmunmap a n f p) = num_pages p"
  "pid (uvmunmap a n f p) = pid p"
  by (subst uvmunmap_frame, simp)+

section \<open>Evaluation on the concrete states\<close>

lemma PGROUNDDOWN_numeral [simp]:
  "PGROUNDDOWN 0x4000 = 0x4000" "PGROUNDDOWN 0x1000 = 0x1000" "PGROUNDDOWN 0x5000 = 0x5000"
  by (simp_all add: PGROUNDDOWN_def PGSIZE_def)

lemma dp_resident_find_heap: "find_page (pages dp_resident) 0x4000 0 (num_pages dp_resident) = Some 0"
  by (simp add: dp_resident_def dp_image_def proc0_def find_page.simps)

lemma dp_resident_victim: "find_fifo_victim dp_resident = 0x4000"
  by (simp add: find_fifo_victim_def dp_resident_def dp_image_def proc0_def fifo_scan.simps)

lemma dp_resident_alloc: "alloc_swap_slot_dp dp_resident = (0, dp_resident\<lparr>swap_slot_bitmap := (\<lambda>_. 0)(0 := 1)\<rparr>)"
  by (simp add: alloc_swap_slot_dp_def dp_resident_def dp_image_def proc0_def alloc_scan_dp.simps)

lemma dp_resident_fault_short: "fst (handle_page_fault env_short dp_resident 0x5000 True) = - 1"
  by (simp add: handle_page_fault_def get_page_info_dp_def find_page.simps fault_cause_dp_def
      fault_frame_dp_def find_fifo_victim_def fifo_scan.simps evict_page_def swap_out_page_def
      alloc_swap_slot_dp_def alloc_scan_dp.simps walk_def writei_def free_swap_slot_dp_def
      printf_def fs_def kfree_def clear_pte_def
      dp_resident_def dp_image_def proc0_def env_short_def env0_def MAX_PROC_PAGES_def PGSIZE_def Let_def)

lemmas lazy_eval = lazy_handle_fault_def ismapped_def walk_def get_page_info_lazy_def
  fault_cause_lazy_def fault_frame_lazy_def memset_page_def load_exec_lazy_def pte_flags_lazy_def
  mappages_def lazy_swap_in_def readi_def writei_def free_swap_slot_lazy_def
  lazy_evict_page_def lazy_victim_scan.simps to_uint32_def create_swap_file_lazy_def
  alloc_swap_slot_lazy_def alloc_scan_lazy.simps alloc_scan_bits.simps walkaddr_def
  printf_def fs_def kfree_def setkilled_def int_incr_def INT_MAX_def
  MAX_PROC_PAGES_def MAX_SWAP_SLOTS_def PGSIZE_def Let_def split_def

lemma lazy_image_write_fault: "fst (lazy_handle_fault env0 lazy_image 0x4000 True) = 0"
  by (simp add: lazy_eval lazy_image_def proc0_def env0_def)

lemma lazy_written_page: "pages lazy_written 4 = \<lparr>va = 0x4000, state = RESIDENT, is_dirty = True, seq = 0, swap_slot = - 1\<rparr>"
  "pagetable lazy_written 0x4000 = Some \<lparr>frame = 0x87000000, perms = {PTE_U, PTE_R, PTE_W}\<rparr>"
  "physmem lazy_written 0x87000000 0 = 0x51"
  by (simp_all add: lazy_written_def lazy_eval lazy_image_def proc0_def env0_def)

lemma lazy_written_evict: "fst (lazy_evict_page env0 lazy_written) = 1"
  by (simp add: lazy_written_def lazy_eval lazy_image_def proc0_def env0_def)

lemma lazy_evicted_page: "pages lazy_evicted 4 = \<lparr>va = 0x4000, state = SWAPPED, is_dirty = True, seq = 0, swap_slot = 0\<rparr>"
  "disk lazy_evicted 30 0 = 0x51"
  "slot_used_lazy (swap_slot_bitmap lazy_evicted) 0"
  by (simp_all add: lazy_evicted_def lazy_written_def lazy_eval lazy_image_def proc0_def env0_def slot_used_lazy_def)

lemmas dp_eval = handle_page_fault_def get_page_info_dp_def find_page.simps fault_cause_dp_def
  fault_frame_dp_def fault_fill_dp_def make_resident_dp_def find_fifo_victim_def fifo_scan.simps
  evict_page_def swap_out_page_def swap_in_page_def
  alloc_swap_slot_dp_def alloc_scan_dp.simps walk_def writei_def readi_def free_swap_slot_dp_def
  memset_page_def mappages_def clear_pte_def
  printf_def fs_def kfree_def int_incr_def INT_MAX_def MAX_PROC_PAGES_def PGSIZE_def Let_def split_def

lemma PGROUNDDOWN_numeral2 [simp]:
  "PGROUNDDOWN 0x3000 = 0x3000" "PGROUNDDOWN 0 = 0" "PGROUNDDOWN 0x2000 = 0x2000"
  by (simp_all add: PGROUNDDOWN_def PGSIZE_def)

lemma PGROUNDDOWN_numeral3 [simp]:
  "PGROUNDDOWN 0x20123 = 0x20000" "PGROUNDDOWN 0x20000 = 0x20000" "PGROUNDDOWN 0x10000 = 0x10000"
  by (simp_all add: PGROUNDDOWN_def PGSIZE_def)

text \<open>The index \<^verbatim>\<open>(va / PGSIZE) % MAX_PROC_PAGES\<close> of \<^verbatim>\<open>lazy.c\<close> lies in the descriptor table.\<close>

lemma page_idx_bound:
  "unat ((a div of_nat PGSIZE) mod of_nat MAX_PROC_PAGES :: uint64) < MAX_PROC_PAGES"
proof -
  have "(a div of_nat PGSIZE) mod (128 :: uint64) < 128"
    by (rule word_mod_less_divisor) simp
  then have "unat ((a div of_nat PGSIZE) mod (128 :: uint64)) < unat (128 :: uint64)"
    by (simp only: word_less_nat_alt)
  then show ?thesis by (simp add: MAX_PROC_PAGES_def)
qed

section \<open>Eviction\<close>

lemma evict_page_clean:
  assumes fp: "find_page (pages p) (PGROUNDDOWN v) 0 (num_pages p) = Some i"
    and st: "state (pages p i) = RESIDENT"
    and wk: "walk p v = Some pte"
    and cl: "\<not> is_dirty (pages p i)"
  shows "evict_page e p v =
     (0, p\<lparr>console := console p @ [VICTIM v (seq (pages p i)), EVICT_clean v, DISCARD v],
            pages := (pages p)(i := (pages p i)\<lparr>state := UNMAPPED\<rparr>),
            pagetable := (pagetable p)(PGROUNDDOWN v := None),
            kfreed := kfreed p @ [frame pte]\<rparr>)"
  using st wk cl
  by (simp add: evict_page_def get_page_info_dp_found [OF fp] Let_def walk_def printf_def
      kfree_def clear_pte_def)

lemma swap_out_page_full:
  assumes sf: "swapfile p = Some ip"
    and fp: "find_page (pages p) (PGROUNDDOWN v) 0 (num_pages p) = Some i"
    and al: "fst (alloc_swap_slot_dp p) = int k"
    and wr: "writei_ret e = int PGSIZE"
  shows "swap_out_page e p v pa =
     (int k, p\<lparr>swap_slot_bitmap := (swap_slot_bitmap p)
                  (k div 32 := swap_slot_bitmap p (k div 32) OR push_bit (k mod 32) 1),
               fs_calls := fs_calls p @ [Begin_op, Ilock ip, Iunlock ip, End_op],
               disk := (disk p)(ip := (\<lambda>j. if k * PGSIZE \<le> j \<and> j - k * PGSIZE < PGSIZE
                                         then physmem p pa (j - k * PGSIZE) else disk p ip j)),
               pages := (pages p)(i := (pages p i)\<lparr>swap_slot := int k, state := SWAPPED\<rparr>),
               num_swapped_pages := num_swapped_pages p + 1,
               console := console p @ [SWAPOUT (PGROUNDDOWN v) (int k)]\<rparr>)"
proof -
  note a = alloc_swap_slot_dp_slot [OF al]
  have eq: "(\<lambda>j. if k * PGSIZE \<le> j \<and> int (j - k * PGSIZE) < int PGSIZE \<and> j - k * PGSIZE < PGSIZE
                then physmem p pa (j - k * PGSIZE) else disk p ip j)
          = (\<lambda>j. if k * PGSIZE \<le> j \<and> j - k * PGSIZE < PGSIZE
                then physmem p pa (j - k * PGSIZE) else disk p ip j)"
    by (rule ext) simp
  show ?thesis
    using sf wr
    by (simp add: swap_out_page_def get_page_info_dp_found [OF fp] a(1) writei_def fs_def
        printf_def Let_def eq del: push_bit_eq_mult cong: if_cong)
qed

lemma evict_page_dirty:
  assumes fp: "find_page (pages p) (PGROUNDDOWN v) 0 (num_pages p) = Some i"
    and st: "state (pages p i) = RESIDENT"
    and wk: "walk p v = Some pte"
    and di: "is_dirty (pages p i)"
    and sf: "swapfile p = Some ip"
    and al: "fst (alloc_swap_slot_dp p) = int k"
    and wr: "writei_ret e = int PGSIZE"
  shows "evict_page e p v =
     (0, p\<lparr>swap_slot_bitmap := (swap_slot_bitmap p)
                  (k div 32 := swap_slot_bitmap p (k div 32) OR push_bit (k mod 32) 1),
            fs_calls := fs_calls p @ [Begin_op, Ilock ip, Iunlock ip, End_op],
            disk := (disk p)(ip := (\<lambda>j. if k * PGSIZE \<le> j \<and> j - k * PGSIZE < PGSIZE
                                      then physmem p (frame pte) (j - k * PGSIZE) else disk p ip j)),
            pages := (pages p)(i := (pages p i)\<lparr>swap_slot := int k, state := SWAPPED\<rparr>),
            num_swapped_pages := num_swapped_pages p + 1,
            console := console p @ [VICTIM v (seq (pages p i)), EVICT_dirty v,
                                    SWAPOUT (PGROUNDDOWN v) (int k)],
            pagetable := (pagetable p)(PGROUNDDOWN v := None),
            kfreed := kfreed p @ [frame pte]\<rparr>)"
proof -
  let ?q = "printf (EVICT_dirty v) (printf (VICTIM v (seq (pages p i))) p)"
  have q1: "swapfile ?q = Some ip" using sf by (simp add: printf_def)
  have q2: "find_page (pages ?q) (PGROUNDDOWN v) 0 (num_pages ?q) = Some i"
    using fp by (simp add: printf_def)
  have q3: "fst (alloc_swap_slot_dp ?q) = int k"
    using al by (simp add: alloc_swap_slot_dp_printf)
  note t = swap_out_page_full [OF q1 q2 q3 wr, of "frame pte"]
  show ?thesis
    using st wk di
    by (simp add: evict_page_def get_page_info_dp_found [OF fp] Let_def t)
      (simp add: printf_def kfree_def clear_pte_def walk_def del: push_bit_eq_mult cong: if_cong)
qed

lemma lazy_evict_discard:
  assumes vs: "lazy_victim_scan (pages q) 0 None 4294967295 = Some v"
    and cl: "\<not> is_dirty (pages q v)"
    and tx: "text_start q \<le> va (pages q v) \<and> va (pages q v) < text_end q"
  shows "lazy_evict_page e q =
     (1, printf (EVICT (va (pages q v)))
           (uvmunmap (va (pages q v)) PGSIZE True
              (q\<lparr>console := console q @ [VICTIM (va (pages q v)) (seq (pages q v)),
                                          DISCARD (va (pages q v))],
                 pages := (pages q)(v := (pages q v)\<lparr>state := UNMAPPED, swap_slot := - 1\<rparr>)\<rparr>)))"
  using cl tx
  by (simp add: lazy_evict_page_def vs Let_def printf_def)

lemma lazy_evict_swap:
  assumes vs: "lazy_victim_scan (pages q) 0 None 4294967295 = Some v"
    and sw: "is_dirty (pages q v) \<or> \<not> (text_start q \<le> va (pages q v) \<and> va (pages q v) < text_end q)"
    and sf: "swapfile_inode q = Some ip \<or> (swapfile_inode q = None \<and> create_ret e = Some ip)"
    and al: "fst (alloc_swap_slot_lazy q) = int k"
    and wk: "walk q (va (pages q v)) = Some pte" and us: "PTE_U \<in> perms pte" and nz: "frame pte \<noteq> 0"
  shows "fst (lazy_evict_page e q) = 1"
    and "pages (snd (lazy_evict_page e q)) = (pages q)(v := (pages q v)\<lparr>state := SWAPPED, swap_slot := int k\<rparr>)"
    and "swap_slot_bitmap (snd (lazy_evict_page e q)) = (swap_slot_bitmap q)
            (k div 64 := swap_slot_bitmap q (k div 64) OR push_bit (k mod 64) 1)"
    and "num_swapped_pages (snd (lazy_evict_page e q)) = num_swapped_pages q + 1"
    and "swapfile_inode (snd (lazy_evict_page e q)) = Some ip"
    and "disk (snd (lazy_evict_page e q)) =
            (disk q)(ip := (\<lambda>j. if k * PGSIZE \<le> j \<and> int (j - k * PGSIZE) < writei_ret e
                                         \<and> j - k * PGSIZE < PGSIZE
                                      then physmem q (frame pte) (j - k * PGSIZE) else disk q ip j))"
    and "pagetable (snd (lazy_evict_page e q)) (PGROUNDDOWN (va (pages q v))) = None"
    and "\<exists>rest. kfreed (snd (lazy_evict_page e q)) = kfreed q @ frame pte # rest"
    and "next_fifo_seq (snd (lazy_evict_page e q)) = next_fifo_seq q"
proof -
  let ?a = "va (pages q v)"
  let ?q1 = "printf (VICTIM ?a (seq (pages q v))) q"
  have cond: "is_dirty (pages ?q1 v) \<or> \<not> (text_start ?q1 \<le> ?a \<and> ?a < text_end ?q1)"
    using sw by (simp add: printf_def)
  obtain c q2 where c: "(if swapfile_inode ?q1 = None then create_swap_file_lazy e ?q1 else (0, ?q1)) = (c, q2)"
    by fastforce
  from sf c have c0: "c = 0"
    by (auto simp: create_swap_file_lazy_def printf_def Let_def split: if_splits)
  from sf c have q2: "swapfile_inode q2 = Some ip" "pages q2 = pages q"
    "swap_slot_bitmap q2 = swap_slot_bitmap q" "num_swapped_pages q2 = num_swapped_pages q"
    "disk q2 = disk q" "pagetable q2 = pagetable q" "kfreed q2 = kfreed q" "physmem q2 = physmem q"
    "next_fifo_seq q2 = next_fifo_seq q" "killed q2 = killed q"
    by (auto simp: create_swap_file_lazy_def printf_def fs_def Let_def split: if_splits)
  have al2: "fst (alloc_swap_slot_lazy q2) = int k"
    using al alloc_swap_slot_lazy_fst_cong [of q2 q] q2 by simp
  note a = alloc_swap_slot_lazy_slot [OF al2]
  have wa: "walkaddr (q2\<lparr>swap_slot_bitmap := B\<rparr>) ?a = frame pte" for B
    using wk us q2 by (simp add: walkaddr_def walk_def)
  define Y where "Y = q2\<lparr>swap_slot_bitmap := (swap_slot_bitmap q)
                    (k div 64 := swap_slot_bitmap q (k div 64) OR push_bit (k mod 64) 1),
                 disk := (disk q)(ip := (\<lambda>j. if k * PGSIZE \<le> j \<and> int (j - k * PGSIZE) < writei_ret e
                                         \<and> j - k * PGSIZE < PGSIZE
                                      then physmem q (frame pte) (j - k * PGSIZE) else disk q ip j)),
                 fs_calls := fs_calls q2 @ [Ilock ip, Iunlock ip],
                 console := console q2 @ [SWAPOUT ?a (int k)],
                 pages := (pages q)(v := (pages q v)\<lparr>state := SWAPPED, swap_slot := int k\<rparr>),
                 num_swapped_pages := num_swapped_pages q + 1\<rparr>"
  have eq: "lazy_evict_page e q = (1, printf (EVICT ?a) (uvmunmap ?a PGSIZE True Y))"
    apply (simp only: lazy_evict_page_def vs option.case Let_def cond if_True c prod.case c0)
    using nz q2
    apply (simp add: a(1) wa Y_def q2 printf_def fs_def writei_def del: push_bit_eq_mult cong: if_cong)
    done
  have wY: "walk Y ?a = Some pte" using wk q2 by (simp add: Y_def walk_def)
  show "fst (lazy_evict_page e q) = 1" by (simp add: eq)
  show "pages (snd (lazy_evict_page e q)) = (pages q)(v := (pages q v)\<lparr>state := SWAPPED, swap_slot := int k\<rparr>)"
    by (simp add: eq printf_def Y_def)
  show "swap_slot_bitmap (snd (lazy_evict_page e q)) = (swap_slot_bitmap q)
            (k div 64 := swap_slot_bitmap q (k div 64) OR push_bit (k mod 64) 1)"
    by (simp add: eq printf_def Y_def del: push_bit_eq_mult)
  show "num_swapped_pages (snd (lazy_evict_page e q)) = num_swapped_pages q + 1"
    by (simp add: eq printf_def Y_def)
  show "swapfile_inode (snd (lazy_evict_page e q)) = Some ip"
    by (simp add: eq printf_def Y_def q2)
  show "disk (snd (lazy_evict_page e q)) =
            (disk q)(ip := (\<lambda>j. if k * PGSIZE \<le> j \<and> int (j - k * PGSIZE) < writei_ret e
                                         \<and> j - k * PGSIZE < PGSIZE
                                      then physmem q (frame pte) (j - k * PGSIZE) else disk q ip j))"
    by (simp add: eq printf_def Y_def)
  have pos: "0 < PGSIZE" by (simp add: PGSIZE_def)
  show "pagetable (snd (lazy_evict_page e q)) (PGROUNDDOWN ?a) = None"
    using uvmunmap_unmaps_first [OF pos, of ?a True Y] by (simp add: eq printf_def)
  from uvmunmap_frees_first [OF pos wY] obtain rest where
    "kfreed (uvmunmap ?a PGSIZE True Y) = kfreed Y @ frame pte # rest" by blast
  then show "\<exists>rest. kfreed (snd (lazy_evict_page e q)) = kfreed q @ frame pte # rest"
    by (simp add: eq printf_def Y_def q2)
  show "next_fifo_seq (snd (lazy_evict_page e q)) = next_fifo_seq q"
    by (simp add: eq printf_def Y_def q2)
qed

lemma lazy_evict_discard_fields:
  assumes vs: "lazy_victim_scan (pages q) 0 None 4294967295 = Some v"
    and cl: "\<not> is_dirty (pages q v)"
    and tx: "text_start q \<le> va (pages q v) \<and> va (pages q v) < text_end q"
    and wk: "walk q (va (pages q v)) = Some pte"
  shows "fst (lazy_evict_page e q) = 1"
    and "pages (snd (lazy_evict_page e q)) = (pages q)(v := (pages q v)\<lparr>state := UNMAPPED, swap_slot := - 1\<rparr>)"
    and "swap_slot_bitmap (snd (lazy_evict_page e q)) = swap_slot_bitmap q"
    and "disk (snd (lazy_evict_page e q)) = disk q"
    and "pagetable (snd (lazy_evict_page e q)) (PGROUNDDOWN (va (pages q v))) = None"
    and "\<exists>rest. kfreed (snd (lazy_evict_page e q)) = kfreed q @ frame pte # rest"
proof -
  let ?a = "va (pages q v)"
  define Y where "Y = q\<lparr>console := console q @ [VICTIM ?a (seq (pages q v)), DISCARD ?a],
                 pages := (pages q)(v := (pages q v)\<lparr>state := UNMAPPED, swap_slot := - 1\<rparr>)\<rparr>"
  have eq: "lazy_evict_page e q = (1, printf (EVICT ?a) (uvmunmap ?a PGSIZE True Y))"
    unfolding Y_def by (rule lazy_evict_discard [OF vs cl tx])
  have wY: "walk Y ?a = Some pte" using wk by (simp add: Y_def walk_def)
  have pos: "0 < PGSIZE" by (simp add: PGSIZE_def)
  show "fst (lazy_evict_page e q) = 1" by (simp add: eq)
  show "pages (snd (lazy_evict_page e q)) = (pages q)(v := (pages q v)\<lparr>state := UNMAPPED, swap_slot := - 1\<rparr>)"
    by (simp add: eq printf_def Y_def)
  show "swap_slot_bitmap (snd (lazy_evict_page e q)) = swap_slot_bitmap q"
    by (simp add: eq printf_def Y_def)
  show "disk (snd (lazy_evict_page e q)) = disk q"
    by (simp add: eq printf_def Y_def)
  show "pagetable (snd (lazy_evict_page e q)) (PGROUNDDOWN ?a) = None"
    using uvmunmap_unmaps_first [OF pos, of ?a True Y] by (simp add: eq printf_def)
  from uvmunmap_frees_first [OF pos wY] obtain rest where
    "kfreed (uvmunmap ?a PGSIZE True Y) = kfreed Y @ frame pte # rest" by blast
  then show "\<exists>rest. kfreed (snd (lazy_evict_page e q)) = kfreed q @ frame pte # rest"
    by (simp add: eq printf_def Y_def)
qed

section \<open>The FIFO sequence numbers are kept\<close>

text \<open>
  A step that is \<open>quiet\<close> or that \<open>admits\<close> one page keeps I4, and every function of the two
  files is one or the other when it starts with the counter below \<^verbatim>\<open>INT_MAX\<close>. A state
  reached by \<open>n\<close> calls has its counter at \<open>n\<close> at most.
\<close>

lemma quiet_refl: "quiet p p"
  by (simp add: quiet_def)

lemma quiet_same:
  "pages p' = pages p \<Longrightarrow> next_fifo_seq p' = next_fifo_seq p \<Longrightarrow> quiet p p'"
  by (simp add: quiet_def)

lemma quiet_trans: "quiet p p1 \<Longrightarrow> quiet p1 p2 \<Longrightarrow> quiet p p2"
  unfolding quiet_def by simp

lemma quiet_admits: "quiet p p1 \<Longrightarrow> admits p1 p2 \<Longrightarrow> admits p p2"
  unfolding quiet_def admits_def
  apply (elim conjE exE)
  subgoal for i
    apply (intro conjI)
     apply simp
    apply (rule exI [of _ i])
    apply (intro allI impI)
    subgoal for j
      apply (drule spec [of _ j])
      apply (drule spec [of _ j])
      by auto
    done
  done

lemma admits_quiet: "admits p p1 \<Longrightarrow> quiet p1 p2 \<Longrightarrow> admits p p2"
  unfolding quiet_def admits_def
  apply (elim conjE exE)
  subgoal for i
    apply (intro conjI)
     apply simp
    apply (rule exI [of _ i])
    apply (intro allI impI)
    subgoal for j
      apply (drule spec [of _ j])
      apply (drule spec [of _ j])
      by auto
    done
  done

lemma quiet_I4: "I4 p \<Longrightarrow> quiet p p' \<Longrightarrow> I4 p'"
  unfolding I4_def quiet_def by (intro conjI allI impI) (metis+)

lemma admits_I4:
  assumes "I4 p" and "admits p p'"
  shows "I4 p'"
proof -
  from assms(2) obtain i where n: "next_fifo_seq p' = next_fifo_seq p + 1"
    and r: "\<And>j. state (pages p' j) = RESIDENT \<Longrightarrow>
             (j = i \<and> seq (pages p' j) = next_fifo_seq p)
             \<or> (state (pages p j) = RESIDENT \<and> seq (pages p' j) = seq (pages p j))"
    unfolding admits_def by blast
  from assms(1) have lt: "\<And>j. j < MAX_PROC_PAGES \<Longrightarrow> state (pages p j) = RESIDENT
      \<Longrightarrow> seq (pages p j) < next_fifo_seq p"
    and ne: "\<And>j k. j < MAX_PROC_PAGES \<Longrightarrow> k < MAX_PROC_PAGES \<Longrightarrow> j \<noteq> k
      \<Longrightarrow> state (pages p j) = RESIDENT \<Longrightarrow> state (pages p k) = RESIDENT
      \<Longrightarrow> seq (pages p j) \<noteq> seq (pages p k)"
    unfolding I4_def by blast+
  have a: "seq (pages p' j) < next_fifo_seq p'"
    if "j < MAX_PROC_PAGES" "state (pages p' j) = RESIDENT" for j
    using r [OF that(2)] lt [OF that(1)] n by auto
  have b: "seq (pages p' j) \<noteq> seq (pages p' k)"
    if "j < MAX_PROC_PAGES" "k < MAX_PROC_PAGES" "j \<noteq> k"
       "state (pages p' j) = RESIDENT" "state (pages p' k) = RESIDENT" for j k
    using r [OF that(4)] r [OF that(5)] lt [OF that(1)] lt [OF that(2)]
      ne [OF that(1) that(2) that(3)] that(3) by auto
  show ?thesis unfolding I4_def using a b by blast
qed

lemma step_I4: "I4 p \<Longrightarrow> quiet p p' \<or> admits p p' \<Longrightarrow> I4 p'"
  using quiet_I4 admits_I4 by blast

lemma quiet_step: "quiet p p1 \<Longrightarrow> quiet p1 p2 \<or> admits p1 p2 \<Longrightarrow> quiet p p2 \<or> admits p p2"
  using quiet_trans quiet_admits by blast

lemma step_quiet: "quiet p p1 \<or> admits p p1 \<Longrightarrow> quiet p1 p2 \<Longrightarrow> quiet p p2 \<or> admits p p2"
  using quiet_trans admits_quiet by blast

lemma fifo_fields [simp]:
  "pages (printf ev p) = pages p" "next_fifo_seq (printf ev p) = next_fifo_seq p"
  "pages (fs c p) = pages p" "next_fifo_seq (fs c p) = next_fifo_seq p"
  "pages (kfree pa p) = pages p" "next_fifo_seq (kfree pa p) = next_fifo_seq p"
  "pages (memset_page pa p) = pages p" "next_fifo_seq (memset_page pa p) = next_fifo_seq p"
  "pages (clear_pte a p) = pages p" "next_fifo_seq (clear_pte a p) = next_fifo_seq p"
  "pages (setkilled p) = pages p" "next_fifo_seq (setkilled p) = next_fifo_seq p"
  "pages (snd (mappages e a pa pm p)) = pages p"
  "next_fifo_seq (snd (mappages e a pa pm p)) = next_fifo_seq p"
  "pages (snd (readi e ip pa off n p)) = pages p"
  "next_fifo_seq (snd (readi e ip pa off n p)) = next_fifo_seq p"
  "pages (snd (writei e ip pa off n p)) = pages p"
  "next_fifo_seq (snd (writei e ip pa off n p)) = next_fifo_seq p"
  by (simp_all add: printf_def fs_def kfree_def memset_page_def clear_pte_def setkilled_def
      mappages_def readi_def writei_def)

lemma fifo_fields_slots [simp]:
  "pages (snd (alloc_swap_slot_dp p)) = pages p"
  "next_fifo_seq (snd (alloc_swap_slot_dp p)) = next_fifo_seq p"
  "pages (free_swap_slot_dp p s) = pages p"
  "next_fifo_seq (free_swap_slot_dp p s) = next_fifo_seq p"
  "pages (snd (alloc_swap_slot_lazy q)) = pages q"
  "next_fifo_seq (snd (alloc_swap_slot_lazy q)) = next_fifo_seq q"
  "pages (free_swap_slot_lazy q s) = pages q"
  "next_fifo_seq (free_swap_slot_lazy q s) = next_fifo_seq q"
  by (simp_all add: alloc_swap_slot_dp_def free_swap_slot_dp_def alloc_swap_slot_lazy_def
      free_swap_slot_lazy_def Let_def split: prod.splits)

lemma create_swap_file_lazy_fields [simp]:
  "pages (snd (create_swap_file_lazy e p)) = pages p"
  "next_fifo_seq (snd (create_swap_file_lazy e p)) = next_fifo_seq p"
  by (simp_all add: create_swap_file_lazy_def Let_def split: option.splits)

lemma get_page_info_dp_quiet: "quiet p (snd (get_page_info_dp p a))"
  by (simp add: get_page_info_dp_def quiet_def Let_def split: option.splits)

lemma get_page_info_dp_next [simp]:
  "next_fifo_seq (snd (get_page_info_dp p a)) = next_fifo_seq p"
  by (simp add: get_page_info_dp_def Let_def split: option.splits)

lemma swap_out_page_quiet: "quiet p (snd (swap_out_page e p a pa))"
proof (cases "swapfile p")
  case None
  then show ?thesis by (simp add: swap_out_page_def quiet_refl)
next
  case (Some ip)
  obtain pi p1 where g: "get_page_info_dp p a = (pi, p1)" by (cases "get_page_info_dp p a")
  have q1: "quiet p p1" using get_page_info_dp_quiet [of p a] g by simp
  have "quiet p1 (snd (swap_out_page e p a pa))"
    using Some g
    by (cases pi)
       (simp_all add: swap_out_page_def quiet_def Let_def split_beta)
  with q1 show ?thesis by (rule quiet_trans)
qed


lemma swap_out_page_next [simp]:
  "next_fifo_seq (snd (swap_out_page e p a pa)) = next_fifo_seq p"
  using swap_out_page_quiet [of p e a pa] by (simp add: quiet_def)

lemma evict_page_quiet: "quiet p (snd (evict_page e p a))"
proof -
  obtain pi p1 where g: "get_page_info_dp p a = (pi, p1)" by (cases "get_page_info_dp p a")
  have q1: "quiet p p1" using get_page_info_dp_quiet [of p a] g by simp
  have "quiet p1 (snd (evict_page e p a))"
  proof (cases pi)
    case None
    then show ?thesis using g by (simp add: evict_page_def quiet_refl)
  next
    case (Some i)
    show ?thesis
    proof (cases "state (pages p1 i) = RESIDENT \<and> walk p1 a \<noteq> None")
      case False
      then show ?thesis using g Some by (auto simp: evict_page_def quiet_refl)
    next
      case True
      then obtain pte where w: "walk p1 a = Some pte" by blast
      show ?thesis
      proof (cases "is_dirty (pages p1 i)")
        case False
        then show ?thesis using g Some True w
          by (simp add: evict_page_def Let_def quiet_def)
      next
        case d: True
        let ?p2 = "printf (EVICT_dirty a) (printf (VICTIM a (seq (pages p1 i))) p1)"
        have "quiet p1 ?p2" by (simp add: quiet_def)
        moreover have "quiet ?p2 (snd (swap_out_page e ?p2 a (frame pte)))"
          by (rule swap_out_page_quiet)
        ultimately have "quiet p1 (snd (swap_out_page e ?p2 a (frame pte)))"
          by (rule quiet_trans)
        then show ?thesis using g Some True w d
          by (simp add: evict_page_def Let_def split_beta quiet_def)
      qed
    qed
  qed
  with q1 show ?thesis by (rule quiet_trans)
qed

lemma fault_frame_dp_quiet: "quiet p (snd (fault_frame_dp e p))"
proof -
  have "quiet p (printf MEMFULL p)" by (simp add: quiet_def)
  moreover have "quiet (printf MEMFULL p) (snd (evict_page e (printf MEMFULL p) a))" for a
    by (rule evict_page_quiet)
  ultimately have "quiet p (snd (evict_page e (printf MEMFULL p) a))" for a
    by (rule quiet_trans)
  then show ?thesis
    by (simp add: fault_frame_dp_def Let_def split_beta quiet_refl quiet_def [of p "printf MEMFULL p"])
qed

lemma handle_write_fault_quiet: "quiet p (snd (handle_write_fault p a))"
proof -
  obtain pi p1 where g: "get_page_info_dp p (PGROUNDDOWN a) = (pi, p1)"
    by (cases "get_page_info_dp p (PGROUNDDOWN a)")
  have q1: "quiet p p1" using get_page_info_dp_quiet [of p "PGROUNDDOWN a"] g by simp
  have "quiet p1 (snd (handle_write_fault p a))"
    using g by (cases pi) (simp_all add: handle_write_fault_def Let_def quiet_def split: option.splits)
  with q1 show ?thesis by (rule quiet_trans)
qed

lemma delete_swap_file_dp_quiet: "quiet p (delete_swap_file_dp p)"
  by (simp add: delete_swap_file_dp_def Let_def quiet_def split: option.splits)

lemma int_incr_below: "x < INT_MAX \<Longrightarrow> int_incr x = x + 1"
  by (simp add: int_incr_def)

lemma admits_update:
  assumes "next_fifo_seq p' = next_fifo_seq p + 1"
    and "\<And>j. j \<noteq> i \<Longrightarrow> pages p' j = pages p j"
    and "seq (pages p' i) = next_fifo_seq p"
  shows "admits p p'"
proof -
  have "(j = i \<and> seq (pages p' j) = next_fifo_seq p)
        \<or> (state (pages p j) = RESIDENT \<and> seq (pages p' j) = seq (pages p j))"
    if "state (pages p' j) = RESIDENT" for j
    using that assms(2) [of j] assms(3) by (cases "j = i") simp_all
  then show ?thesis unfolding admits_def using assms(1) by blast
qed

lemma swap_in_page_step:
  assumes "next_fifo_seq p < INT_MAX"
  shows "quiet p (snd (swap_in_page e p a pa)) \<or> admits p (snd (swap_in_page e p a pa))"
proof (cases "swapfile p")
  case None
  then show ?thesis by (simp add: swap_in_page_def quiet_refl)
next
  case (Some ip)
  obtain pi p1 where g: "get_page_info_dp p a = (pi, p1)" by (cases "get_page_info_dp p a")
  have q1: "quiet p p1" using get_page_info_dp_quiet [of p a] g by simp
  have n1: "next_fifo_seq p1 < INT_MAX" using assms q1 by (simp add: quiet_def)
  have "quiet p1 (snd (swap_in_page e p a pa)) \<or> admits p1 (snd (swap_in_page e p a pa))"
  proof (cases pi)
    case None
    then show ?thesis using g Some by (simp add: swap_in_page_def quiet_refl)
  next
    case i: (Some i)
    show ?thesis
    proof (cases "state (pages p1 i) = SWAPPED \<and> \<not> swap_slot (pages p1 i) < 0
        \<and> readi_ret e = int PGSIZE")
      case False
      then show ?thesis using g Some i
        by (auto simp: swap_in_page_def Let_def split_beta quiet_def readi_def)
    next
      case True
      have "admits p1 (snd (swap_in_page e p a pa))"
        by (rule admits_update [where i = i])
           (use g Some i True n1 in
             \<open>simp_all add: swap_in_page_def Let_def split_beta int_incr_below readi_def\<close>)
      then show ?thesis ..
    qed
  qed
  with q1 show ?thesis by (rule quiet_step)
qed

lemma make_resident_dp_step:
  assumes "next_fifo_seq p < INT_MAX"
  shows "quiet p (make_resident_dp p pi a) \<or> admits p (make_resident_dp p pi a)"
proof -
  define g where "g = (case pi of None \<Rightarrow> get_page_info_dp p a | Some i \<Rightarrow> (Some i, p))"
  have q1: "quiet p (snd g)"
    unfolding g_def using get_page_info_dp_quiet [of p a] by (cases pi) (simp_all add: quiet_refl)
  have n1: "next_fifo_seq (snd g) < INT_MAX" using assms q1 by (simp add: quiet_def)
  have "quiet (snd g) (make_resident_dp p pi a) \<or> admits (snd g) (make_resident_dp p pi a)"
  proof (cases "fst g")
    case None
    then show ?thesis
      unfolding make_resident_dp_def g_def [symmetric]
      by (simp add: split_beta quiet_def)
  next
    case (Some i)
    have "admits (snd g) (make_resident_dp p pi a)"
      by (rule admits_update [where i = i])
         (use Some n1 in \<open>simp_all add: make_resident_dp_def g_def [symmetric] split_beta
            Let_def int_incr_below\<close>)
    then show ?thesis ..
  qed
  with q1 show ?thesis by (rule quiet_step)
qed


lemma step_kfree: "quiet p p' \<or> admits p p' \<Longrightarrow> quiet p (kfree m p') \<or> admits p (kfree m p')"
  by (erule step_quiet) (simp add: quiet_def)

lemma fault_fill_dp_step:
  assumes "next_fifo_seq p < INT_MAX"
  shows "quiet p (snd (fault_fill_dp e p pi a mem)) \<or> admits p (snd (fault_fill_dp e p pi a mem))"
proof -
  have sw: "quiet p (kfree mem (snd (swap_in_page e p a mem)))
            \<or> admits p (kfree mem (snd (swap_in_page e p a mem)))"
    by (rule step_kfree) (rule swap_in_page_step [OF assms])
  have mr: "quiet p (make_resident_dp (printf ev p) x a)
            \<or> admits p (make_resident_dp (printf ev p) x a)" for ev x
  proof (rule quiet_step [of p "printf ev p"])
    show "quiet p (printf ev p)" by (simp add: quiet_def)
    show "quiet (printf ev p) (make_resident_dp (printf ev p) x a)
          \<or> admits (printf ev p) (make_resident_dp (printf ev p) x a)"
      by (rule make_resident_dp_step) (simp add: assms)
  qed
  have rd: "quiet p (make_resident_dp (printf ev (fs c1 (fs c2 (snd (readi e ip mem off n (fs c3 (fs c4 p))))))) x a)
            \<or> admits p (make_resident_dp (printf ev (fs c1 (fs c2 (snd (readi e ip mem off n (fs c3 (fs c4 p))))))) x a)"
    for ev c1 c2 c3 c4 ip off n x
  proof (rule quiet_step [of p "printf ev (fs c1 (fs c2 (snd (readi e ip mem off n (fs c3 (fs c4 p))))))"])
    let ?q = "printf ev (fs c1 (fs c2 (snd (readi e ip mem off n (fs c3 (fs c4 p))))))"
    show "quiet p ?q" by (simp add: quiet_def)
    show "quiet ?q (make_resident_dp ?q x a) \<or> admits ?q (make_resident_dp ?q x a)"
      by (rule make_resident_dp_step) (simp add: assms)
  qed
  have kq: "quiet p (kfree mem p)" by (simp add: quiet_def)
  have rq: "quiet p (kfree mem (fs c1 (fs c2 (snd (readi e ip mem off n (fs c3 (fs c4 p)))))))"
    for c1 c2 c3 c4 ip off n
    by (simp add: quiet_def)
  show ?thesis
    unfolding fault_fill_dp_def
    by (simp add: split_beta Let_def sw swap_in_page_step [OF assms] mr rd kq rq
        split: option.splits)
qed

lemma handle_page_fault_step:
  assumes "next_fifo_seq p < INT_MAX"
  shows "quiet p (snd (handle_page_fault e p a0 w)) \<or> admits p (snd (handle_page_fault e p a0 w))"
proof -
  define a where "a = PGROUNDDOWN a0"
  obtain pi p1 where g: "get_page_info_dp p a = (pi, p1)" by (cases "get_page_info_dp p a")
  have q1: "quiet p p1" using get_page_info_dp_quiet [of p a] g by simp
  define p2 where "p2 = printf (PAGEFAULT a (if w then Acc_write
                         else if text_start p \<le> a \<and> a < text_end p then Acc_exec
                         else Acc_read) (fst (fault_cause_dp p1 pi a))) p1"
  have q2: "quiet p p2" using q1 unfolding p2_def by (simp add: quiet_def)
  define p3 where "p3 = snd (fault_frame_dp e p2)"
  have q3: "quiet p p3" unfolding p3_def using q2 fault_frame_dp_quiet by (rule quiet_trans)
  define mem where "mem = fst (fault_frame_dp e p2)"
  define p3m where "p3m = memset_page mem p3"
  have q3m: "quiet p p3m" using q3 unfolding p3m_def by (simp add: quiet_def)
  have n3: "next_fifo_seq p3m < INT_MAX" using assms q3m by (simp add: quiet_def)
  define p4 where "p4 = snd (fault_fill_dp e p3m pi a mem)"
  have s4: "quiet p p4 \<or> admits p p4"
    unfolding p4_def using q3m fault_fill_dp_step [OF n3] by (rule quiet_step)
  have s5: "quiet p (snd (mappages e a mem pm p4)) \<or> admits p (snd (mappages e a mem pm p4))" for pm
    using s4 by (rule step_quiet) (simp add: quiet_def)
  have s6: "quiet p (kfree mem (snd (mappages e a mem pm p4)))
            \<or> admits p (kfree mem (snd (mappages e a mem pm p4)))" for pm
    using s5 by (rule step_kfree)
  have k: "quiet p (printf ev p2)" for ev using q2 by (simp add: quiet_def)
  show ?thesis
    unfolding handle_page_fault_def a_def [symmetric] Let_def g prod.case
    using s4 s5 s6 k q3
    by (simp add: split_beta p2_def [symmetric] p3_def [symmetric] mem_def [symmetric]
        p3m_def [symmetric] p4_def [symmetric])
qed

lemma lazy_evict_page_quiet: "quiet p (snd (lazy_evict_page e p))"
  unfolding lazy_evict_page_def
  by (simp add: Let_def split_beta quiet_def split: option.splits)

lemma fault_frame_lazy_quiet: "quiet p (snd (fault_frame_lazy e p))"
proof -
  have "quiet p (snd (lazy_evict_page e p))" by (rule lazy_evict_page_quiet)
  moreover have "quiet (snd (lazy_evict_page e p)) (setkilled (printf MEMFULL (snd (lazy_evict_page e p))))"
    by (simp add: quiet_def)
  ultimately have "quiet p (setkilled (printf MEMFULL (snd (lazy_evict_page e p))))"
    by (rule quiet_trans)
  then show ?thesis
    unfolding fault_frame_lazy_def
    by (simp add: Let_def split_beta quiet_refl lazy_evict_page_quiet)
qed

lemma fault_frame_lazy_next [simp]:
  "next_fifo_seq (snd (fault_frame_lazy e p)) = next_fifo_seq p"
  using fault_frame_lazy_quiet [of p e] by (simp add: quiet_def)

lemma load_exec_lazy_fields [simp]:
  "pages (load_exec_lazy e p a mem) = pages p"
  "next_fifo_seq (load_exec_lazy e p a mem) = next_fifo_seq p"
  by (simp_all add: load_exec_lazy_def Let_def split: option.splits)


lemma lazy_swap_in_step:
  assumes "next_fifo_seq p < INT_MAX"
  shows "quiet p (snd (lazy_swap_in e p i a acc)) \<or> admits p (snd (lazy_swap_in e p i a acc))"
proof -
  define p0 where "p0 = printf (PAGEFAULT a acc Cause_swap) p"
  define mem where "mem = fst (fault_frame_lazy e p0)"
  define p1 where "p1 = snd (fault_frame_lazy e p0)"
  have q0: "quiet p p0" unfolding p0_def by (simp add: quiet_def)
  have q1: "quiet p p1" unfolding p1_def using q0 fault_frame_lazy_quiet by (rule quiet_trans)
  define p3 where "p3 = (case swapfile_inode (memset_page mem p1) of
                         None \<Rightarrow> memset_page mem p1
                       | Some ip \<Rightarrow>
                           if swap_slot (pages (memset_page mem p1) i) \<ge> 0 then
                             printf (SWAPIN a (swap_slot (pages (memset_page mem p1) i)))
                               (fs (Iunlock ip)
                                 (snd (readi e ip mem (nat (swap_slot (pages (memset_page mem p1) i)) * PGSIZE) PGSIZE
                                        (fs (Ilock ip) (memset_page mem p1)))))
                           else memset_page mem p1)"
  have f3: "pages p3 = pages p1" "next_fifo_seq p3 = next_fifo_seq p1"
    unfolding p3_def by (simp_all split: option.splits)
  define p4 where "p4 = snd (mappages e a mem (pte_flags_lazy p3 a) p3)"
  have f4: "pages p4 = pages p1" "next_fifo_seq p4 = next_fifo_seq p1"
    unfolding p4_def by (simp_all add: f3)
  have q4: "quiet p p4" using q1 f4 by (simp add: quiet_def)
  have n4: "next_fifo_seq p4 < INT_MAX" using assms q4 by (simp add: quiet_def)
  have r: "snd (lazy_swap_in e p i a acc) =
        (if mem = 0 then p1
         else if fst (mappages e a mem (pte_flags_lazy p3 a) p3) \<noteq> 0 then setkilled (kfree mem p4)
         else (let old_slot = swap_slot (pages p4 i);
                   p5 = p4\<lparr>pages := (pages p4)(i :=
                             (pages p4 i)\<lparr>state := RESIDENT, seq := next_fifo_seq p4,
                                          swap_slot := - 1\<rparr>),
                           next_fifo_seq := int_incr (next_fifo_seq p4)\<rparr>;
                   p6 = (if old_slot \<ge> 0
                         then (free_swap_slot_lazy p5 old_slot)
                                \<lparr>num_swapped_pages := num_swapped_pages p5 - 1\<rparr>
                         else p5)
               in printf (RESIDENT_seq a (seq (pages p6 i))) p6))"
    unfolding lazy_swap_in_def p4_def p3_def p1_def mem_def p0_def
    by (simp add: split_beta Let_def)
  have "quiet p4 (snd (lazy_swap_in e p i a acc)) \<or> admits p4 (snd (lazy_swap_in e p i a acc))
        \<or> snd (lazy_swap_in e p i a acc) = p1"
  proof (cases "mem = 0")
    case True
    then show ?thesis by (simp add: r)
  next
    case m: False
    show ?thesis
    proof (cases "fst (mappages e a mem (pte_flags_lazy p3 a) p3) \<noteq> 0")
      case True
      then show ?thesis using m by (simp add: r quiet_def)
    next
      case False
      have "admits p4 (snd (lazy_swap_in e p i a acc))"
        by (rule admits_update [where i = i])
           (use m False n4 in \<open>simp_all add: r Let_def int_incr_below\<close>)
      then show ?thesis by simp
    qed
  qed
  then show ?thesis using q4 q1 quiet_step [of p p4] by auto
qed

lemma lazy_handle_fault_step:
  assumes "next_fifo_seq p < INT_MAX"
  shows "quiet p (snd (lazy_handle_fault e p a0 w)) \<or> admits p (snd (lazy_handle_fault e p a0 w))"
proof -
  define a where "a = PGROUNDDOWN a0"
  define acc where "acc = (if w then Acc_write else Acc_read)"
  show ?thesis
  proof (cases "ismapped p a")
    case True
    then show ?thesis by (simp add: lazy_handle_fault_def a_def quiet_refl)
  next
    case nm: False
    show ?thesis
    proof (cases "case get_page_info_lazy p a of None \<Rightarrow> False | Some i \<Rightarrow> state (pages p i) = SWAPPED")
      case True
      then show ?thesis using nm lazy_swap_in_step [OF assms]
        by (simp add: lazy_handle_fault_def a_def [symmetric] Let_def)
    next
      case ns: False
      define cause where "cause = fst (fault_cause_lazy e p a)"
      define valid where "valid = snd (fault_cause_lazy e p a)"
      show ?thesis
      proof (cases valid)
        case False
        then show ?thesis using nm ns
          by (simp add: lazy_handle_fault_def a_def [symmetric] Let_def split_beta
              valid_def quiet_def)
      next
        case v: True
        define p0 where "p0 = printf (PAGEFAULT a acc cause) p"
        define mem where "mem = fst (fault_frame_lazy e p0)"
        define p1 where "p1 = snd (fault_frame_lazy e p0)"
        have q0: "quiet p p0" unfolding p0_def by (simp add: quiet_def)
        have q1: "quiet p p1" unfolding p1_def using q0 fault_frame_lazy_quiet by (rule quiet_trans)
        define p3 where "p3 = (if cause = Cause_exec then load_exec_lazy e (memset_page mem p1) a mem
                               else memset_page mem p1)"
        have f3: "pages p3 = pages p1" "next_fifo_seq p3 = next_fifo_seq p1"
          unfolding p3_def by simp_all
        define p4 where "p4 = snd (mappages e a mem (pte_flags_lazy p3 a) p3)"
        define p5 where "p5 = printf (if cause = Cause_exec then LOADEXEC a else ALLOC a) p4"
        have f5: "pages p5 = pages p1" "next_fifo_seq p5 = next_fifo_seq p1"
          unfolding p5_def p4_def by (simp_all add: f3)
        have q5: "quiet p p5" using q1 f5 by (simp add: quiet_def)
        have n5: "next_fifo_seq p5 < INT_MAX" using assms q5 by (simp add: quiet_def)
        have r: "snd (lazy_handle_fault e p a0 w) =
            (if mem = 0 then p1
             else if fst (mappages e a mem (pte_flags_lazy p3 a) p3) \<noteq> 0
             then setkilled (kfree mem p4)
             else snd (case get_page_info_lazy p5 a of
                     None \<Rightarrow> (0 :: int, p5)
                   | Some i \<Rightarrow>
                       (let p6 = p5\<lparr>pages := (pages p5)(i :=
                                   \<lparr>va = a, state = RESIDENT, is_dirty = w,
                                    seq = next_fifo_seq p5, swap_slot = - 1\<rparr>),
                                 next_fifo_seq := int_incr (next_fifo_seq p5)\<rparr>
                        in (0, printf (RESIDENT_seq a (seq (pages p6 i))) p6))))"
          using nm ns v
          unfolding lazy_handle_fault_def p5_def p4_def p3_def p1_def mem_def p0_def
            cause_def valid_def acc_def a_def
          by (simp add: split_beta Let_def)
        have "quiet p5 (snd (lazy_handle_fault e p a0 w)) \<or> admits p5 (snd (lazy_handle_fault e p a0 w))
              \<or> snd (lazy_handle_fault e p a0 w) = p1"
        proof (cases "mem = 0")
          case True
          then show ?thesis by (simp add: r)
        next
          case m: False
          show ?thesis
          proof (cases "fst (mappages e a mem (pte_flags_lazy p3 a) p3) \<noteq> 0")
            case True
            then show ?thesis using m f5 unfolding p5_def by (simp add: r quiet_def)
          next
            case mp: False
            show ?thesis
            proof (cases "get_page_info_lazy p5 a")
              case None
              then show ?thesis using m mp by (simp add: r quiet_refl)
            next
              case (Some i)
              have "admits p5 (snd (lazy_handle_fault e p a0 w))"
                by (rule admits_update [where i = i])
                   (use m mp Some n5 in \<open>simp_all add: r Let_def int_incr_below\<close>)
              then show ?thesis by simp
            qed
          qed
        qed
        then show ?thesis using q5 q1 quiet_step [of p p5] by auto
      qed
    qed
  qed
qed


lemma step_counter:
  assumes "I4 p \<and> next_fifo_seq p \<le> int n" and "Suc n \<le> 2147483647"
    and "next_fifo_seq p < INT_MAX \<Longrightarrow> quiet p p' \<or> admits p p'"
  shows "I4 p' \<and> next_fifo_seq p' \<le> int (Suc n)"
proof -
  have "next_fifo_seq p < INT_MAX" using assms(1,2) by (simp add: INT_MAX_def)
  then have s: "quiet p p' \<or> admits p p'" by (rule assms(3))
  then have "I4 p'" using assms(1) step_I4 by blast
  moreover have "next_fifo_seq p' \<le> int (Suc n)"
    using s assms(1) by (auto simp: quiet_def admits_def)
  ultimately show ?thesis ..
qed

lemma quiet_counter:
  assumes "I4 p \<and> next_fifo_seq p \<le> int n" and "quiet p p'"
  shows "I4 p' \<and> next_fifo_seq p' \<le> int (Suc n)"
  using assms quiet_I4 [of p p'] by (simp add: quiet_def)

lemma kexec_stack_dp_step:
  assumes "next_fifo_seq p < INT_MAX"
  shows "quiet p (kexec_stack_dp a p) \<or> admits p (kexec_stack_dp a p)"
proof -
  obtain pi p1 where g: "get_page_info_dp p a = (pi, p1)" by (cases "get_page_info_dp p a")
  have q1: "quiet p p1" using get_page_info_dp_quiet [of p a] g by simp
  have n1: "next_fifo_seq p1 < INT_MAX" using assms q1 by (simp add: quiet_def)
  have "quiet p1 (kexec_stack_dp a p) \<or> admits p1 (kexec_stack_dp a p)"
  proof (cases pi)
    case None
    then show ?thesis using g by (simp add: kexec_stack_dp_def quiet_refl)
  next
    case (Some i)
    have "admits p1 (kexec_stack_dp a p)"
      by (rule admits_update [where i = i])
         (use g Some n1 in \<open>simp_all add: kexec_stack_dp_def kexec_track_def int_incr_below\<close>)
    then show ?thesis ..
  qed
  with q1 show ?thesis by (rule quiet_step)
qed

lemma kexec_stack_lazy_step:
  assumes "next_fifo_seq p < INT_MAX"
  shows "quiet p (kexec_stack_lazy a p) \<or> admits p (kexec_stack_lazy a p)"
proof (cases "get_page_info_lazy p a")
  case None
  then show ?thesis by (simp add: kexec_stack_lazy_def quiet_refl)
next
  case (Some i)
  have "admits p (kexec_stack_lazy a p)"
    by (rule admits_update [where i = i])
       (use Some assms in \<open>simp_all add: kexec_stack_lazy_def kexec_track_def int_incr_below\<close>)
  then show ?thesis ..
qed

lemma kexec_page_dp_quiet: "quiet p (kexec_page_dp ph a p)"
proof -
  obtain pi p1 where g: "get_page_info_dp p a = (pi, p1)" by (cases "get_page_info_dp p a")
  have q1: "quiet p p1" using get_page_info_dp_quiet [of p a] g by simp
  have "quiet p1 (kexec_page_dp ph a p)"
    using g by (cases pi) (simp_all add: kexec_page_dp_def kexec_record_def Let_def quiet_def)
  with q1 show ?thesis by (rule quiet_trans)
qed

lemma reachable_dp_I4:
  "reachable_dp n p \<Longrightarrow> n \<le> 2147483647 \<Longrightarrow> I4 p \<and> next_fifo_seq p \<le> int n"
proof (induction rule: reachable_dp.induct)
  case (dp_init p)
  show ?case by (simp add: I4_def demand_paging_init_def)
next
  case (dp_descriptor n p a)
  then have "I4 p \<and> next_fifo_seq p \<le> int n" by simp
  then show ?case by (rule quiet_counter) (rule get_page_info_dp_quiet)
next
  case (dp_fault n p e a w)
  then have "I4 p \<and> next_fifo_seq p \<le> int n" by simp
  then show ?case using dp_fault.prems by (rule step_counter) (rule handle_page_fault_step)
next
  case (dp_write_fault n p a)
  then have "I4 p \<and> next_fifo_seq p \<le> int n" by simp
  then show ?case by (rule quiet_counter) (rule handle_write_fault_quiet)
next
  case (dp_evict n p e a)
  then have "I4 p \<and> next_fifo_seq p \<le> int n" by simp
  then show ?case by (rule quiet_counter) (rule evict_page_quiet)
next
  case (dp_swap_out n p e a pa)
  then have "I4 p \<and> next_fifo_seq p \<le> int n" by simp
  then show ?case by (rule quiet_counter) (rule swap_out_page_quiet)
next
  case (dp_swap_in n p e a pa)
  then have "I4 p \<and> next_fifo_seq p \<le> int n" by simp
  then show ?case using dp_swap_in.prems by (rule step_counter) (rule swap_in_page_step)
next
  case (dp_create_swap n p e x f)
  have "quiet p (snd (create_swap_file_dp e x f p))"
    by (simp add: create_swap_file_dp_def Let_def quiet_def split: option.splits)
  moreover from dp_create_swap have "I4 p \<and> next_fifo_seq p \<le> int n" by simp
  ultimately show ?case by (rule quiet_counter [rotated])
next
  case (dp_delete_swap n p)
  then have "I4 p \<and> next_fifo_seq p \<le> int n" by simp
  then show ?case by (rule quiet_counter) (rule delete_swap_file_dp_quiet)
next
  case (dp_alloc_slot n p)
  have "quiet p (snd (alloc_swap_slot_dp p))" by (simp add: quiet_def)
  moreover from dp_alloc_slot have "I4 p \<and> next_fifo_seq p \<le> int n" by simp
  ultimately show ?case by (rule quiet_counter [rotated])
next
  case (dp_free_slot n p s)
  have "quiet p (free_swap_slot_dp p s)" by (simp add: quiet_def)
  moreover from dp_free_slot have "I4 p \<and> next_fifo_seq p \<le> int n" by simp
  ultimately show ?case by (rule quiet_counter [rotated])
next
  case (dp_sbrk n p t e k g)
  have "quiet p (snd (sys_sbrk e g k t p))"
    using dp_sbrk(2,3) by (simp add: sys_sbrk_def Let_def quiet_def)
  moreover from dp_sbrk have "I4 p \<and> next_fifo_seq p \<le> int n" by simp
  ultimately show ?case by (rule quiet_counter [rotated])
next
  case (dp_exec_clear n p)
  have "quiet p (kexec_clear p)" by (simp add: kexec_clear_def quiet_def)
  moreover from dp_exec_clear have "I4 p \<and> next_fifo_seq p \<le> int n" by simp
  ultimately show ?case by (rule quiet_counter [rotated])
next
  case (dp_exec_page n p ph a)
  then have "I4 p \<and> next_fifo_seq p \<le> int n" by simp
  then show ?case by (rule quiet_counter) (rule kexec_page_dp_quiet)
next
  case (dp_exec_layout n p e ts te ds de sz0)
  have "quiet p (kexec_layout e ts te ds de sz0 p)" by (simp add: kexec_layout_def quiet_def)
  moreover from dp_exec_layout have "I4 p \<and> next_fifo_seq p \<le> int n" by simp
  ultimately show ?case by (rule quiet_counter [rotated])
next
  case (dp_exec_stack n p a)
  then have "I4 p \<and> next_fifo_seq p \<le> int n" by simp
  then show ?case using dp_exec_stack.prems by (rule step_counter) (rule kexec_stack_dp_step)
qed

lemma reachable_lazy_I4:
  "reachable_lazy n p \<Longrightarrow> n \<le> 2147483647 \<Longrightarrow> I4 p \<and> next_fifo_seq p \<le> int n"
proof (induction rule: reachable_lazy.induct)
  case (lazy_init p)
  show ?case by (simp add: I4_def lazy_init_def)
next
  case (lazy_fault n p e a w)
  then have "I4 p \<and> next_fifo_seq p \<le> int n" by simp
  then show ?case using lazy_fault.prems by (rule step_counter) (rule lazy_handle_fault_step)
next
  case (lazy_evict n p e)
  then have "I4 p \<and> next_fifo_seq p \<le> int n" by simp
  then show ?case by (rule quiet_counter) (rule lazy_evict_page_quiet)
next
  case (lazy_create_swap n p e)
  have "quiet p (snd (create_swap_file_lazy e p))" by (simp add: quiet_def)
  moreover from lazy_create_swap have "I4 p \<and> next_fifo_seq p \<le> int n" by simp
  ultimately show ?case by (rule quiet_counter [rotated])
next
  case (lazy_delete_swap n p)
  have "quiet p (delete_swap_file_lazy p)"
    by (simp add: delete_swap_file_lazy_def Let_def quiet_def split: option.splits)
  moreover from lazy_delete_swap have "I4 p \<and> next_fifo_seq p \<le> int n" by simp
  ultimately show ?case by (rule quiet_counter [rotated])
next
  case (lazy_free_proc n p)
  have "quiet p (lazy_free p)"
    by (simp add: lazy_free_def Let_def quiet_def split: option.splits)
  moreover from lazy_free_proc have "I4 p \<and> next_fifo_seq p \<le> int n" by simp
  ultimately show ?case by (rule quiet_counter [rotated])
next
  case (lazy_sbrk n p t e k g)
  have "quiet p (snd (sys_sbrk e g k t p))"
    using lazy_sbrk(2,3) by (simp add: sys_sbrk_def Let_def quiet_def)
  moreover from lazy_sbrk have "I4 p \<and> next_fifo_seq p \<le> int n" by simp
  ultimately show ?case by (rule quiet_counter [rotated])
next
  case (lazy_exec_clear n p)
  have "quiet p (kexec_clear p)" by (simp add: kexec_clear_def quiet_def)
  moreover from lazy_exec_clear have "I4 p \<and> next_fifo_seq p \<le> int n" by simp
  ultimately show ?case by (rule quiet_counter [rotated])
next
  case (lazy_exec_page n p ph a)
  have "quiet p (kexec_page_lazy ph a p)"
    by (simp add: kexec_page_lazy_def kexec_record_def Let_def quiet_def split: option.splits)
  moreover from lazy_exec_page have "I4 p \<and> next_fifo_seq p \<le> int n" by simp
  ultimately show ?case by (rule quiet_counter [rotated])
next
  case (lazy_exec_layout n p e ts te ds de sz0)
  have "quiet p (kexec_layout e ts te ds de sz0 p)" by (simp add: kexec_layout_def quiet_def)
  moreover from lazy_exec_layout have "I4 p \<and> next_fifo_seq p \<le> int n" by simp
  ultimately show ?case by (rule quiet_counter [rotated])
next
  case (lazy_exec_stack n p a)
  then have "I4 p \<and> next_fifo_seq p \<le> int n" by simp
  then show ?case using lazy_exec_stack.prems by (rule step_counter) (rule kexec_stack_lazy_step)
qed

lemma make_resident_dp_admitted: "admitted p i (make_resident_dp p (Some i) a)"
  by (simp add: make_resident_dp_def admitted_def Let_def)

lemma swap_in_page_admitted:
  assumes "fst (swap_in_page e p a pa) = 0" and "fst (get_page_info_dp p a) = Some i"
  shows "admitted p i (snd (swap_in_page e p a pa))"
proof -
  obtain p1 where g: "get_page_info_dp p a = (Some i, p1)"
    using assms(2) by (cases "get_page_info_dp p a") simp
  have n1: "next_fifo_seq p1 = next_fifo_seq p" using get_page_info_dp_next [of p a] g by simp
  show ?thesis
  proof (cases "swapfile p")
    case None
    then show ?thesis using assms(1) by (simp add: swap_in_page_def)
  next
    case (Some ip)
    have ok: "state (pages p1 i) = SWAPPED \<and> \<not> swap_slot (pages p1 i) < 0
        \<and> readi_ret e = int PGSIZE"
      using assms(1) Some g
      by (auto simp: swap_in_page_def Let_def split_beta readi_def split: if_splits)
    then show ?thesis using Some g n1
      by (simp add: swap_in_page_def Let_def split_beta readi_def admitted_def)
  qed
qed

lemma mappages_fst: "fst (mappages e a pa pm p) = (if mappages_ret e < 0 then mappages_ret e else 0)"
  by (simp add: mappages_def)

lemma option_case_const: "(case x of None \<Rightarrow> c | Some y \<Rightarrow> c) = c"
  by (cases x) simp_all

lemma lazy_swap_in_admitted:
  assumes "fst (lazy_swap_in e p i a acc) = 0"
  shows "admitted p i (snd (lazy_swap_in e p i a acc))"
proof -
  have ok: "fst (fault_frame_lazy e (printf (PAGEFAULT a acc Cause_swap) p)) \<noteq> 0 \<and> \<not> mappages_ret e < 0"
    using assms
    by (auto simp: lazy_swap_in_def Let_def split_beta mappages_fst split: if_splits)
  then show ?thesis
    by (simp add: lazy_swap_in_def Let_def split_beta admitted_def mappages_fst
        option.case_distrib [of next_fifo_seq] option.case_distrib [of pages]
        if_distrib [of next_fifo_seq] if_distrib [of pages] option_case_const
        cong: option.case_cong if_cong)
qed

lemma get_page_info_lazy_indep: "get_page_info_lazy p a = get_page_info_lazy q a"
  by (simp add: get_page_info_lazy_def)

lemma lazy_handle_fault_admitted:
  assumes "fst (lazy_handle_fault e p a0 w) = 0"
    and "get_page_info_lazy p (PGROUNDDOWN a0) = Some i"
  shows "admitted p i (snd (lazy_handle_fault e p a0 w))"
proof -
  define a where "a = PGROUNDDOWN a0"
  have gi: "get_page_info_lazy q a = Some i" for q :: "uint64 proc"
    using assms(2) get_page_info_lazy_indep [of q a p] by (simp add: a_def)
  have nm: "\<not> ismapped p a"
    using assms(1) by (auto simp: lazy_handle_fault_def a_def Let_def split: if_splits)
  show ?thesis
  proof (cases "state (pages p i) = SWAPPED")
    case True
    then show ?thesis
      using nm gi assms(1) lazy_swap_in_admitted [of e p i a "if w then Acc_write else Acc_read"]
      by (simp add: lazy_handle_fault_def a_def [symmetric] Let_def)
  next
    case ns: False
    define cause where "cause = fst (fault_cause_lazy e p a)"
    have ok: "snd (fault_cause_lazy e p a)
        \<and> fst (fault_frame_lazy e (printf (PAGEFAULT a (if w then Acc_write else Acc_read) cause) p)) \<noteq> 0
        \<and> \<not> mappages_ret e < 0"
      using assms(1) nm ns gi unfolding cause_def
      by (auto simp: lazy_handle_fault_def a_def [symmetric] Let_def split_beta mappages_fst
          split: if_splits)
    show ?thesis
      using ok nm ns gi unfolding cause_def
      by (simp add: lazy_handle_fault_def a_def [symmetric] Let_def split_beta mappages_fst
          admitted_def)
  qed
qed

lemmas boot_eval = kexec_layout_def demand_paging_init_def lazy_init_def proc0_def env0_def env1_def
  PGROUNDUP_def

lemma dp_boot_next: "next_fifo_seq dp_boot = 0"
  by (simp add: dp_boot_def boot_eval)

lemma dp_one_page_fields:
  "next_fifo_seq dp_one_page = 1"
  "state (pages dp_one_page 0) = RESIDENT"
  by (simp_all add: dp_one_page_def dp_boot_def boot_eval dp_eval)

lemma dp_two_pages_fields:
  "state (pages dp_two_pages 0) = RESIDENT"
  "state (pages dp_two_pages 1) = RESIDENT"
  by (simp_all add: dp_two_pages_def dp_one_page_def dp_boot_def boot_eval dp_eval)

lemma lazy_boot_next: "next_fifo_seq lazy_boot = 0"
  by (simp add: lazy_boot_def boot_eval)

lemma lazy_boot_fault: "fst (lazy_handle_fault env0 lazy_boot 0x4000 True) = 0"
  "get_page_info_lazy lazy_boot 0x4000 = Some 4"
  by (simp_all add: lazy_boot_def boot_eval lazy_eval)

lemma lazy_one_page_fields:
  "next_fifo_seq lazy_one_page = 1"
  by (simp_all add: lazy_one_page_def lazy_boot_def boot_eval lazy_eval)

lemma lazy_two_pages_fields:
  "state (pages lazy_two_pages 4) = RESIDENT"
  "state (pages lazy_two_pages 5) = RESIDENT"
  by (simp_all add: lazy_two_pages_def lazy_one_page_def lazy_boot_def boot_eval lazy_eval)

lemma dp_swapped_swap_in:
  "next_fifo_seq dp_swapped = 1"
  "fst (swap_in_page env0 dp_swapped 0x4000 0x87000000) = 0"
  "fst (get_page_info_dp dp_swapped 0x4000) = Some 0"
  by (simp_all add: dp_swapped_def dp_image_def proc0_def env0_def dp_eval)

text \<open>
  The counter after \<open>n + 1\<close> calls of \<^verbatim>\<open>exec\<close>: the stack page has the number \<open>n\<close>, and the counter
  is \<open>int_incr n\<close>.
\<close>

lemma kexec_stack_dp_first:
  "num_pages (kexec_stack_dp 0x4000 (demand_paging_init proc0)) = 1"
  "va (pages (kexec_stack_dp 0x4000 (demand_paging_init proc0)) 0) = 0x4000"
  "state (pages (kexec_stack_dp 0x4000 (demand_paging_init proc0)) 0) = RESIDENT"
  "seq (pages (kexec_stack_dp 0x4000 (demand_paging_init proc0)) 0) = 0"
  "next_fifo_seq (kexec_stack_dp 0x4000 (demand_paging_init proc0)) = 1"
  by (simp_all add: kexec_stack_dp_def kexec_track_def get_page_info_dp_def find_page.simps
      demand_paging_init_def proc0_def MAX_PROC_PAGES_def Let_def int_incr_def INT_MAX_def)

lemma kexec_stack_dp_again:
  "num_pages p = 1 \<Longrightarrow> va (pages p 0) = 0x4000 \<Longrightarrow> kexec_stack_dp 0x4000 p = kexec_track 0 p"
  by (simp add: kexec_stack_dp_def get_page_info_dp_def find_page.simps Let_def)

lemma kexec_stack_dp_iter:
  "num_pages ((kexec_stack_dp 0x4000 ^^ Suc n) (demand_paging_init proc0)) = 1
   \<and> va (pages ((kexec_stack_dp 0x4000 ^^ Suc n) (demand_paging_init proc0)) 0) = 0x4000
   \<and> state (pages ((kexec_stack_dp 0x4000 ^^ Suc n) (demand_paging_init proc0)) 0) = RESIDENT
   \<and> (n \<le> 2147483647 \<longrightarrow>
        seq (pages ((kexec_stack_dp 0x4000 ^^ Suc n) (demand_paging_init proc0)) 0) = int n
        \<and> next_fifo_seq ((kexec_stack_dp 0x4000 ^^ Suc n) (demand_paging_init proc0))
            = int_incr (int n))"
proof (induction n)
  case 0
  show ?case
    by (simp add: kexec_stack_dp_first int_incr_def INT_MAX_def)
next
  case (Suc n)
  let ?p = "(kexec_stack_dp 0x4000 ^^ Suc n) (demand_paging_init proc0)"
  have s: "(kexec_stack_dp 0x4000 ^^ Suc (Suc n)) (demand_paging_init proc0) = kexec_track 0 ?p"
    using Suc.IH kexec_stack_dp_again [of ?p] by simp
  have "int_incr (int n) = int (Suc n)" if "Suc n \<le> 2147483647"
    using that by (simp add: int_incr_def INT_MAX_def)
  then show ?case
    unfolding s using Suc.IH by (simp add: kexec_track_def)
qed

lemma kexec_stack_dp_reachable:
  "reachable_dp n ((kexec_stack_dp a ^^ n) (demand_paging_init p))"
  by (induction n) (simp_all add: reachable_dp.dp_init reachable_dp.dp_exec_stack)

lemma kexec_stack_lazy_track: "kexec_stack_lazy 0x4000 p = kexec_track 4 p"
  by (simp add: kexec_stack_lazy_def get_page_info_lazy_def PGSIZE_def MAX_PROC_PAGES_def)

lemma kexec_stack_lazy_iter:
  "state (pages ((kexec_stack_lazy 0x4000 ^^ Suc n) (lazy_init proc0)) 4) = RESIDENT
   \<and> (n \<le> 2147483647 \<longrightarrow>
        seq (pages ((kexec_stack_lazy 0x4000 ^^ Suc n) (lazy_init proc0)) 4) = int n
        \<and> next_fifo_seq ((kexec_stack_lazy 0x4000 ^^ Suc n) (lazy_init proc0))
            = int_incr (int n))"
proof (induction n)
  case 0
  show ?case
    by (simp add: kexec_stack_lazy_track kexec_track_def lazy_init_def)
next
  case (Suc n)
  let ?p = "(kexec_stack_lazy 0x4000 ^^ Suc n) (lazy_init proc0)"
  have s: "(kexec_stack_lazy 0x4000 ^^ Suc (Suc n)) (lazy_init proc0) = kexec_track 4 ?p"
    by (simp add: kexec_stack_lazy_track)
  have "int_incr (int n) = int (Suc n)" if "Suc n \<le> 2147483647"
    using that by (simp add: int_incr_def INT_MAX_def)
  then show ?case
    unfolding s using Suc.IH by (simp add: kexec_track_def)
qed

lemma kexec_stack_lazy_reachable:
  "reachable_lazy n ((kexec_stack_lazy a ^^ n) (lazy_init p))"
  by (induction n) (simp_all add: reachable_lazy.lazy_init reachable_lazy.lazy_exec_stack)

lemma dp_wrapped_fields:
  "reachable_dp 2147483648 dp_wrapped"
  "state (pages dp_wrapped 0) = RESIDENT"
  "seq (pages dp_wrapped 0) = 2147483647"
  "next_fifo_seq dp_wrapped = - 2147483648"
proof -
  have e: "(2147483648 :: nat) = Suc 2147483647" by simp
  show "reachable_dp 2147483648 dp_wrapped"
    unfolding dp_wrapped_def by (rule kexec_stack_dp_reachable)
  show "state (pages dp_wrapped 0) = RESIDENT" "seq (pages dp_wrapped 0) = 2147483647"
    "next_fifo_seq dp_wrapped = - 2147483648"
    unfolding dp_wrapped_def e using kexec_stack_dp_iter [of 2147483647]
    by (simp_all add: int_incr_def INT_MAX_def del: funpow.simps)
qed

lemma lazy_wrapped_fields:
  "reachable_lazy 2147483648 lazy_wrapped"
  "state (pages lazy_wrapped 4) = RESIDENT"
  "seq (pages lazy_wrapped 4) = 2147483647"
  "next_fifo_seq lazy_wrapped = - 2147483648"
proof -
  have e: "(2147483648 :: nat) = Suc 2147483647" by simp
  show "reachable_lazy 2147483648 lazy_wrapped"
    unfolding lazy_wrapped_def by (rule kexec_stack_lazy_reachable)
  show "state (pages lazy_wrapped 4) = RESIDENT" "seq (pages lazy_wrapped 4) = 2147483647"
    "next_fifo_seq lazy_wrapped = - 2147483648"
    unfolding lazy_wrapped_def e using kexec_stack_lazy_iter [of 2147483647]
    by (simp_all add: int_incr_def INT_MAX_def del: funpow.simps)
qed

lemma I4_broken:
  "i < MAX_PROC_PAGES \<Longrightarrow> state (pages p i) = RESIDENT \<Longrightarrow> next_fifo_seq p \<le> seq (pages p i)
   \<Longrightarrow> \<not> I4 p"
  unfolding I4_def by (metis not_less)

lemma dp_last_fault:
  "I4 dp_last"
  "next_fifo_seq dp_last = 2147483647"
  "fst (handle_page_fault env0 dp_last 0x4000 False) = 0"
  "state (pages (snd (handle_page_fault env0 dp_last 0x4000 False)) 0) = RESIDENT"
  "seq (pages (snd (handle_page_fault env0 dp_last 0x4000 False)) 0) = 2147483647"
  "next_fifo_seq (snd (handle_page_fault env0 dp_last 0x4000 False)) = - 2147483648"
  by (simp_all add: I4_def dp_last_def dp_boot_def boot_eval dp_eval)

section \<open>The swap slots of \<^verbatim>\<open>lazy.c\<close> stay consistent\<close>

lemma slots_ok_neutral:
  assumes "slots_ok q"
    and "swap_slot_bitmap q' = swap_slot_bitmap q"
    and "num_swapped_pages q' = num_swapped_pages q"
    and "\<And>i. state (pages q' i) = SWAPPED \<Longrightarrow>
           state (pages q i) = SWAPPED \<and> swap_slot (pages q' i) = swap_slot (pages q i)"
  shows "slots_ok q'"
  using assms(1) unfolding slots_ok_def assms(2,3)
  by (intro conjI allI impI) (metis assms(4))+

lemma slots_ok_swap_out:
  assumes ok: "slots_ok q"
    and k: "k < MAX_SWAP_SLOTS" "\<not> slot_used_lazy (swap_slot_bitmap q) k"
    and bm: "swap_slot_bitmap q' = (swap_slot_bitmap q)
               (k div 64 := swap_slot_bitmap q (k div 64) OR push_bit (k mod 64) 1)"
    and n: "num_swapped_pages q' = num_swapped_pages q + 1"
    and v: "swap_slot (pages q' v) = int k"
    and others: "\<And>i. i \<noteq> v \<Longrightarrow> pages q' i = pages q i"
  shows "slots_ok q'"
proof -
  have u: "slot_used_lazy (swap_slot_bitmap q') j = (j = k \<or> slot_used_lazy (swap_slot_bitmap q) j)" for j
    unfolding bm by (simp only: slot_used_lazy_set)
  have "{s. s < MAX_SWAP_SLOTS \<and> slot_used_lazy (swap_slot_bitmap q') s}
        = insert k {s. s < MAX_SWAP_SLOTS \<and> slot_used_lazy (swap_slot_bitmap q) s}"
    using k(1) by (auto simp: u)
  then have c: "card {s. s < MAX_SWAP_SLOTS \<and> slot_used_lazy (swap_slot_bitmap q') s}
        = card {s. s < MAX_SWAP_SLOTS \<and> slot_used_lazy (swap_slot_bitmap q) s} + 1"
    using k(2) by simp
  from ok have a: "num_swapped_pages q
        = int (card {s. s < MAX_SWAP_SLOTS \<and> slot_used_lazy (swap_slot_bitmap q) s})"
    and b: "\<And>i. i < MAX_PROC_PAGES \<Longrightarrow> state (pages q i) = SWAPPED \<Longrightarrow>
             0 \<le> swap_slot (pages q i) \<and> swap_slot (pages q i) < int MAX_SWAP_SLOTS
             \<and> slot_used_lazy (swap_slot_bitmap q) (nat (swap_slot (pages q i)))"
    and d: "\<And>i j. i < MAX_PROC_PAGES \<Longrightarrow> j < MAX_PROC_PAGES \<Longrightarrow> i \<noteq> j
             \<Longrightarrow> state (pages q i) = SWAPPED \<Longrightarrow> state (pages q j) = SWAPPED
             \<Longrightarrow> swap_slot (pages q i) \<noteq> swap_slot (pages q j)"
    unfolding slots_ok_def by blast+
  have a': "num_swapped_pages q'
        = int (card {s. s < MAX_SWAP_SLOTS \<and> slot_used_lazy (swap_slot_bitmap q') s})"
    using a c n by simp
  have b': "0 \<le> swap_slot (pages q' i) \<and> swap_slot (pages q' i) < int MAX_SWAP_SLOTS
             \<and> slot_used_lazy (swap_slot_bitmap q') (nat (swap_slot (pages q' i)))"
    if "i < MAX_PROC_PAGES" "state (pages q' i) = SWAPPED" for i
  proof (cases "i = v")
    case True
    then show ?thesis using v k(1) by (simp add: u)
  next
    case False
    then show ?thesis using b [OF that(1)] that(2) others [OF False] by (simp add: u)
  qed
  have off: "swap_slot (pages q i) \<noteq> int k" if "i < MAX_PROC_PAGES" "state (pages q i) = SWAPPED" for i
    using b [OF that] k(2) by (metis nat_int)
  have d': "swap_slot (pages q' i) \<noteq> swap_slot (pages q' j)"
    if "i < MAX_PROC_PAGES" "j < MAX_PROC_PAGES" "i \<noteq> j"
       "state (pages q' i) = SWAPPED" "state (pages q' j) = SWAPPED" for i j
  proof (cases "i = v")
    case True
    then have "j \<noteq> v" using that(3) by simp
    then show ?thesis using True v others [of j] off [OF that(2)] that(5) by simp
  next
    case iv: False
    show ?thesis
    proof (cases "j = v")
      case True
      then show ?thesis using v others [OF iv] off [OF that(1)] that(4) by simp
    next
      case False
      then show ?thesis using d [OF that(1,2,3)] others [OF iv] others [OF False] that(4,5) by simp
    qed
  qed
  show ?thesis unfolding slots_ok_def using a' b' d' by blast
qed

lemma slots_ok_swap_in:
  assumes ok: "slots_ok q"
    and v: "v < MAX_PROC_PAGES" "state (pages q v) = SWAPPED"
    and bm: "swap_slot_bitmap q' = (swap_slot_bitmap q)
               (nat (swap_slot (pages q v)) div 64 :=
                  swap_slot_bitmap q (nat (swap_slot (pages q v)) div 64)
                    AND NOT (push_bit (nat (swap_slot (pages q v)) mod 64) 1))"
    and n: "num_swapped_pages q' = num_swapped_pages q - 1"
    and v': "state (pages q' v) \<noteq> SWAPPED"
    and others: "\<And>i. i \<noteq> v \<Longrightarrow> pages q' i = pages q i"
  shows "slots_ok q'"
proof -
  define k where "k = nat (swap_slot (pages q v))"
  from ok have a: "num_swapped_pages q
        = int (card {s. s < MAX_SWAP_SLOTS \<and> slot_used_lazy (swap_slot_bitmap q) s})"
    and b: "\<And>i. i < MAX_PROC_PAGES \<Longrightarrow> state (pages q i) = SWAPPED \<Longrightarrow>
             0 \<le> swap_slot (pages q i) \<and> swap_slot (pages q i) < int MAX_SWAP_SLOTS
             \<and> slot_used_lazy (swap_slot_bitmap q) (nat (swap_slot (pages q i)))"
    and d: "\<And>i j. i < MAX_PROC_PAGES \<Longrightarrow> j < MAX_PROC_PAGES \<Longrightarrow> i \<noteq> j
             \<Longrightarrow> state (pages q i) = SWAPPED \<Longrightarrow> state (pages q j) = SWAPPED
             \<Longrightarrow> swap_slot (pages q i) \<noteq> swap_slot (pages q j)"
    unfolding slots_ok_def by blast+
  have kv: "swap_slot (pages q v) = int k" "k < MAX_SWAP_SLOTS" "slot_used_lazy (swap_slot_bitmap q) k"
    using b [OF v] unfolding k_def by auto
  have u: "slot_used_lazy (swap_slot_bitmap q') j = (j \<noteq> k \<and> slot_used_lazy (swap_slot_bitmap q) j)" for j
    unfolding bm k_def [symmetric] by (simp only: slot_used_lazy_clear)
  have "{s. s < MAX_SWAP_SLOTS \<and> slot_used_lazy (swap_slot_bitmap q') s}
        = {s. s < MAX_SWAP_SLOTS \<and> slot_used_lazy (swap_slot_bitmap q) s} - {k}"
    by (auto simp: u)
  then have c: "card {s. s < MAX_SWAP_SLOTS \<and> slot_used_lazy (swap_slot_bitmap q') s}
        = card {s. s < MAX_SWAP_SLOTS \<and> slot_used_lazy (swap_slot_bitmap q) s} - 1"
    using kv(2,3) by simp
  have pos: "0 < card {s. s < MAX_SWAP_SLOTS \<and> slot_used_lazy (swap_slot_bitmap q) s}"
    using kv(2,3) by (auto simp: card_gt_0_iff)
  have a': "num_swapped_pages q'
        = int (card {s. s < MAX_SWAP_SLOTS \<and> slot_used_lazy (swap_slot_bitmap q') s})"
    using a c n pos by simp
  have b': "0 \<le> swap_slot (pages q' i) \<and> swap_slot (pages q' i) < int MAX_SWAP_SLOTS
             \<and> slot_used_lazy (swap_slot_bitmap q') (nat (swap_slot (pages q' i)))"
    if "i < MAX_PROC_PAGES" "state (pages q' i) = SWAPPED" for i
  proof -
    have iv: "i \<noteq> v" using that(2) v' by auto
    have s: "state (pages q i) = SWAPPED" using that(2) others [OF iv] by simp
    have "swap_slot (pages q i) \<noteq> int k" using d [OF that(1) v(1) iv s v(2)] kv(1) by simp
    then have "nat (swap_slot (pages q i)) \<noteq> k" using b [OF that(1) s] by auto
    then show ?thesis using b [OF that(1) s] others [OF iv] by (simp add: u)
  qed
  have d': "swap_slot (pages q' i) \<noteq> swap_slot (pages q' j)"
    if "i < MAX_PROC_PAGES" "j < MAX_PROC_PAGES" "i \<noteq> j"
       "state (pages q' i) = SWAPPED" "state (pages q' j) = SWAPPED" for i j
  proof -
    have iv: "i \<noteq> v" and jv: "j \<noteq> v" using that(4,5) v' by auto
    show ?thesis using d [OF that(1,2,3)] others [OF iv] others [OF jv] that(4,5) by simp
  qed
  show ?thesis unfolding slots_ok_def using a' b' d' by blast
qed

lemma slots_ok_room:
  assumes "slots_ok q" and "k < MAX_SWAP_SLOTS" and "\<not> slot_used_lazy (swap_slot_bitmap q) k"
  shows "num_swapped_pages q < int MAX_SWAP_SLOTS"
proof -
  have "{s. s < MAX_SWAP_SLOTS \<and> slot_used_lazy (swap_slot_bitmap q) s} \<subseteq> {..<MAX_SWAP_SLOTS} - {k}"
    using assms(3) by auto
  then have "card {s. s < MAX_SWAP_SLOTS \<and> slot_used_lazy (swap_slot_bitmap q) s}
        \<le> card ({..<MAX_SWAP_SLOTS} - {k})"
    by (intro card_mono) simp_all
  also have "\<dots> = MAX_SWAP_SLOTS - 1" using assms(2) by simp
  finally show ?thesis using assms(1,2) unfolding slots_ok_def by simp
qed

lemma lazy_victim_scan_resident:
  "lazy_victim_scan pg i v m = Some k
   \<Longrightarrow> (\<And>x. v = Some x \<Longrightarrow> x < MAX_PROC_PAGES \<and> state (pg x) = RESIDENT)
   \<Longrightarrow> k < MAX_PROC_PAGES \<and> state (pg k) = RESIDENT"
proof (induction pg i v m rule: lazy_victim_scan.induct)
  case (1 pg i victim_idx min_seq)
  show ?case
  proof (cases "i < MAX_PROC_PAGES")
    case False
    then show ?thesis using "1.prems" by (simp add: lazy_victim_scan.simps [of pg i])
  next
    case True
    show ?thesis
    proof (cases "state (pg i) = RESIDENT \<and> to_uint32 (seq (pg i)) < min_seq")
      case t: True
      have "lazy_victim_scan pg (i + 1) (Some i) (to_uint32 (seq (pg i))) = Some k"
        using "1.prems"(1) True t by (simp add: lazy_victim_scan.simps [of pg i])
      then show ?thesis
        by (rule "1.IH"(1) [OF True t]) (use True t in simp)
    next
      case f: False
      have "lazy_victim_scan pg (i + 1) victim_idx min_seq = Some k"
        using "1.prems"(1) True f by (simp add: lazy_victim_scan.simps [of pg i])
      then show ?thesis
        by (rule "1.IH"(2) [OF True f]) (use "1.prems"(2) in simp)
    qed
  qed
qed

lemma slot_fields [simp]:
  "swap_slot_bitmap (printf ev p) = swap_slot_bitmap p" "num_swapped_pages (printf ev p) = num_swapped_pages p"
  "swap_slot_bitmap (fs c p) = swap_slot_bitmap p" "num_swapped_pages (fs c p) = num_swapped_pages p"
  "swap_slot_bitmap (kfree pa p) = swap_slot_bitmap p" "num_swapped_pages (kfree pa p) = num_swapped_pages p"
  "swap_slot_bitmap (memset_page pa p) = swap_slot_bitmap p"
  "num_swapped_pages (memset_page pa p) = num_swapped_pages p"
  "swap_slot_bitmap (setkilled p) = swap_slot_bitmap p" "num_swapped_pages (setkilled p) = num_swapped_pages p"
  "swap_slot_bitmap (snd (mappages e a pa pm p)) = swap_slot_bitmap p"
  "num_swapped_pages (snd (mappages e a pa pm p)) = num_swapped_pages p"
  "swap_slot_bitmap (snd (readi e ip pa off n p)) = swap_slot_bitmap p"
  "num_swapped_pages (snd (readi e ip pa off n p)) = num_swapped_pages p"
  "swap_slot_bitmap (snd (writei e ip pa off n p)) = swap_slot_bitmap p"
  "num_swapped_pages (snd (writei e ip pa off n p)) = num_swapped_pages p"
  by (simp_all add: printf_def fs_def kfree_def memset_page_def setkilled_def
      mappages_def readi_def writei_def)

lemma slot_fields_create [simp]:
  "swap_slot_bitmap (snd (create_swap_file_lazy e p)) = swap_slot_bitmap p"
  "num_swapped_pages (snd (create_swap_file_lazy e p)) = num_swapped_pages p"
  by (simp_all add: create_swap_file_lazy_def Let_def split: option.splits)

lemma slot_fields_load [simp]:
  "swap_slot_bitmap (load_exec_lazy e p a mem) = swap_slot_bitmap p"
  "num_swapped_pages (load_exec_lazy e p a mem) = num_swapped_pages p"
  by (simp_all add: load_exec_lazy_def Let_def split: option.splits)

text \<open>What an eviction does to the slots and the descriptors: nothing, a discard, or a swap-out.\<close>

lemma lazy_evict_page_slots_cases:
  fixes q :: "uint64 proc" and e :: env
  defines "q' \<equiv> snd (lazy_evict_page e q)"
  shows "(swap_slot_bitmap q' = swap_slot_bitmap q \<and> num_swapped_pages q' = num_swapped_pages q
            \<and> pages q' = pages q)
         \<or> (\<exists>v. v < MAX_PROC_PAGES \<and> state (pages q v) = RESIDENT
              \<and> swap_slot_bitmap q' = swap_slot_bitmap q \<and> num_swapped_pages q' = num_swapped_pages q
              \<and> pages q' = (pages q)(v := (pages q v)\<lparr>state := UNMAPPED, swap_slot := - 1\<rparr>))
         \<or> (\<exists>v k. v < MAX_PROC_PAGES \<and> state (pages q v) = RESIDENT
              \<and> k < MAX_SWAP_SLOTS \<and> \<not> slot_used_lazy (swap_slot_bitmap q) k
              \<and> swap_slot_bitmap q' = (swap_slot_bitmap q)
                   (k div 64 := swap_slot_bitmap q (k div 64) OR push_bit (k mod 64) 1)
              \<and> num_swapped_pages q' = num_swapped_pages q + 1
              \<and> pages q' = (pages q)(v := (pages q v)\<lparr>state := SWAPPED, swap_slot := int k\<rparr>))"
proof (cases "lazy_victim_scan (pages q) 0 None 4294967295")
  case None
  then show ?thesis unfolding q'_def by (simp add: lazy_evict_page_def)
next
  case (Some v)
  have v: "v < MAX_PROC_PAGES \<and> state (pages q v) = RESIDENT"
    using lazy_victim_scan_resident [OF Some] by simp
  let ?a = "va (pages q v)"
  let ?q1 = "printf (VICTIM ?a (seq (pages q v))) q"
  show ?thesis
  proof (cases "is_dirty (pages q v) \<or> \<not> (text_start q \<le> ?a \<and> ?a < text_end q)")
    case False
    then have "pages q' = (pages q)(v := (pages q v)\<lparr>state := UNMAPPED, swap_slot := - 1\<rparr>)"
      "swap_slot_bitmap q' = swap_slot_bitmap q" "num_swapped_pages q' = num_swapped_pages q"
      unfolding q'_def by (simp_all add: lazy_evict_page_def Some Let_def printf_def)
    with v show ?thesis by blast
  next
    case sw: True
    then have cond: "is_dirty (pages ?q1 v) \<or> \<not> (text_start ?q1 \<le> ?a \<and> ?a < text_end ?q1)"
      by (simp add: printf_def)
    define c where "c = fst (if swapfile_inode ?q1 = None then create_swap_file_lazy e ?q1 else (0, ?q1))"
    define q2 where "q2 = snd (if swapfile_inode ?q1 = None then create_swap_file_lazy e ?q1 else (0, ?q1))"
    have cq: "(if swapfile_inode ?q1 = None then create_swap_file_lazy e ?q1 else (0, ?q1)) = (c, q2)"
      by (simp add: c_def q2_def)
    have q2: "pages q2 = pages q" "swap_slot_bitmap q2 = swap_slot_bitmap q"
      "num_swapped_pages q2 = num_swapped_pages q"
      unfolding q2_def by simp_all
    show ?thesis
    proof (cases "c = 0")
      case False
      then have "q' = setkilled (printf KILL_swap_exhausted q2)"
        unfolding q'_def
        by (simp only: lazy_evict_page_def Some option.case Let_def cond if_True cq prod.case) simp
      then show ?thesis using q2 by simp
    next
      case c0: True
      obtain slot q3 where al: "alloc_swap_slot_lazy q2 = (slot, q3)" by fastforce
      show ?thesis
      proof (cases "slot < 0")
        case True
        then have "q' = setkilled (printf KILL_swap_exhausted q3)"
          unfolding q'_def
          by (simp only: lazy_evict_page_def Some option.case Let_def cond if_True cq prod.case c0 al)
             simp
        moreover have "q3 = q2" using alloc_swap_slot_lazy_cases [OF al] True by auto
        ultimately show ?thesis using q2 by simp
      next
        case False
        with alloc_swap_slot_lazy_cases [OF al] obtain k where
          k: "slot = int k" "k < 1024" "\<not> slot_used_lazy (swap_slot_bitmap q2) k"
          and q3: "q3 = q2\<lparr>swap_slot_bitmap := (swap_slot_bitmap q2)
                  (k div 64 := swap_slot_bitmap q2 (k div 64) OR push_bit (k mod 64) 1)\<rparr>"
          by auto
        define q4 where "q4 = (if walkaddr q3 ?a \<noteq> 0 then
                                 (case swapfile_inode q3 of
                                    None \<Rightarrow> q3
                                  | Some ip \<Rightarrow>
                                      printf (SWAPOUT ?a slot)
                                        (fs (Iunlock ip)
                                          (snd (writei e ip (walkaddr q3 ?a) (nat slot * PGSIZE) PGSIZE
                                                 (fs (Ilock ip) q3)))))
                               else q3)"
        have q4: "pages q4 = pages q3" "swap_slot_bitmap q4 = swap_slot_bitmap q3"
          "num_swapped_pages q4 = num_swapped_pages q3"
          unfolding q4_def by (simp_all split: option.splits)
        have "q' = printf (EVICT ?a) (uvmunmap ?a PGSIZE True
                     (q4\<lparr>pages := (pages q4)(v := (pages q4 v)\<lparr>state := SWAPPED, swap_slot := slot\<rparr>),
                         num_swapped_pages := num_swapped_pages q4 + 1\<rparr>))"
          unfolding q'_def q4_def using False
          by (simp only: lazy_evict_page_def Some option.case Let_def cond if_True cq prod.case c0 al)
             (simp add: printf_def)
        then have "swap_slot_bitmap q' = (swap_slot_bitmap q)
                   (k div 64 := swap_slot_bitmap q (k div 64) OR push_bit (k mod 64) 1)"
          "num_swapped_pages q' = num_swapped_pages q + 1"
          "pages q' = (pages q)(v := (pages q v)\<lparr>state := SWAPPED, swap_slot := int k\<rparr>)"
          using q4 q2 k(1) by (simp_all add: q3 del: push_bit_eq_mult)
        with v k q2 show ?thesis by (auto simp: MAX_SWAP_SLOTS_def)
      qed
    qed
  qed
qed

lemma lazy_evict_page_slots_ok:
  assumes "slots_ok q"
  shows "slots_ok (snd (lazy_evict_page e q))"
    and "state (pages q j) = SWAPPED \<Longrightarrow> pages (snd (lazy_evict_page e q)) j = pages q j"
proof -
  define q' where "q' = snd (lazy_evict_page e q)"
  note c = lazy_evict_page_slots_cases [of e q, folded q'_def]
  from c consider
      (same) "swap_slot_bitmap q' = swap_slot_bitmap q" "num_swapped_pages q' = num_swapped_pages q"
        "pages q' = pages q"
    | (discard) v where "state (pages q v) = RESIDENT"
        "swap_slot_bitmap q' = swap_slot_bitmap q" "num_swapped_pages q' = num_swapped_pages q"
        "pages q' = (pages q)(v := (pages q v)\<lparr>state := UNMAPPED, swap_slot := - 1\<rparr>)"
    | (swap) v k where "state (pages q v) = RESIDENT"
        "k < MAX_SWAP_SLOTS" "\<not> slot_used_lazy (swap_slot_bitmap q) k"
        "swap_slot_bitmap q' = (swap_slot_bitmap q)
                   (k div 64 := swap_slot_bitmap q (k div 64) OR push_bit (k mod 64) 1)"
        "num_swapped_pages q' = num_swapped_pages q + 1"
        "pages q' = (pages q)(v := (pages q v)\<lparr>state := SWAPPED, swap_slot := int k\<rparr>)"
    by blast
  then have "slots_ok q' \<and> (state (pages q j) = SWAPPED \<longrightarrow> pages q' j = pages q j)"
  proof cases
    case same
    have "slots_ok q'" using assms same(1,2) by (rule slots_ok_neutral) (simp add: same(3))
    then show ?thesis by (simp add: same(3))
  next
    case discard
    have "slots_ok q'" using assms discard(2,3)
    proof (rule slots_ok_neutral)
      fix i assume "state (pages q' i) = SWAPPED"
      then show "state (pages q i) = SWAPPED \<and> swap_slot (pages q' i) = swap_slot (pages q i)"
        unfolding discard(4) by (cases "i = v") simp_all
    qed
    moreover have "pages q' j = pages q j" if "state (pages q j) = SWAPPED"
      using that discard(1) unfolding discard(4) by (cases "j = v") simp_all
    ultimately show ?thesis by simp
  next
    case swap
    have "slots_ok q'" using assms swap(2,3,4,5)
    proof (rule slots_ok_swap_out)
      show "swap_slot (pages q' v) = int k" unfolding swap(6) by simp
      show "pages q' i = pages q i" if "i \<noteq> v" for i using that unfolding swap(6) by simp
    qed
    moreover have "pages q' j = pages q j" if "state (pages q j) = SWAPPED"
      using that swap(1) unfolding swap(6) by (cases "j = v") simp_all
    ultimately show ?thesis by simp
  qed
  then show "slots_ok (snd (lazy_evict_page e q))"
    and "state (pages q j) = SWAPPED \<Longrightarrow> pages (snd (lazy_evict_page e q)) j = pages q j"
    unfolding q'_def by simp_all
qed

lemma fault_frame_lazy_slots_ok:
  assumes "slots_ok q"
  shows "slots_ok (snd (fault_frame_lazy e q))"
    and "state (pages q j) = SWAPPED \<Longrightarrow> pages (snd (fault_frame_lazy e q)) j = pages q j"
proof -
  let ?q1 = "snd (lazy_evict_page e q)"
  have k: "slots_ok (setkilled (printf MEMFULL ?q1))"
    using lazy_evict_page_slots_ok(1) [OF assms, of e]
    by (rule slots_ok_neutral) simp_all
  show "slots_ok (snd (fault_frame_lazy e q))"
    using assms lazy_evict_page_slots_ok(1) [OF assms, of e] k
    by (simp add: fault_frame_lazy_def Let_def split_beta)
  show "pages (snd (fault_frame_lazy e q)) j = pages q j" if "state (pages q j) = SWAPPED"
    using lazy_evict_page_slots_ok(2) [OF assms that, of e]
    by (simp add: fault_frame_lazy_def Let_def split_beta)
qed

lemma lazy_swap_in_slots_ok:
  assumes ok: "slots_ok p" and i: "i < MAX_PROC_PAGES" and st: "state (pages p i) = SWAPPED"
  shows "slots_ok (snd (lazy_swap_in e p i a acc))"
proof -
  define p0 where "p0 = printf (PAGEFAULT a acc Cause_swap) p"
  define mem where "mem = fst (fault_frame_lazy e p0)"
  define p1 where "p1 = snd (fault_frame_lazy e p0)"
  have ok0: "slots_ok p0" unfolding p0_def using ok by (rule slots_ok_neutral) simp_all
  have st0: "state (pages p0 i) = SWAPPED" unfolding p0_def using st by simp
  have ok1: "slots_ok p1" unfolding p1_def by (rule fault_frame_lazy_slots_ok(1) [OF ok0])
  have pg1: "pages p1 i = pages p i"
    unfolding p1_def using fault_frame_lazy_slots_ok(2) [OF ok0 st0, of e] by (simp add: p0_def)
  have st1: "state (pages p1 i) = SWAPPED" using pg1 st by simp
  from ok1 i st1 have sl: "0 \<le> swap_slot (pages p1 i)" "swap_slot (pages p1 i) < int MAX_SWAP_SLOTS"
    unfolding slots_ok_def by blast+
  define p3 where "p3 = (case swapfile_inode (memset_page mem p1) of
                         None \<Rightarrow> memset_page mem p1
                       | Some ip \<Rightarrow>
                           if swap_slot (pages (memset_page mem p1) i) \<ge> 0 then
                             printf (SWAPIN a (swap_slot (pages (memset_page mem p1) i)))
                               (fs (Iunlock ip)
                                 (snd (readi e ip mem (nat (swap_slot (pages (memset_page mem p1) i)) * PGSIZE) PGSIZE
                                        (fs (Ilock ip) (memset_page mem p1)))))
                           else memset_page mem p1)"
  have f3: "pages p3 = pages p1" "swap_slot_bitmap p3 = swap_slot_bitmap p1"
    "num_swapped_pages p3 = num_swapped_pages p1"
    unfolding p3_def by (simp_all split: option.splits)
  define p4 where "p4 = snd (mappages e a mem (pte_flags_lazy p3 a) p3)"
  have f4: "pages p4 = pages p1" "swap_slot_bitmap p4 = swap_slot_bitmap p1"
    "num_swapped_pages p4 = num_swapped_pages p1"
    unfolding p4_def by (simp_all add: f3)
  have r: "snd (lazy_swap_in e p i a acc) =
        (if mem = 0 then p1
         else if fst (mappages e a mem (pte_flags_lazy p3 a) p3) \<noteq> 0 then setkilled (kfree mem p4)
         else (let old_slot = swap_slot (pages p4 i);
                   p5 = p4\<lparr>pages := (pages p4)(i :=
                             (pages p4 i)\<lparr>state := RESIDENT, seq := next_fifo_seq p4,
                                          swap_slot := - 1\<rparr>),
                           next_fifo_seq := int_incr (next_fifo_seq p4)\<rparr>;
                   p6 = (if old_slot \<ge> 0
                         then (free_swap_slot_lazy p5 old_slot)
                                \<lparr>num_swapped_pages := num_swapped_pages p5 - 1\<rparr>
                         else p5)
               in printf (RESIDENT_seq a (seq (pages p6 i))) p6))"
    unfolding lazy_swap_in_def p4_def p3_def p1_def mem_def p0_def
    by (simp add: split_beta Let_def)
  show ?thesis
  proof (cases "mem = 0")
    case True
    then show ?thesis using ok1 by (simp add: r)
  next
    case m: False
    show ?thesis
    proof (cases "fst (mappages e a mem (pte_flags_lazy p3 a) p3) \<noteq> 0")
      case True
      have "slots_ok (setkilled (kfree mem p4))"
        using ok1 by (rule slots_ok_neutral) (simp_all add: f4)
      then show ?thesis using m True by (simp add: r)
    next
      case False
      have lt: "nat (swap_slot (pages p1 i)) div 64 < 16"
        using sl by (simp add: MAX_SWAP_SLOTS_def)
      show ?thesis
        using ok1 i st1
      proof (rule slots_ok_swap_in)
        show "swap_slot_bitmap (snd (lazy_swap_in e p i a acc)) = (swap_slot_bitmap p1)
               (nat (swap_slot (pages p1 i)) div 64 :=
                  swap_slot_bitmap p1 (nat (swap_slot (pages p1 i)) div 64)
                    AND NOT (push_bit (nat (swap_slot (pages p1 i)) mod 64) 1))"
          using m False sl lt
          by (simp add: r Let_def f4 free_swap_slot_lazy_def del: push_bit_eq_mult)
        show "num_swapped_pages (snd (lazy_swap_in e p i a acc)) = num_swapped_pages p1 - 1"
          using m False sl lt
          by (simp add: r Let_def f4 free_swap_slot_lazy_def del: push_bit_eq_mult)
        show "state (pages (snd (lazy_swap_in e p i a acc)) i) \<noteq> SWAPPED"
          using m False sl lt
          by (simp add: r Let_def f4 free_swap_slot_lazy_def del: push_bit_eq_mult)
        show "pages (snd (lazy_swap_in e p i a acc)) j = pages p1 j" if "j \<noteq> i" for j
          using m False sl lt that
          by (simp add: r Let_def f4 free_swap_slot_lazy_def del: push_bit_eq_mult)
      qed
    qed
  qed
qed

lemma get_page_info_lazy_some:
  "get_page_info_lazy p a = Some (unat ((a div of_nat PGSIZE) mod of_nat MAX_PROC_PAGES :: uint64))"
  using page_idx_bound [of a] by (simp add: get_page_info_lazy_def Let_def)

lemma lazy_handle_fault_slots_ok:
  assumes ok: "slots_ok p"
  shows "slots_ok (snd (lazy_handle_fault e p a0 w))"
proof -
  define a where "a = PGROUNDDOWN a0"
  define acc where "acc = (if w then Acc_write else Acc_read)"
  define i where "i = unat ((a div of_nat PGSIZE) mod of_nat MAX_PROC_PAGES :: uint64)"
  have gi: "get_page_info_lazy q a = Some i" for q :: "uint64 proc"
    unfolding i_def by (rule get_page_info_lazy_some)
  have i: "i < MAX_PROC_PAGES" unfolding i_def by (rule page_idx_bound)
  show ?thesis
  proof (cases "ismapped p a")
    case True
    then show ?thesis using ok by (simp add: lazy_handle_fault_def a_def)
  next
    case nm: False
    show ?thesis
    proof (cases "state (pages p i) = SWAPPED")
      case True
      then show ?thesis using nm lazy_swap_in_slots_ok [OF ok i True, of e a acc]
        by (simp add: lazy_handle_fault_def a_def [symmetric] Let_def gi acc_def)
    next
      case ns: False
      define cause where "cause = fst (fault_cause_lazy e p a)"
      define valid where "valid = snd (fault_cause_lazy e p a)"
      show ?thesis
      proof (cases valid)
        case False
        have "slots_ok (printf (PAGEFAULT_invalid a acc) p)"
          using ok by (rule slots_ok_neutral) simp_all
        then show ?thesis using nm ns False
          by (simp add: lazy_handle_fault_def a_def [symmetric] Let_def split_beta
              valid_def gi acc_def)
      next
        case v: True
        define p0 where "p0 = printf (PAGEFAULT a acc cause) p"
        define mem where "mem = fst (fault_frame_lazy e p0)"
        define p1 where "p1 = snd (fault_frame_lazy e p0)"
        have ok0: "slots_ok p0" unfolding p0_def using ok by (rule slots_ok_neutral) simp_all
        have ok1: "slots_ok p1" unfolding p1_def by (rule fault_frame_lazy_slots_ok(1) [OF ok0])
        define p3 where "p3 = (if cause = Cause_exec then load_exec_lazy e (memset_page mem p1) a mem
                               else memset_page mem p1)"
        have f3: "pages p3 = pages p1" "swap_slot_bitmap p3 = swap_slot_bitmap p1"
          "num_swapped_pages p3 = num_swapped_pages p1"
          unfolding p3_def by simp_all
        define p4 where "p4 = snd (mappages e a mem (pte_flags_lazy p3 a) p3)"
        define p5 where "p5 = printf (if cause = Cause_exec then LOADEXEC a else ALLOC a) p4"
        have f5: "pages p5 = pages p1" "swap_slot_bitmap p5 = swap_slot_bitmap p1"
          "num_swapped_pages p5 = num_swapped_pages p1"
          unfolding p5_def p4_def by (simp_all add: f3)
        have f4: "pages p4 = pages p1" "swap_slot_bitmap p4 = swap_slot_bitmap p1"
          "num_swapped_pages p4 = num_swapped_pages p1"
          unfolding p4_def by (simp_all add: f3)
        have r: "snd (lazy_handle_fault e p a0 w) =
            (if mem = 0 then p1
             else if fst (mappages e a mem (pte_flags_lazy p3 a) p3) \<noteq> 0
             then setkilled (kfree mem p4)
             else snd (case get_page_info_lazy p5 a of
                     None \<Rightarrow> (0 :: int, p5)
                   | Some i \<Rightarrow>
                       (let p6 = p5\<lparr>pages := (pages p5)(i :=
                                   \<lparr>va = a, state = RESIDENT, is_dirty = w,
                                    seq = next_fifo_seq p5, swap_slot = - 1\<rparr>),
                                 next_fifo_seq := int_incr (next_fifo_seq p5)\<rparr>
                        in (0, printf (RESIDENT_seq a (seq (pages p6 i))) p6))))"
          using nm ns v
          unfolding lazy_handle_fault_def p5_def p4_def p3_def p1_def mem_def p0_def
            cause_def valid_def acc_def a_def
          by (simp add: split_beta Let_def gi [unfolded a_def])
        show ?thesis
        proof (cases "mem = 0")
          case True
          then show ?thesis using ok1 by (simp add: r)
        next
          case m: False
          show ?thesis
          proof (cases "fst (mappages e a mem (pte_flags_lazy p3 a) p3) \<noteq> 0")
            case True
            have "slots_ok (setkilled (kfree mem p4))"
              using ok1 by (rule slots_ok_neutral) (simp_all add: f4)
            then show ?thesis using m True by (simp add: r)
          next
            case False
            have "slots_ok (snd (lazy_handle_fault e p a0 w))"
              using ok1
            proof (rule slots_ok_neutral)
              show "swap_slot_bitmap (snd (lazy_handle_fault e p a0 w)) = swap_slot_bitmap p1"
                "num_swapped_pages (snd (lazy_handle_fault e p a0 w)) = num_swapped_pages p1"
                using m False by (simp_all add: r gi Let_def f5)
              fix j assume "state (pages (snd (lazy_handle_fault e p a0 w)) j) = SWAPPED"
              then show "state (pages p1 j) = SWAPPED
                  \<and> swap_slot (pages (snd (lazy_handle_fault e p a0 w)) j) = swap_slot (pages p1 j)"
                using m False by (cases "j = i") (simp_all add: r gi Let_def f5)
            qed
            then show ?thesis .
          qed
        qed
      qed
    qed
  qed
qed

lemma delete_swap_file_lazy_fields:
  "pages (delete_swap_file_lazy p) = pages p"
  "swap_slot_bitmap (delete_swap_file_lazy p) = swap_slot_bitmap p"
  "num_swapped_pages (delete_swap_file_lazy p) = num_swapped_pages p"
  by (simp_all add: delete_swap_file_lazy_def Let_def fs_def split: option.splits)

lemma lazy_free_fields:
  "pages (lazy_free p) = pages p"
  "swap_slot_bitmap (lazy_free p) = swap_slot_bitmap p"
  "num_swapped_pages (lazy_free p) = num_swapped_pages p"
  by (simp_all add: lazy_free_def Let_def fs_def printf_def split: option.splits)

lemma kexec_page_lazy_fields:
  "swap_slot_bitmap (kexec_page_lazy ph a p) = swap_slot_bitmap p"
  "num_swapped_pages (kexec_page_lazy ph a p) = num_swapped_pages p"
  "state (pages (kexec_page_lazy ph a p) i) = SWAPPED \<Longrightarrow> pages (kexec_page_lazy ph a p) i = pages p i"
  by (simp_all add: kexec_page_lazy_def kexec_record_def Let_def split: option.splits if_splits)

lemma kexec_stack_lazy_fields:
  "swap_slot_bitmap (kexec_stack_lazy a p) = swap_slot_bitmap p"
  "num_swapped_pages (kexec_stack_lazy a p) = num_swapped_pages p"
  "state (pages (kexec_stack_lazy a p) i) = SWAPPED \<Longrightarrow> pages (kexec_stack_lazy a p) i = pages p i"
  by (simp_all add: kexec_stack_lazy_def kexec_track_def split: option.splits if_splits)

lemma sys_sbrk_lazy_fields:
  assumes "sint t \<noteq> SBRK_EAGER e" and "0 \<le> sint k"
  shows "pages (snd (sys_sbrk e g k t p)) = pages p"
    and "swap_slot_bitmap (snd (sys_sbrk e g k t p)) = swap_slot_bitmap p"
    and "num_swapped_pages (snd (sys_sbrk e g k t p)) = num_swapped_pages p"
  using assms by (simp_all add: sys_sbrk_def Let_def)

lemma reachable_lazy_slots_ok: "reachable_lazy n q \<Longrightarrow> slots_ok q"
proof (induction rule: reachable_lazy.induct)
  case (lazy_init p)
  have "\<not> slot_used_lazy (swap_slot_bitmap (lazy_init p)) s" if "s < MAX_SWAP_SLOTS" for s
  proof -
    have "s div 64 < 32" using that unfolding MAX_SWAP_SLOTS_def by arith
    then show ?thesis by (simp add: lazy_init_def slot_used_lazy_def)
  qed
  then have "{s. s < MAX_SWAP_SLOTS \<and> slot_used_lazy (swap_slot_bitmap (lazy_init p)) s} = {}"
    by blast
  then show ?case
    unfolding slots_ok_def by (simp add: lazy_init_def)
next
  case (lazy_fault n p e a w)
  then show ?case by (simp add: lazy_handle_fault_slots_ok)
next
  case (lazy_evict n p e)
  then show ?case by (simp add: lazy_evict_page_slots_ok(1))
next
  case (lazy_create_swap n p e)
  from lazy_create_swap.IH show ?case
    by (rule slots_ok_neutral) simp_all
next
  case (lazy_delete_swap n p)
  from lazy_delete_swap.IH show ?case
    by (rule slots_ok_neutral)
       (simp_all add: delete_swap_file_lazy_fields)
next
  case (lazy_free_proc n p)
  from lazy_free_proc.IH show ?case
    by (rule slots_ok_neutral)
       (simp_all add: lazy_free_fields)
next
  case (lazy_sbrk n p t e k g)
  from lazy_sbrk.IH show ?case
    by (rule slots_ok_neutral) (simp_all add: sys_sbrk_lazy_fields [OF lazy_sbrk.hyps(2,3)])
next
  case (lazy_exec_clear n p)
  from lazy_exec_clear.IH show ?case
    by (rule slots_ok_neutral) (simp_all add: kexec_clear_def)
next
  case (lazy_exec_page n p ph a)
  from lazy_exec_page.IH show ?case
  proof (rule slots_ok_neutral)
    fix i assume s: "state (pages (kexec_page_lazy ph a p) i) = SWAPPED"
    from kexec_page_lazy_fields(3) [OF s] s
    show "state (pages p i) = SWAPPED \<and> swap_slot (pages (kexec_page_lazy ph a p) i) = swap_slot (pages p i)"
      by simp
  qed (simp_all add: kexec_page_lazy_fields(1,2))
next
  case (lazy_exec_layout n p e ts te ds de sz0)
  from lazy_exec_layout.IH show ?case
    by (rule slots_ok_neutral) (simp_all add: kexec_layout_def)
next
  case (lazy_exec_stack n p a)
  from lazy_exec_stack.IH show ?case
  proof (rule slots_ok_neutral)
    fix i assume s: "state (pages (kexec_stack_lazy a p) i) = SWAPPED"
    from kexec_stack_lazy_fields(3) [OF s] s
    show "state (pages p i) = SWAPPED \<and> swap_slot (pages (kexec_stack_lazy a p) i) = swap_slot (pages p i)"
      by simp
  qed (simp_all add: kexec_stack_lazy_fields(1,2))
qed

lemma reachable_lazy_room:
  assumes "reachable_lazy n q0" and "swap_slot_bitmap q = swap_slot_bitmap q0"
    and "num_swapped_pages q = num_swapped_pages q0"
    and "k < MAX_SWAP_SLOTS" and "\<not> slot_used_lazy (swap_slot_bitmap q) k"
  shows "num_swapped_pages q < int MAX_SWAP_SLOTS"
  using slots_ok_room [OF reachable_lazy_slots_ok [OF assms(1)], of k] assms(2-5) by simp

lemma lazy_one_swapped_slots:
  "swap_slot_bitmap lazy_one_swapped 0 = 1"
  "num_swapped_pages lazy_one_swapped = 1"
  "state (pages lazy_one_swapped 4) = SWAPPED"
  "swap_slot (pages lazy_one_swapped 4) = 0"
  by (simp_all add: lazy_one_swapped_def lazy_one_page_def lazy_boot_def boot_eval lazy_eval)

lemma lazy_one_swapped_reachable: "reachable_lazy 3 lazy_one_swapped"
proof -
  have l0: "reachable_lazy (Suc 0) lazy_boot"
    unfolding lazy_boot_def by (intro reachable_lazy.lazy_exec_layout reachable_lazy.lazy_init)
  have l1: "reachable_lazy (Suc (Suc 0)) lazy_one_page"
    unfolding lazy_one_page_def using l0 by (rule reachable_lazy.lazy_fault)
  have "reachable_lazy (Suc (Suc (Suc 0))) lazy_one_swapped"
    unfolding lazy_one_swapped_def using l1 by (rule reachable_lazy.lazy_evict)
  then show ?thesis by (simp add: numeral_3_eq_3)
qed

section \<open>How the handlers answer a fault\<close>

lemma answered_valid_iff:
  "answered_valid p p' = (\<exists>evs. console p' = console p @ evs \<and> list_all (\<lambda>ev. \<not> invalid_line ev) evs)"
proof
  assume "answered_valid p p'"
  then have "console p' = console p @ drop (length (console p)) (console p')"
    and "list_all (\<lambda>ev. \<not> invalid_line ev) (drop (length (console p)) (console p'))"
    unfolding answered_valid_def by (metis append_take_drop_id)+
  then show "\<exists>evs. console p' = console p @ evs \<and> list_all (\<lambda>ev. \<not> invalid_line ev) evs"
    by blast
next
  assume "\<exists>evs. console p' = console p @ evs \<and> list_all (\<lambda>ev. \<not> invalid_line ev) evs"
  then show "answered_valid p p'" unfolding answered_valid_def by auto
qed

lemma answered_valid_same: "console p' = console p \<Longrightarrow> answered_valid p p'"
  by (simp add: answered_valid_def)

lemma answered_valid_trans:
  "answered_valid p p1 \<Longrightarrow> answered_valid p1 p2 \<Longrightarrow> answered_valid p p2"
  unfolding answered_valid_iff by auto

lemma answered_valid_printf:
  "\<not> invalid_line ev \<Longrightarrow> answered_valid p p' \<Longrightarrow> answered_valid p (printf ev p')"
  unfolding answered_valid_iff by (auto simp: printf_def)

lemma answered_valid_quiet:
  "console p2 = console p1 \<Longrightarrow> answered_valid p p1 \<Longrightarrow> answered_valid p p2"
  unfolding answered_valid_iff by simp

lemma invalid_line_simps [simp]:
  "invalid_line (KILL_invalid_access a acc)" "invalid_line (PAGEFAULT_invalid a acc)"
  "invalid_line (PAGEFAULT a acc c) = (c = Cause_unknown)"
  "\<not> invalid_line KILL_swap_exhausted" "\<not> invalid_line MEMFULL" "\<not> invalid_line SWAPFULL"
  "\<not> invalid_line (VICTIM a n)" "\<not> invalid_line (EVICT_dirty a)" "\<not> invalid_line (EVICT_clean a)"
  "\<not> invalid_line (EVICT a)" "\<not> invalid_line (DISCARD a)" "\<not> invalid_line (SWAPOUT a n)"
  "\<not> invalid_line (SWAPIN a n)" "\<not> invalid_line (RESIDENT_seq a n)" "\<not> invalid_line (LOADEXEC a)"
  "\<not> invalid_line (ALLOC a)" "\<not> invalid_line (SWAPCLEANUP n)"
  by (simp_all add: invalid_line_def)

lemma console_fields [simp]:
  "console (fs c p) = console p"
  "console (kfree pa p) = console p"
  "console (memset_page pa p) = console p"
  "console (clear_pte a p) = console p"
  "console (setkilled p) = console p"
  "console (snd (mappages e a pa pm p)) = console p"
  "console (snd (readi e ip pa off n p)) = console p"
  "console (snd (writei e ip pa off n p)) = console p"
  "console (snd (alloc_swap_slot_dp q)) = console q"
  "console (free_swap_slot_dp q s) = console q"
  "console (snd (alloc_swap_slot_lazy r)) = console r"
  "console (free_swap_slot_lazy r s) = console r"
  "console (snd (create_swap_file_lazy e r)) = console r"
  "console (snd (get_page_info_dp q a)) = console q"
  by (simp_all add: fs_def kfree_def memset_page_def clear_pte_def setkilled_def mappages_def
      readi_def writei_def alloc_swap_slot_dp_def free_swap_slot_dp_def alloc_swap_slot_lazy_def
      free_swap_slot_lazy_def create_swap_file_lazy_def get_page_info_dp_def Let_def
      split: prod.splits option.splits)

lemma console_printf [simp]: "console (printf ev p) = console p @ [ev]"
  by (simp add: printf_def)

lemma answered_valid_append:
  "console p' = console p @ evs \<Longrightarrow> list_all (\<lambda>ev. \<not> invalid_line ev) evs \<Longrightarrow> answered_valid p p'"
  unfolding answered_valid_iff by blast

lemma swap_out_page_answered: "answered_valid p (snd (swap_out_page e p a pa))"
proof (cases "swapfile p")
  case None
  then show ?thesis by (simp add: swap_out_page_def answered_valid_same)
next
  case (Some ip)
  obtain pi p1 where g: "get_page_info_dp p a = (pi, p1)" by (cases "get_page_info_dp p a")
  have c1: "console p1 = console p" using console_fields(14) [of p a] g by simp
  show ?thesis
  proof (cases pi)
    case None
    then show ?thesis using Some g c1 by (simp add: swap_out_page_def answered_valid_same)
  next
    case i: (Some i)
    have "\<exists>evs. console (snd (swap_out_page e p a pa)) = console p @ evs
            \<and> list_all (\<lambda>ev. \<not> invalid_line ev) evs"
      using Some g i c1
      by (simp add: swap_out_page_def Let_def split_beta)
    then show ?thesis unfolding answered_valid_iff .
  qed
qed

lemma get_page_info_dp_answered: "answered_valid p (snd (get_page_info_dp p a))"
  by (rule answered_valid_same) simp

lemma evict_page_answered: "answered_valid p (snd (evict_page e p a))"
proof -
  obtain pi p1 where g: "get_page_info_dp p a = (pi, p1)" by (cases "get_page_info_dp p a")
  have c1: "console p1 = console p" using console_fields(14) [of p a] g by simp
  show ?thesis
  proof (cases pi)
    case None
    then show ?thesis using g c1 by (simp add: evict_page_def answered_valid_same)
  next
    case (Some i)
    show ?thesis
    proof (cases "state (pages p1 i) = RESIDENT \<and> walk p1 a \<noteq> None")
      case False
      then show ?thesis using g Some c1 by (auto simp: evict_page_def answered_valid_same)
    next
      case True
      then obtain pte where w: "walk p1 a = Some pte" by blast
      show ?thesis
      proof (cases "is_dirty (pages p1 i)")
        case False
        have "\<exists>evs. console (snd (evict_page e p a)) = console p @ evs
            \<and> list_all (\<lambda>ev. \<not> invalid_line ev) evs"
          using g Some True w False c1 by (simp add: evict_page_def Let_def)
        then show ?thesis unfolding answered_valid_iff .
      next
        case d: True
        let ?p2 = "printf (EVICT_dirty a) (printf (VICTIM a (seq (pages p1 i))) p1)"
        have "answered_valid p ?p2"
          by (rule answered_valid_append [of _ _ "[VICTIM a (seq (pages p1 i)), EVICT_dirty a]"])
             (simp_all add: c1)
        moreover have "answered_valid ?p2 (snd (swap_out_page e ?p2 a (frame pte)))"
          by (rule swap_out_page_answered)
        ultimately have s: "answered_valid p (snd (swap_out_page e ?p2 a (frame pte)))"
          by (rule answered_valid_trans)
        have "answered_valid p (kfree (frame pte) (clear_pte a (snd (swap_out_page e ?p2 a (frame pte)))))"
          using _ s by (rule answered_valid_quiet) simp
        with s show ?thesis using g Some True w d
          by (simp add: evict_page_def Let_def split_beta printf_def)
      qed
    qed
  qed
qed

lemma fault_frame_dp_answered: "answered_valid p (snd (fault_frame_dp e p))"
proof -
  have m: "answered_valid p (printf MEMFULL p)"
    by (rule answered_valid_append [of _ _ "[MEMFULL]"]) simp_all
  have "answered_valid p (snd (evict_page e (printf MEMFULL p) a))" for a
    using m evict_page_answered by (rule answered_valid_trans)
  then show ?thesis using m
    by (simp add: fault_frame_dp_def Let_def split_beta answered_valid_same)
qed

lemma swap_in_page_answered: "answered_valid p (snd (swap_in_page e p a pa))"
proof (cases "swapfile p")
  case None
  then show ?thesis by (simp add: swap_in_page_def answered_valid_same)
next
  case (Some ip)
  obtain pi p1 where g: "get_page_info_dp p a = (pi, p1)" by (cases "get_page_info_dp p a")
  have c1: "console p1 = console p" using console_fields(14) [of p a] g by simp
  show ?thesis
  proof (cases pi)
    case None
    then show ?thesis using Some g c1 by (simp add: swap_in_page_def answered_valid_same)
  next
    case i: (Some i)
    have "\<exists>evs. console (snd (swap_in_page e p a pa)) = console p @ evs
            \<and> list_all (\<lambda>ev. \<not> invalid_line ev) evs"
      using Some g i c1
      by (simp add: swap_in_page_def Let_def split_beta)
    then show ?thesis unfolding answered_valid_iff .
  qed
qed

lemma make_resident_dp_answered: "answered_valid p (make_resident_dp p pi a)"
proof -
  define g where "g = (case pi of None \<Rightarrow> get_page_info_dp p a | Some i \<Rightarrow> (Some i, p))"
  have c1: "console (snd g) = console p" unfolding g_def by (cases pi) simp_all
  have "\<exists>evs. console (make_resident_dp p pi a) = console p @ evs
            \<and> list_all (\<lambda>ev. \<not> invalid_line ev) evs"
    unfolding make_resident_dp_def g_def [symmetric]
    using c1 by (cases "fst g") (simp_all add: split_beta Let_def)
  then show ?thesis unfolding answered_valid_iff .
qed

lemma fault_fill_dp_answered: "answered_valid p (snd (fault_fill_dp e p pi a mem))"
proof -
  have sw: "answered_valid p (kfree mem (snd (swap_in_page e p a mem)))"
    using _ swap_in_page_answered by (rule answered_valid_quiet) simp
  have mr: "answered_valid p (make_resident_dp (printf ev p) x a)" if "\<not> invalid_line ev" for ev x
    using answered_valid_printf [OF that answered_valid_same [OF refl]] make_resident_dp_answered
    by (rule answered_valid_trans)
  have rd: "answered_valid p (make_resident_dp (printf ev (fs c1 (fs c2 (snd (readi e ip mem off n (fs c3 (fs c4 p))))))) x a)"
    if "\<not> invalid_line ev" for ev c1 c2 c3 c4 ip off n x
  proof (rule answered_valid_trans [OF _ make_resident_dp_answered])
    show "answered_valid p (printf ev (fs c1 (fs c2 (snd (readi e ip mem off n (fs c3 (fs c4 p)))))))"
      by (rule answered_valid_append [of _ _ "[ev]"]) (simp_all add: that)
  qed
  have kq: "answered_valid p (kfree mem p)" by (rule answered_valid_same) simp
  have rq: "answered_valid p (kfree mem (fs c1 (fs c2 (snd (readi e ip mem off n (fs c3 (fs c4 p)))))))"
    for c1 c2 c3 c4 ip off n
    by (rule answered_valid_same) simp
  show ?thesis
    unfolding fault_fill_dp_def
    by (simp add: split_beta Let_def sw swap_in_page_answered mr rd kq rq split: option.splits)
qed

lemma fault_cause_dp_valid:
  "snd (fault_cause_dp p1 pi a) = claimed_valid 2 p1 (descriptor_swapped p1 pi) a"
  by (auto simp: fault_cause_dp_def claimed_valid_def descriptor_swapped_def PGSIZE_def
      split: option.splits)

lemma fault_cause_dp_unknown:
  "(fst (fault_cause_dp p1 pi a) = Cause_unknown) = (\<not> snd (fault_cause_dp p1 pi a))"
  by (simp add: fault_cause_dp_def)

lemma handle_page_fault_answered:
  assumes g: "get_page_info_dp p (PGROUNDDOWN a0) = (pi, p1)"
  shows "answered_valid p (snd (handle_page_fault e p a0 w))
           = claimed_valid 2 p1 (descriptor_swapped p1 pi) (PGROUNDDOWN a0)"
proof -
  define a where "a = PGROUNDDOWN a0"
  define acc where "acc = (if w then Acc_write
                         else if text_start p \<le> a \<and> a < text_end p then Acc_exec
                         else Acc_read)"
  define cause where "cause = fst (fault_cause_dp p1 pi a)"
  define valid where "valid = snd (fault_cause_dp p1 pi a)"
  have c1: "console p1 = console p" using console_fields(14) [of p a] g by (simp add: a_def)
  have cv: "(cause = Cause_unknown) = (\<not> valid)"
    unfolding cause_def valid_def by (rule fault_cause_dp_unknown)
  have v: "valid = claimed_valid 2 p1 (descriptor_swapped p1 pi) a"
    unfolding valid_def by (rule fault_cause_dp_valid)
  define p2 where "p2 = printf (PAGEFAULT a acc cause) p1"
  show ?thesis
  proof (cases valid)
    case False
    have "handle_page_fault e p a0 w = (- 1, printf (KILL_invalid_access a acc) p2)"
      using g False
      unfolding handle_page_fault_def p2_def cause_def valid_def acc_def a_def
      by (simp add: Let_def split_beta)
    then have "console (snd (handle_page_fault e p a0 w))
        = console p @ [PAGEFAULT a acc cause, KILL_invalid_access a acc]"
      by (simp add: p2_def c1)
    then have "\<not> answered_valid p (snd (handle_page_fault e p a0 w))"
      by (simp add: answered_valid_def)
    then show ?thesis using False v by (simp add: a_def)
  next
    case True
    have a2: "answered_valid p p2"
      unfolding p2_def
      by (rule answered_valid_append [of _ _ "[PAGEFAULT a acc cause]"]) (simp_all add: c1 cv True)
    define p3 where "p3 = snd (fault_frame_dp e p2)"
    define mem where "mem = fst (fault_frame_dp e p2)"
    have a3: "answered_valid p p3"
      unfolding p3_def using a2 fault_frame_dp_answered by (rule answered_valid_trans)
    define p4 where "p4 = snd (fault_fill_dp e (memset_page mem p3) pi a mem)"
    have a3m: "answered_valid p (memset_page mem p3)"
      using _ a3 by (rule answered_valid_quiet) simp
    have a4: "answered_valid p p4"
      unfolding p4_def using a3m fault_fill_dp_answered by (rule answered_valid_trans)
    have a5: "answered_valid p (snd (mappages e a mem pm p4))" for pm
      using _ a4 by (rule answered_valid_quiet) simp
    have a6: "answered_valid p (kfree mem (snd (mappages e a mem pm p4)))" for pm
      using _ a4 by (rule answered_valid_quiet) simp
    have r: "snd (handle_page_fault e p a0 w) =
        (if mem = 0 then p3
         else if fst (fault_fill_dp e (memset_page mem p3) pi a mem) < 0 then p4
         else (let perm = {PTE_U, PTE_R} \<union> (if text_start p4 \<le> a \<and> a < text_end p4 then {PTE_X} else {})
               in if fst (mappages e a mem perm p4) < 0 then kfree mem (snd (mappages e a mem perm p4))
                  else snd (mappages e a mem perm p4)))"
      using g True
      unfolding handle_page_fault_def p4_def p3_def mem_def p2_def cause_def valid_def acc_def a_def
      by (simp add: Let_def split_beta)
    have "answered_valid p (snd (handle_page_fault e p a0 w))"
      unfolding r using a3 a4 a5 a6 by (simp add: Let_def)
    then show ?thesis using True v by (simp add: a_def)
  qed
qed

lemma console_uvmunmap: "console (uvmunmap a n f p) = console p"
  by simp

lemma lazy_evict_page_answered: "answered_valid p (snd (lazy_evict_page e p))"
proof -
  have "\<exists>evs. console (snd (lazy_evict_page e p)) = console p @ evs
            \<and> list_all (\<lambda>ev. \<not> invalid_line ev) evs"
    unfolding lazy_evict_page_def
    by (simp add: Let_def split_beta split: option.splits)
  then show ?thesis unfolding answered_valid_iff .
qed

lemma fault_frame_lazy_answered: "answered_valid p (snd (fault_frame_lazy e p))"
proof -
  have "answered_valid p (setkilled (printf MEMFULL (snd (lazy_evict_page e p))))"
    using _ answered_valid_printf [OF _ lazy_evict_page_answered, of MEMFULL]
    by (rule answered_valid_quiet) simp_all
  then show ?thesis
    unfolding fault_frame_lazy_def
    by (simp add: Let_def split_beta answered_valid_same lazy_evict_page_answered)
qed

lemma lazy_swap_in_answered: "answered_valid p (snd (lazy_swap_in e p i a acc))"
proof -
  define p0 where "p0 = printf (PAGEFAULT a acc Cause_swap) p"
  define mem where "mem = fst (fault_frame_lazy e p0)"
  define p1 where "p1 = snd (fault_frame_lazy e p0)"
  have a0: "answered_valid p p0"
    unfolding p0_def by (rule answered_valid_append [of _ _ "[PAGEFAULT a acc Cause_swap]"]) simp_all
  have a1: "answered_valid p p1"
    unfolding p1_def using a0 fault_frame_lazy_answered by (rule answered_valid_trans)
  define p3 where "p3 = (case swapfile_inode (memset_page mem p1) of
                         None \<Rightarrow> memset_page mem p1
                       | Some ip \<Rightarrow>
                           if swap_slot (pages (memset_page mem p1) i) \<ge> 0 then
                             printf (SWAPIN a (swap_slot (pages (memset_page mem p1) i)))
                               (fs (Iunlock ip)
                                 (snd (readi e ip mem (nat (swap_slot (pages (memset_page mem p1) i)) * PGSIZE) PGSIZE
                                        (fs (Ilock ip) (memset_page mem p1)))))
                           else memset_page mem p1)"
  have "\<exists>evs. console p3 = console p1 @ evs \<and> list_all (\<lambda>ev. \<not> invalid_line ev) evs"
    unfolding p3_def by (simp split: option.splits)
  then have "answered_valid p1 p3" unfolding answered_valid_iff .
  with a1 have a3: "answered_valid p p3" by (rule answered_valid_trans)
  define p4 where "p4 = snd (mappages e a mem (pte_flags_lazy p3 a) p3)"
  have a4: "answered_valid p p4" unfolding p4_def using _ a3 by (rule answered_valid_quiet) simp
  have a4k: "answered_valid p (setkilled (kfree mem p4))"
    using _ a4 by (rule answered_valid_quiet) simp
  have r: "snd (lazy_swap_in e p i a acc) =
        (if mem = 0 then p1
         else if fst (mappages e a mem (pte_flags_lazy p3 a) p3) \<noteq> 0 then setkilled (kfree mem p4)
         else (let old_slot = swap_slot (pages p4 i);
                   p5 = p4\<lparr>pages := (pages p4)(i :=
                             (pages p4 i)\<lparr>state := RESIDENT, seq := next_fifo_seq p4,
                                          swap_slot := - 1\<rparr>),
                           next_fifo_seq := int_incr (next_fifo_seq p4)\<rparr>;
                   p6 = (if old_slot \<ge> 0
                         then (free_swap_slot_lazy p5 old_slot)
                                \<lparr>num_swapped_pages := num_swapped_pages p5 - 1\<rparr>
                         else p5)
               in printf (RESIDENT_seq a (seq (pages p6 i))) p6))"
    unfolding lazy_swap_in_def p4_def p3_def p1_def mem_def p0_def
    by (simp add: split_beta Let_def)
  have a6: "answered_valid p (printf ev q)" if "console q = console p4" "\<not> invalid_line ev" for ev q
    using that(2) answered_valid_quiet [OF that(1) a4] by (rule answered_valid_printf)
  show ?thesis
    unfolding r using a1 a4k by (simp add: Let_def a6)
qed

lemma lazy_handle_fault_answered:
  assumes nm: "\<not> ismapped q (PGROUNDDOWN b0)"
  shows "answered_valid q (snd (lazy_handle_fault e q b0 w))
           = (descriptor_swapped q (get_page_info_lazy q (PGROUNDDOWN b0))
              \<or> snd (fault_cause_lazy e q (PGROUNDDOWN b0)))"
proof -
  define a where "a = PGROUNDDOWN b0"
  define acc where "acc = (if w then Acc_write else Acc_read)"
  define i where "i = unat ((a div of_nat PGSIZE) mod of_nat MAX_PROC_PAGES :: uint64)"
  have gi: "get_page_info_lazy r a = Some i" for r :: "uint64 proc"
    unfolding i_def using page_idx_bound [of a] by (simp add: get_page_info_lazy_def Let_def)
  show ?thesis
  proof (cases "state (pages q i) = SWAPPED")
    case True
    then show ?thesis using nm lazy_swap_in_answered [of q e i a acc]
      by (simp add: lazy_handle_fault_def a_def [symmetric] Let_def gi acc_def descriptor_swapped_def)
  next
    case ns: False
    define cause where "cause = fst (fault_cause_lazy e q a)"
    define valid where "valid = snd (fault_cause_lazy e q a)"
    have cv: "(cause = Cause_unknown) = (\<not> valid)"
      unfolding cause_def valid_def by (simp add: fault_cause_lazy_def Let_def)
    show ?thesis
    proof (cases valid)
      case False
      have "snd (lazy_handle_fault e q b0 w) = printf (PAGEFAULT_invalid a acc) q"
        using nm ns False
        by (simp add: lazy_handle_fault_def a_def [symmetric] Let_def split_beta
            valid_def gi acc_def)
      then have "\<not> answered_valid q (snd (lazy_handle_fault e q b0 w))"
        by (simp add: answered_valid_def)
      then show ?thesis using False ns
        by (simp add: valid_def a_def descriptor_swapped_def gi [unfolded a_def])
    next
      case v: True
      define p0 where "p0 = printf (PAGEFAULT a acc cause) q"
      define mem where "mem = fst (fault_frame_lazy e p0)"
      define p1 where "p1 = snd (fault_frame_lazy e p0)"
      have a0: "answered_valid q p0"
        unfolding p0_def
        by (rule answered_valid_append [of _ _ "[PAGEFAULT a acc cause]"]) (simp_all add: cv v)
      have a1: "answered_valid q p1"
        unfolding p1_def using a0 fault_frame_lazy_answered by (rule answered_valid_trans)
      define p3 where "p3 = (if cause = Cause_exec then load_exec_lazy e (memset_page mem p1) a mem
                             else memset_page mem p1)"
      have c3: "console p3 = console p1"
        unfolding p3_def by (simp add: load_exec_lazy_def Let_def split: option.splits)
      define p4 where "p4 = snd (mappages e a mem (pte_flags_lazy p3 a) p3)"
      have c4: "console p4 = console p1" unfolding p4_def by (simp add: c3)
      define p5 where "p5 = printf (if cause = Cause_exec then LOADEXEC a else ALLOC a) p4"
      have a4: "answered_valid q p4" using c4 a1 by (rule answered_valid_quiet)
      have a4k: "answered_valid q (setkilled (kfree mem p4))"
        using _ a4 by (rule answered_valid_quiet) simp
      have a5: "answered_valid q p5"
        unfolding p5_def using _ a4 by (rule answered_valid_printf) simp
      have r: "snd (lazy_handle_fault e q b0 w) =
          (if mem = 0 then p1
           else if fst (mappages e a mem (pte_flags_lazy p3 a) p3) \<noteq> 0
           then setkilled (kfree mem p4)
           else snd (case get_page_info_lazy p5 a of
                   None \<Rightarrow> (0 :: int, p5)
                 | Some i \<Rightarrow>
                     (let p6 = p5\<lparr>pages := (pages p5)(i :=
                                 \<lparr>va = a, state = RESIDENT, is_dirty = w,
                                  seq = next_fifo_seq p5, swap_slot = - 1\<rparr>),
                               next_fifo_seq := int_incr (next_fifo_seq p5)\<rparr>
                      in (0, printf (RESIDENT_seq a (seq (pages p6 i))) p6))))"
        using nm ns v
        unfolding lazy_handle_fault_def p5_def p4_def p3_def p1_def mem_def p0_def
          cause_def valid_def acc_def a_def
        by (simp add: split_beta Let_def gi [unfolded a_def])
      have a6: "answered_valid q (printf ev r)" if "console r = console p5" "\<not> invalid_line ev" for ev r
        using that(2) answered_valid_quiet [OF that(1) a5] by (rule answered_valid_printf)
      have "answered_valid q (snd (lazy_handle_fault e q b0 w))"
        unfolding r using a1 a4k by (simp add: Let_def gi a6)
      then show ?thesis using v by (simp add: valid_def a_def)
    qed
  qed
qed

lemma PGROUNDDOWN_idem [simp]: "PGROUNDDOWN (PGROUNDDOWN a) = PGROUNDDOWN a"
  by (simp add: PGROUNDDOWN_def PGSIZE_def word_bw_assocs)

lemma get_page_info_dp_layout [simp]:
  "pagetable (snd (get_page_info_dp p a)) = pagetable p"
  "text_start (snd (get_page_info_dp p a)) = text_start p"
  "text_end (snd (get_page_info_dp p a)) = text_end p"
  "swapfile (snd (get_page_info_dp p a)) = swapfile p"
  "exec_inode (snd (get_page_info_dp p a)) = exec_inode p"
  by (simp_all add: get_page_info_dp_def Let_def split: option.splits)

lemma get_page_info_dp_swapped:
  assumes "get_page_info_dp p a = (Some i, p1)" and "state (pages p1 i) = SWAPPED"
  shows "p1 = p" and "find_page (pages p) (PGROUNDDOWN a) 0 (num_pages p) = Some i"
  using assms
  by (auto simp: get_page_info_dp_def Let_def split: option.splits if_splits)

lemma layout_fields [simp]:
  "pagetable (printf ev p) = pagetable p" "text_start (printf ev p) = text_start p"
  "text_end (printf ev p) = text_end p"
  "pagetable (fs c p) = pagetable p" "text_start (fs c p) = text_start p"
  "text_end (fs c p) = text_end p"
  "pagetable (kfree pa p) = pagetable p" "text_start (kfree pa p) = text_start p"
  "text_end (kfree pa p) = text_end p"
  "pagetable (memset_page pa p) = pagetable p" "text_start (memset_page pa p) = text_start p"
  "text_end (memset_page pa p) = text_end p"
  "pagetable (snd (readi e ip pa off n p)) = pagetable p"
  "text_start (snd (readi e ip pa off n p)) = text_start p"
  "text_end (snd (readi e ip pa off n p)) = text_end p"
  "pagetable (free_swap_slot_dp q s) = pagetable q" "text_start (free_swap_slot_dp q s) = text_start q"
  "text_end (free_swap_slot_dp q s) = text_end q"
  by (simp_all add: printf_def fs_def kfree_def memset_page_def readi_def free_swap_slot_dp_def Let_def)

lemma make_resident_dp_layout [simp]:
  "pagetable (make_resident_dp p pi a) = pagetable p"
  "text_start (make_resident_dp p pi a) = text_start p"
  "text_end (make_resident_dp p pi a) = text_end p"
proof -
  define g where "g = (case pi of None \<Rightarrow> get_page_info_dp p a | Some i \<Rightarrow> (Some i, p))"
  have f: "pagetable (snd g) = pagetable p" "text_start (snd g) = text_start p"
    "text_end (snd g) = text_end p"
    unfolding g_def by (cases pi; simp)+
  show "pagetable (make_resident_dp p pi a) = pagetable p"
    "text_start (make_resident_dp p pi a) = text_start p"
    "text_end (make_resident_dp p pi a) = text_end p"
    unfolding make_resident_dp_def g_def [symmetric]
    using f by (cases "fst g"; simp add: split_beta Let_def)+
qed

lemma swap_in_page_layout [simp]:
  "pagetable (snd (swap_in_page e p a pa)) = pagetable p"
  "text_start (snd (swap_in_page e p a pa)) = text_start p"
  "text_end (snd (swap_in_page e p a pa)) = text_end p"
proof -
  obtain pi p1 where g: "get_page_info_dp p a = (pi, p1)" by (cases "get_page_info_dp p a")
  have f: "pagetable p1 = pagetable p" "text_start p1 = text_start p" "text_end p1 = text_end p"
    using get_page_info_dp_layout(1,2,3) [of p a] g by simp_all
  show "pagetable (snd (swap_in_page e p a pa)) = pagetable p"
    "text_start (snd (swap_in_page e p a pa)) = text_start p"
    "text_end (snd (swap_in_page e p a pa)) = text_end p"
    using g f
    by (cases "swapfile p"; cases pi; simp add: swap_in_page_def Let_def split_beta)+
qed

lemma fault_fill_dp_layout [simp]:
  "pagetable (snd (fault_fill_dp e p pi a mem)) = pagetable p"
  "text_start (snd (fault_fill_dp e p pi a mem)) = text_start p"
  "text_end (snd (fault_fill_dp e p pi a mem)) = text_end p"
  by (simp_all add: fault_fill_dp_def Let_def split_beta split: option.splits)

lemma swap_in_page_ok:
  assumes sf: "swapfile p = Some ip"
    and fp: "find_page (pages p) (PGROUNDDOWN a) 0 (num_pages p) = Some i"
    and st: "state (pages p i) = SWAPPED"
    and sl: "0 \<le> swap_slot (pages p i)"
    and rd: "readi_ret e = int PGSIZE"
  shows "fst (swap_in_page e p a pa) = 0"
  using sf st sl rd
  by (simp add: swap_in_page_def get_page_info_dp_found [OF fp] Let_def readi_def split_def)

lemma fault_fill_dp_ok:
  assumes sw: "descriptor_swapped p pi \<longrightarrow>
        swapfile p \<noteq> None \<and> readi_ret e = int PGSIZE
        \<and> (\<forall>i. pi = Some i \<longrightarrow> 0 \<le> swap_slot (pages p i)
              \<and> find_page (pages p) (PGROUNDDOWN a) 0 (num_pages p) = Some i)"
    and ex: "\<not> descriptor_swapped p pi \<and> text_start p \<le> a \<and> a < data_end p \<longrightarrow>
        exec_inode p \<noteq> None \<and> 0 \<le> readi_ret e"
  shows "fst (fault_fill_dp e p pi a mem) = 0"
proof (cases "descriptor_swapped p pi")
  case True
  then obtain i where i: "pi = Some i" "state (pages p i) = SWAPPED"
    by (auto simp: descriptor_swapped_def split: option.splits)
  from sw True i obtain ip where s: "swapfile p = Some ip" "readi_ret e = int PGSIZE"
    "0 \<le> swap_slot (pages p i)" "find_page (pages p) (PGROUNDDOWN a) 0 (num_pages p) = Some i"
    by auto
  have "fst (swap_in_page e p a mem) = 0"
    by (rule swap_in_page_ok [OF s(1) s(4) i(2) s(3) s(2)])
  then show ?thesis using i by (simp add: fault_fill_dp_def split_beta)
next
  case False
  then have ns: "\<not> (case pi of None \<Rightarrow> False | Some i \<Rightarrow> state (pages p i) = SWAPPED)"
    by (simp add: descriptor_swapped_def)
  show ?thesis
  proof (cases "text_start p \<le> a \<and> a < data_end p")
    case True
    with ex False obtain ip where e: "exec_inode p = Some ip" "0 \<le> readi_ret e" by auto
    show ?thesis using ns True e
      by (simp add: fault_fill_dp_def split_beta Let_def readi_def)
  next
    case False
    then show ?thesis using ns by (auto simp: fault_fill_dp_def)
  qed
qed

lemma handle_page_fault_materialises:
  assumes g: "get_page_info_dp p (PGROUNDDOWN a0) = (pi, p1)"
    and valid: "claimed_valid 2 p1 (descriptor_swapped p1 pi) (PGROUNDDOWN a0)"
    and ka: "kalloc_1st e \<noteq> 0" and mp: "\<not> mappages_ret e < 0"
    and sw: "descriptor_swapped p1 pi \<longrightarrow>
        swapfile p \<noteq> None \<and> readi_ret e = int PGSIZE
        \<and> (\<forall>i. pi = Some i \<longrightarrow> 0 \<le> swap_slot (pages p1 i))"
    and ex: "\<not> descriptor_swapped p1 pi \<and> text_start p \<le> PGROUNDDOWN a0 \<and> PGROUNDDOWN a0 < data_end p \<longrightarrow>
        exec_inode p \<noteq> None \<and> 0 \<le> readi_ret e"
  shows "fst (handle_page_fault e p a0 w) = 0"
    and "pagetable (snd (handle_page_fault e p a0 w)) =
           (pagetable p)(PGROUNDDOWN a0 \<mapsto> \<lparr>frame = kalloc_1st e,
              perms = {PTE_U, PTE_R} \<union> (if text_start p \<le> PGROUNDDOWN a0 \<and> PGROUNDDOWN a0 < text_end p
                                         then {PTE_X} else {})\<rparr>)"
proof -
  define a where "a = PGROUNDDOWN a0"
  define acc where "acc = (if w then Acc_write
                         else if text_start p \<le> a \<and> a < text_end p then Acc_exec
                         else Acc_read)"
  define cause where "cause = fst (fault_cause_dp p1 pi a)"
  have ra: "PGROUNDDOWN a = a" by (simp add: a_def)
  have v: "snd (fault_cause_dp p1 pi a)"
    using valid by (simp add: fault_cause_dp_valid a_def)
  have f1: "pagetable p1 = pagetable p" "text_start p1 = text_start p" "text_end p1 = text_end p"
    "swapfile p1 = swapfile p" "exec_inode p1 = exec_inode p"
    using get_page_info_dp_layout [of p a] g by (simp_all add: a_def)
  have de: "data_end p1 = data_end p"
    using g by (auto simp: get_page_info_dp_def Let_def split: option.splits if_splits)
  define mem where "mem = kalloc_1st e"
  define p2 where "p2 = printf (PAGEFAULT a acc cause) p1"
  define pm where "pm = memset_page mem p2"
  have ff: "fault_frame_dp e p2 = (mem, p2)" using ka by (simp add: fault_frame_dp_def mem_def)
  have pg: "pages pm = pages p1" "num_pages pm = num_pages p1" "swapfile pm = swapfile p"
    "exec_inode pm = exec_inode p" "text_start pm = text_start p" "data_end pm = data_end p"
    unfolding pm_def p2_def by (simp_all add: printf_def memset_page_def f1 de)
  have ds: "descriptor_swapped pm pi = descriptor_swapped p1 pi"
    by (simp add: descriptor_swapped_def pg cong: option.case_cong)
  have fill: "fst (fault_fill_dp e pm pi a mem) = 0"
  proof (rule fault_fill_dp_ok)
    show "descriptor_swapped pm pi \<longrightarrow>
        swapfile pm \<noteq> None \<and> readi_ret e = int PGSIZE
        \<and> (\<forall>i. pi = Some i \<longrightarrow> 0 \<le> swap_slot (pages pm i)
              \<and> find_page (pages pm) (PGROUNDDOWN a) 0 (num_pages pm) = Some i)"
    proof (intro impI conjI allI)
      assume d: "descriptor_swapped pm pi"
      then have d1: "descriptor_swapped p1 pi" by (simp add: ds)
      from sw d1 show "swapfile pm \<noteq> None" "readi_ret e = int PGSIZE" by (simp_all add: pg)
      fix i assume i: "pi = Some i"
      from sw d1 i show "0 \<le> swap_slot (pages pm i)" by (simp add: pg)
      from d1 i have st: "state (pages p1 i) = SWAPPED" by (simp add: descriptor_swapped_def)
      from g i have g': "get_page_info_dp p a = (Some i, p1)" by (simp add: a_def)
      from get_page_info_dp_swapped [OF g' st]
      show "find_page (pages pm) (PGROUNDDOWN a) 0 (num_pages pm) = Some i"
        by (simp add: pg)
    qed
    show "\<not> descriptor_swapped pm pi \<and> text_start pm \<le> a \<and> a < data_end pm \<longrightarrow>
        exec_inode pm \<noteq> None \<and> 0 \<le> readi_ret e"
      using ex by (simp add: ds pg a_def)
  qed
  define p4 where "p4 = snd (fault_fill_dp e pm pi a mem)"
  have f4: "pagetable p4 = pagetable p" "text_start p4 = text_start p" "text_end p4 = text_end p"
    unfolding p4_def pm_def p2_def by (simp_all add: f1)
  have r: "handle_page_fault e p a0 w =
      (let perm = {PTE_U, PTE_R} \<union> (if text_start p4 \<le> a \<and> a < text_end p4 then {PTE_X} else {})
       in (0, snd (mappages e a mem perm p4)))"
    using g v fill mp
    unfolding handle_page_fault_def a_def [symmetric] Let_def acc_def [symmetric] prod.case
    by (simp add: split_beta cause_def [symmetric] p2_def [symmetric] ff mem_def [symmetric]
        pm_def [symmetric] p4_def [symmetric] mappages_def ka [unfolded mem_def [symmetric]])
  show "fst (handle_page_fault e p a0 w) = 0" by (simp add: r Let_def)
  show "pagetable (snd (handle_page_fault e p a0 w)) =
           (pagetable p)(PGROUNDDOWN a0 \<mapsto> \<lparr>frame = kalloc_1st e,
              perms = {PTE_U, PTE_R} \<union> (if text_start p \<le> PGROUNDDOWN a0 \<and> PGROUNDDOWN a0 < text_end p
                                         then {PTE_X} else {})\<rparr>)"
    using mp by (simp add: r Let_def mappages_def f4 ra mem_def a_def [symmetric])
qed

lemma lazy_layout_fields [simp]:
  "pagetable (setkilled p) = pagetable p" "text_start (setkilled p) = text_start p"
  "text_end (setkilled p) = text_end p"
  "pagetable (load_exec_lazy e p a mem) = pagetable p"
  "text_start (load_exec_lazy e p a mem) = text_start p"
  "text_end (load_exec_lazy e p a mem) = text_end p"
  by (simp_all add: setkilled_def load_exec_lazy_def Let_def fs_def readi_def split: option.splits)

lemma lazy_handle_fault_materialises:
  assumes nm: "\<not> ismapped q (PGROUNDDOWN b0)"
    and valid: "descriptor_swapped q (get_page_info_lazy q (PGROUNDDOWN b0))
                \<or> snd (fault_cause_lazy e q (PGROUNDDOWN b0))"
    and ka: "kalloc_1st e \<noteq> 0" and mp: "\<not> mappages_ret e < 0"
  shows "fst (lazy_handle_fault e q b0 w) = 0"
    and "pagetable (snd (lazy_handle_fault e q b0 w)) =
           (pagetable q)(PGROUNDDOWN b0 \<mapsto>
              \<lparr>frame = kalloc_1st e, perms = pte_flags_lazy q (PGROUNDDOWN b0)\<rparr>)"
proof -
  define a where "a = PGROUNDDOWN b0"
  define acc where "acc = (if w then Acc_write else Acc_read)"
  define i where "i = unat ((a div of_nat PGSIZE) mod of_nat MAX_PROC_PAGES :: uint64)"
  have ra: "PGROUNDDOWN a = a" by (simp add: a_def)
  have gi: "get_page_info_lazy r a = Some i" for r :: "uint64 proc"
    unfolding i_def using page_idx_bound [of a] by (simp add: get_page_info_lazy_def Let_def)
  have ff: "fault_frame_lazy e r = (kalloc_1st e, r)" for r :: "uint64 proc"
    using ka by (simp add: fault_frame_lazy_def)
  have fl: "pte_flags_lazy r a = pte_flags_lazy q a"
    if "text_start r = text_start q" "text_end r = text_end q" for r :: "uint64 proc"
    using that by (simp add: pte_flags_lazy_def)
  have "fst (lazy_handle_fault e q b0 w) = 0
      \<and> pagetable (snd (lazy_handle_fault e q b0 w)) =
           (pagetable q)(a \<mapsto> \<lparr>frame = kalloc_1st e, perms = pte_flags_lazy q a\<rparr>)"
  proof (cases "state (pages q i) = SWAPPED")
    case True
    define p0 where "p0 = printf (PAGEFAULT a acc Cause_swap) q"
    define mem where "mem = fst (fault_frame_lazy e p0)"
    define p1 where "p1 = snd (fault_frame_lazy e p0)"
    have m: "mem = kalloc_1st e" "p1 = p0" unfolding mem_def p1_def by (simp_all add: ff)
    define p3 where "p3 = (case swapfile_inode (memset_page mem p1) of
                         None \<Rightarrow> memset_page mem p1
                       | Some ip \<Rightarrow>
                           if swap_slot (pages (memset_page mem p1) i) \<ge> 0 then
                             printf (SWAPIN a (swap_slot (pages (memset_page mem p1) i)))
                               (fs (Iunlock ip)
                                 (snd (readi e ip mem (nat (swap_slot (pages (memset_page mem p1) i)) * PGSIZE) PGSIZE
                                        (fs (Ilock ip) (memset_page mem p1)))))
                           else memset_page mem p1)"
    have f3: "pagetable p3 = pagetable q" "text_start p3 = text_start q" "text_end p3 = text_end q"
      unfolding p3_def m p0_def by (simp_all split: option.splits)
    define p4 where "p4 = snd (mappages e a mem (pte_flags_lazy p3 a) p3)"
    have r: "lazy_swap_in e q i a acc =
        (if mem = 0 then (- 1, p1)
         else if fst (mappages e a mem (pte_flags_lazy p3 a) p3) \<noteq> 0
         then (- 1, setkilled (kfree mem p4))
         else (let old_slot = swap_slot (pages p4 i);
                   p5 = p4\<lparr>pages := (pages p4)(i :=
                             (pages p4 i)\<lparr>state := RESIDENT, seq := next_fifo_seq p4,
                                          swap_slot := - 1\<rparr>),
                           next_fifo_seq := int_incr (next_fifo_seq p4)\<rparr>;
                   p6 = (if old_slot \<ge> 0
                         then (free_swap_slot_lazy p5 old_slot)
                                \<lparr>num_swapped_pages := num_swapped_pages p5 - 1\<rparr>
                         else p5)
               in (0, printf (RESIDENT_seq a (seq (pages p6 i))) p6)))"
      unfolding lazy_swap_in_def p4_def p3_def p1_def mem_def p0_def
      by (simp add: split_beta Let_def)
    have p4: "pagetable p4 = (pagetable q)(a \<mapsto> \<lparr>frame = kalloc_1st e, perms = pte_flags_lazy q a\<rparr>)"
      unfolding p4_def using mp by (simp add: mappages_def f3 fl [OF f3(2,3)] ra m)
    have "fst (lazy_swap_in e q i a acc) = 0"
      and "pagetable (snd (lazy_swap_in e q i a acc)) =
           (pagetable q)(a \<mapsto> \<lparr>frame = kalloc_1st e, perms = pte_flags_lazy q a\<rparr>)"
      unfolding r using ka mp
      by (simp_all add: Let_def mappages_fst m(1) p4 free_swap_slot_lazy_def)
    then show ?thesis using nm True
      by (simp add: lazy_handle_fault_def a_def [symmetric] Let_def gi acc_def)
  next
    case ns: False
    then have v: "snd (fault_cause_lazy e q a)"
      using valid by (simp add: descriptor_swapped_def gi a_def [symmetric])
    define cause where "cause = fst (fault_cause_lazy e q a)"
    define p0 where "p0 = printf (PAGEFAULT a acc cause) q"
    define mem where "mem = fst (fault_frame_lazy e p0)"
    define p1 where "p1 = snd (fault_frame_lazy e p0)"
    have m: "mem = kalloc_1st e" "p1 = p0" unfolding mem_def p1_def by (simp_all add: ff)
    define p3 where "p3 = (if cause = Cause_exec then load_exec_lazy e (memset_page mem p1) a mem
                           else memset_page mem p1)"
    have f3: "pagetable p3 = pagetable q" "text_start p3 = text_start q" "text_end p3 = text_end q"
      unfolding p3_def m p0_def by simp_all
    define p4 where "p4 = snd (mappages e a mem (pte_flags_lazy p3 a) p3)"
    define p5 where "p5 = printf (if cause = Cause_exec then LOADEXEC a else ALLOC a) p4"
    have r: "lazy_handle_fault e q b0 w =
          (if mem = 0 then (- 1, p1)
           else if fst (mappages e a mem (pte_flags_lazy p3 a) p3) \<noteq> 0
           then (- 1, setkilled (kfree mem p4))
           else (case get_page_info_lazy p5 a of
                   None \<Rightarrow> (0 :: int, p5)
                 | Some i \<Rightarrow>
                     (let p6 = p5\<lparr>pages := (pages p5)(i :=
                                 \<lparr>va = a, state = RESIDENT, is_dirty = w,
                                  seq = next_fifo_seq p5, swap_slot = - 1\<rparr>),
                               next_fifo_seq := int_incr (next_fifo_seq p5)\<rparr>
                      in (0, printf (RESIDENT_seq a (seq (pages p6 i))) p6))))"
      using nm ns v
      unfolding lazy_handle_fault_def p5_def p4_def p3_def p1_def mem_def p0_def
        cause_def acc_def a_def
      by (simp add: split_beta Let_def gi [unfolded a_def])
    have p4: "pagetable p4 = (pagetable q)(a \<mapsto> \<lparr>frame = kalloc_1st e, perms = pte_flags_lazy q a\<rparr>)"
      unfolding p4_def using mp by (simp add: mappages_def f3 fl [OF f3(2,3)] ra m)
    show ?thesis
      unfolding r using ka mp
      by (simp add: Let_def mappages_fst m(1) gi p5_def p4)
  qed
  then show "fst (lazy_handle_fault e q b0 w) = 0"
    and "pagetable (snd (lazy_handle_fault e q b0 w)) =
           (pagetable q)(PGROUNDDOWN b0 \<mapsto>
              \<lparr>frame = kalloc_1st e, perms = pte_flags_lazy q (PGROUNDDOWN b0)\<rparr>)"
    by (simp_all add: a_def)
qed

section \<open>C1: what an eviction does\<close>




section \<open>C2: which faults are valid\<close>




section \<open>C3: swap-in\<close>

text \<open>
  What claim C3 says of a successful swap-in holds for \<^verbatim>\<open>swap_in_page\<close> of
  \<^verbatim>\<open>demand_paging.c\<close>: the frame receives the \<^verbatim>\<open>PGSIZE\<close> bytes of the slot, the slot's bit is
  cleared, \<^verbatim>\<open>swap_slot\<close> is \<open>- 1\<close>, the page is \<^verbatim>\<open>RESIDENT\<close> with the current counter as its
  sequence number, and \<^verbatim>\<open>is_dirty\<close> is false.
\<close>

lemma swap_in_page_clean:
  assumes sf: "swapfile p = Some ip"
    and fp: "find_page (pages p) (PGROUNDDOWN a) 0 (num_pages p) = Some i"
    and st: "state (pages p i) = SWAPPED"
    and sl: "0 \<le> swap_slot (pages p i)" "swap_slot (pages p i) < 1024"
    and rd: "readi_ret e = int PGSIZE"
  shows "fst (swap_in_page e p a pa) = 0"
    and "pages (snd (swap_in_page e p a pa)) i =
           \<lparr>va = va (pages p i), state = RESIDENT, is_dirty = False, seq = next_fifo_seq p,
            swap_slot = - 1\<rparr>"
    and "next_fifo_seq (snd (swap_in_page e p a pa)) = int_incr (next_fifo_seq p)"
    and "\<not> slot_used_dp (swap_slot_bitmap (snd (swap_in_page e p a pa))) (nat (swap_slot (pages p i)))"
    and "\<forall>k<PGSIZE. physmem (snd (swap_in_page e p a pa)) pa k
            = disk p ip (nat (swap_slot (pages p i)) * PGSIZE + k)"
proof -
  let ?s = "swap_slot (pages p i)"
  have clr: "\<not> slot_used_dp ((swap_slot_bitmap p)(nat ?s div 32 :=
        swap_slot_bitmap p (nat ?s div 32) AND NOT (push_bit (nat ?s mod 32) 1))) (nat ?s)"
    by (simp only: slot_used_dp_clear simp_thms)
  show "fst (swap_in_page e p a pa) = 0"
    using sf st sl rd
    by (simp add: swap_in_page_def get_page_info_dp_found [OF fp] Let_def readi_def split_def)
  show "pages (snd (swap_in_page e p a pa)) i =
           \<lparr>va = va (pages p i), state = RESIDENT, is_dirty = False, seq = next_fifo_seq p,
            swap_slot = - 1\<rparr>"
    using sf st sl rd
    by (simp add: swap_in_page_def get_page_info_dp_found [OF fp] Let_def readi_def split_def
        printf_def fs_def free_swap_slot_dp_def)
  show "next_fifo_seq (snd (swap_in_page e p a pa)) = int_incr (next_fifo_seq p)"
    using sf st sl rd
    by (simp add: swap_in_page_def get_page_info_dp_found [OF fp] Let_def readi_def split_def
        printf_def fs_def free_swap_slot_dp_def)
  have "swap_slot_bitmap (snd (swap_in_page e p a pa)) = (swap_slot_bitmap p)(nat ?s div 32 :=
        swap_slot_bitmap p (nat ?s div 32) AND NOT (push_bit (nat ?s mod 32) 1))"
    using sf st sl rd
    by (simp add: swap_in_page_def get_page_info_dp_found [OF fp] Let_def readi_def split_def
        printf_def fs_def free_swap_slot_dp_def del: push_bit_eq_mult)
  with clr show "\<not> slot_used_dp (swap_slot_bitmap (snd (swap_in_page e p a pa))) (nat (swap_slot (pages p i)))"
    by simp
  show "\<forall>k<PGSIZE. physmem (snd (swap_in_page e p a pa)) pa k
            = disk p ip (nat (swap_slot (pages p i)) * PGSIZE + k)"
    using sf st sl rd
    by (simp add: swap_in_page_def get_page_info_dp_found [OF fp] Let_def readi_def split_def
        printf_def fs_def free_swap_slot_dp_def)
qed

text \<open>
  Claim C3 on \<^verbatim>\<open>lazy.c\<close>, at a page that a write fault made resident (and so dirty) and
  that \<^verbatim>\<open>lazy_evict_page\<close> then wrote to slot 0: the fault that brings it back succeeds,
  reads the byte back, frees the slot, resets \<^verbatim>\<open>swap_slot\<close> and gives the page the sequence
  number 1, but never touches \<^verbatim>\<open>is_dirty\<close>, which is still true afterwards.
\<close>

theorem lazy_swap_in_keeps_dirty:
  "fst (lazy_handle_fault env0 lazy_image 0x4000 True) = 0
   \<and> fst (lazy_evict_page env0 lazy_written) = 1
   \<and> pages lazy_evicted 4 = pages lazy_swapped 4
   \<and> pages lazy_swapped 4 = \<lparr>va = 0x4000, state = SWAPPED, is_dirty = True, seq = 0, swap_slot = 0\<rparr>
   \<and> fst (lazy_handle_fault env0 lazy_swapped 0x4000 False) = 0
   \<and> pages (snd (lazy_handle_fault env0 lazy_swapped 0x4000 False)) 4
       = \<lparr>va = 0x4000, state = RESIDENT, is_dirty = True, seq = 1, swap_slot = - 1\<rparr>
   \<and> \<not> slot_used_lazy (swap_slot_bitmap (snd (lazy_handle_fault env0 lazy_swapped 0x4000 False))) 0
   \<and> physmem (snd (lazy_handle_fault env0 lazy_swapped 0x4000 False)) 0x87000000 0 = 0x51"
proof -
  have 0: "pages lazy_swapped 4 = \<lparr>va = 0x4000, state = SWAPPED, is_dirty = True, seq = 0, swap_slot = 0\<rparr>"
    by (simp add: lazy_swapped_def)
  have 1: "fst (lazy_handle_fault env0 lazy_swapped 0x4000 False) = 0"
    by (simp add: lazy_swapped_def lazy_eval lazy_image_def proc0_def env0_def)
  have 2: "pages (snd (lazy_handle_fault env0 lazy_swapped 0x4000 False)) 4
       = \<lparr>va = 0x4000, state = RESIDENT, is_dirty = True, seq = 1, swap_slot = - 1\<rparr>"
    by (simp add: lazy_swapped_def lazy_eval lazy_image_def proc0_def env0_def)
  have 4: "\<not> slot_used_lazy (swap_slot_bitmap (snd (lazy_handle_fault env0 lazy_swapped 0x4000 False))) 0"
    by (simp add: lazy_swapped_def lazy_eval lazy_image_def proc0_def env0_def slot_used_lazy_def)
  have 5: "physmem (snd (lazy_handle_fault env0 lazy_swapped 0x4000 False)) 0x87000000 0 = 0x51"
    by (simp add: lazy_swapped_def lazy_eval lazy_image_def proc0_def env0_def)
  from lazy_image_write_fault lazy_written_evict lazy_evicted_page(1) 0 1 2 4 5 show ?thesis by simp
qed

section \<open>C4: eviction and retry when no frame is free\<close>

text \<open>
  Both handlers evict one victim and ask for a frame once more when the first \<^verbatim>\<open>kalloc\<close>
  fails, and zero the frame they get; \<^verbatim>\<open>lazy_handle_fault\<close> kills the process behind
  \<^verbatim>\<open>MEMFULL\<close> when the second \<^verbatim>\<open>kalloc\<close> fails too.
\<close>

lemma victim_elsewhere_is_evicted:
  "find_fifo_victim dp_text1 = 0x1000
   \<and> fst (handle_page_fault env_nomem dp_text1 0x4000 True) = 0
   \<and> console (snd (handle_page_fault env_nomem dp_text1 0x4000 True))
       = [PAGEFAULT 0x4000 Acc_write Cause_heap, MEMFULL, VICTIM 0x1000 0, EVICT_clean 0x1000,
          DISCARD 0x1000, ALLOC 0x4000, RESIDENT_seq 0x4000 1]
   \<and> state (pages (snd (handle_page_fault env_nomem dp_text1 0x4000 True)) 0) = UNMAPPED
   \<and> pagetable (snd (handle_page_fault env_nomem dp_text1 0x4000 True)) 0x1000 = None
   \<and> kfreed (snd (handle_page_fault env_nomem dp_text1 0x4000 True)) = [0x87000000]
   \<and> pagetable (snd (handle_page_fault env_nomem dp_text1 0x4000 True)) 0x4000
       = Some \<lparr>frame = 0x87001000, perms = {PTE_U, PTE_R}\<rparr>
   \<and> physmem (snd (handle_page_fault env_nomem dp_text1 0x4000 True)) 0x87001000 7 = 0"
  by (simp add: dp_eval dp_text1_def dp_image_def proc0_def env_nomem_def env0_def)

lemma lazy_victim_at_zero_is_evicted:
  "fst (lazy_handle_fault env_nomem lazy_text0 0x3000 True) = 0
   \<and> console (snd (lazy_handle_fault env_nomem lazy_text0 0x3000 True))
       = [PAGEFAULT 0x3000 Acc_write Cause_heap, VICTIM 0 0, DISCARD 0, EVICT 0, ALLOC 0x3000,
          RESIDENT_seq 0x3000 1]
   \<and> state (pages (snd (lazy_handle_fault env_nomem lazy_text0 0x3000 True)) 0) = UNMAPPED
   \<and> pages (snd (lazy_handle_fault env_nomem lazy_text0 0x3000 True)) 3
       = \<lparr>va = 0x3000, state = RESIDENT, is_dirty = True, seq = 1, swap_slot = - 1\<rparr>
   \<and> physmem (snd (lazy_handle_fault env_nomem lazy_text0 0x3000 True)) 0x87001000 7 = 0"
  by (simp add: lazy_eval lazy_text0_def proc0_def env_nomem_def env0_def)

lemma lazy_retry_fails:
  "fst (lazy_handle_fault (env_nomem\<lparr>kalloc_2nd := 0\<rparr>) lazy_text0 0x3000 True) = - 1
   \<and> console (snd (lazy_handle_fault (env_nomem\<lparr>kalloc_2nd := 0\<rparr>) lazy_text0 0x3000 True))
       = [PAGEFAULT 0x3000 Acc_write Cause_heap, VICTIM 0 0, DISCARD 0, EVICT 0, MEMFULL]
   \<and> killed (snd (lazy_handle_fault (env_nomem\<lparr>kalloc_2nd := 0\<rparr>) lazy_text0 0x3000 True))"
  by (simp add: lazy_eval lazy_text0_def proc0_def env_nomem_def env0_def)

text \<open>
  Claim C4 on \<^verbatim>\<open>demand_paging.c\<close>, when the oldest resident page is the page at address 0
  (where xv6 programs have their first text page): \<^verbatim>\<open>find_fifo_victim\<close> returns the victim's
  address, 0, which \<^verbatim>\<open>handle_page_fault\<close> reads as "no resident pages to evict". The page
  could be evicted (\<^verbatim>\<open>evict_page\<close> succeeds on it) and a second \<^verbatim>\<open>kalloc\<close> would succeed, yet
  the handler returns \<open>- 1\<close> behind \<^verbatim>\<open>MEMFULL\<close> with the page still resident and mapped and no
  frame given back.
\<close>

theorem victim_at_zero_is_not_evicted:
  "state (pages dp_text0 0) = RESIDENT
   \<and> find_fifo_victim dp_text0 = 0
   \<and> fst (evict_page env_nomem dp_text0 0) = 0
   \<and> kalloc_2nd env_nomem \<noteq> 0
   \<and> fst (handle_page_fault env_nomem dp_text0 0x3000 True) = - 1
   \<and> console (snd (handle_page_fault env_nomem dp_text0 0x3000 True))
       = [PAGEFAULT 0x3000 Acc_write Cause_heap, MEMFULL]
   \<and> state (pages (snd (handle_page_fault env_nomem dp_text0 0x3000 True)) 0) = RESIDENT
   \<and> pagetable (snd (handle_page_fault env_nomem dp_text0 0x3000 True)) 0
       = Some \<lparr>frame = 0x87000000, perms = {PTE_U, PTE_R, PTE_X}\<rparr>
   \<and> kfreed (snd (handle_page_fault env_nomem dp_text0 0x3000 True)) = []"
  by (simp add: dp_eval dp_text0_def proc0_def env_nomem_def env0_def)

section \<open>C5: the bytes of an exec page\<close>

text \<open>
  \<^verbatim>\<open>lazy.c\<close> does what claim C5 says when the page has a file offset recorded: the frame, zeroed
  before, receives \<^verbatim>\<open>exec_len\<close> bytes of the executable from \<^verbatim>\<open>exec_off\<close> on (as many of them
  as \<^verbatim>\<open>readi\<close> delivers) and stays zero behind them; with \<^verbatim>\<open>exec_len = 0\<close> the whole frame
  stays zero.
\<close>

lemma load_exec_lazy_bytes:
  assumes ex: "exec_inode p = Some ip"
    and i: "i = unat ((a div of_nat PGSIZE) mod of_nat MAX_PROC_PAGES :: uint64)"
    and off: "0 < exec_off p i" and len: "0 < exec_len p i"
  shows "physmem (load_exec_lazy e (memset_page mem p) a mem) mem k =
           (if int k < readi_ret e \<and> k < nat (exec_len p i) then disk p ip (unat (exec_off p i) + k)
            else if k < PGSIZE then 0 else physmem p mem k)"
proof -
  have b: "i < MAX_PROC_PAGES" unfolding i by (rule page_idx_bound)
  show ?thesis
    using ex off len b
    by (simp add: load_exec_lazy_def memset_page_def readi_def fs_def Let_def i [symmetric])
qed

lemma load_exec_lazy_bss:
  assumes i: "i = unat ((a div of_nat PGSIZE) mod of_nat MAX_PROC_PAGES :: uint64)"
    and len: "exec_len p i = 0"
  shows "physmem (load_exec_lazy e (memset_page mem p) a mem) mem k =
           (if k < PGSIZE then 0 else physmem p mem k)"
proof -
  have b: "i < MAX_PROC_PAGES" unfolding i by (rule page_idx_bound)
  show ?thesis
    using len b
    by (simp add: load_exec_lazy_def memset_page_def readi_def fs_def Let_def i [symmetric]
        split: option.splits)
qed

lemma lazy_exec_load:
  "fst (lazy_handle_fault (env0\<lparr>readi_ret := 100\<rparr>) lazy_exec 0x3000 False) = 0
   \<and> physmem (snd (lazy_handle_fault (env0\<lparr>readi_ret := 100\<rparr>) lazy_exec 0x3000 False)) 0x87000000 0 = 0x11
   \<and> physmem (snd (lazy_handle_fault (env0\<lparr>readi_ret := 100\<rparr>) lazy_exec 0x3000 False)) 0x87000000 100 = 0"
  by (simp add: lazy_eval lazy_exec_def lazy_image_def proc0_def env0_def)

text \<open>
  The descriptors of the two example states are what \<^verbatim>\<open>kexec\<close> records for the one page of a
  segment at \<open>0x3000\<close> with 100 bytes in the file at offset \<open>0x2000\<close>.
\<close>

lemma kexec_page_dp_short_segment:
  "(kexec_page_dp \<lparr>ph_vaddr = 0x3000, ph_off = 0x2000, ph_filesz = 100, ph_memsz = 0x1000\<rparr>
      0x3000 dp_image)\<lparr>disk := disk dp_exec\<rparr> = dp_exec"
  by (simp add: kexec_page_dp_def kexec_record_def get_page_info_dp_def find_page.simps
      dp_exec_def dp_image_def proc0_def MAX_PROC_PAGES_def PGSIZE_def Let_def)

lemma kexec_page_lazy_short_segment:
  "exec_off (kexec_page_lazy \<lparr>ph_vaddr = 0x3000, ph_off = 0x2000, ph_filesz = 100, ph_memsz = 0x1000\<rparr>
      0x3000 lazy_image) 3 = exec_off lazy_exec 3
   \<and> exec_len (kexec_page_lazy \<lparr>ph_vaddr = 0x3000, ph_off = 0x2000, ph_filesz = 100, ph_memsz = 0x1000\<rparr>
      0x3000 lazy_image) 3 = exec_len lazy_exec 3
   \<and> exec_len lazy_exec 3 = 100"
  by (simp add: kexec_page_lazy_def kexec_record_def get_page_info_lazy_def
      lazy_exec_def lazy_image_def proc0_def MAX_PROC_PAGES_def PGSIZE_def Let_def)

text \<open>
  Claim C5 on \<^verbatim>\<open>demand_paging.c\<close>, at a data page whose file part is 100 bytes long
  (\<^verbatim>\<open>exec_off = 0x2000\<close>, \<^verbatim>\<open>exec_len = 100\<close>) in an executable that goes on behind those bytes:
  the handler calls \<^verbatim>\<open>readi\<close> with \<^verbatim>\<open>to_read = PGSIZE\<close>, so the byte of the file at offset
  \<open>0x2000 + 100\<close> lands at offset 100 of the frame, where the claim wants zero.
\<close>

theorem exec_load_reads_whole_page_dp:
  "exec_len dp_exec 0 = 100
   \<and> fst (handle_page_fault env0 dp_exec 0x3000 False) = 0
   \<and> pagetable (snd (handle_page_fault env0 dp_exec 0x3000 False)) 0x3000
       = Some \<lparr>frame = 0x87000000, perms = {PTE_U, PTE_R}\<rparr>
   \<and> physmem (snd (handle_page_fault env0 dp_exec 0x3000 False)) 0x87000000 0 = 0x11
   \<and> physmem (snd (handle_page_fault env0 dp_exec 0x3000 False)) 0x87000000 100 = 0xAA"
  by (simp add: dp_eval dp_exec_def dp_image_def proc0_def env0_def)

section \<open>C6: the FIFO sequence numbers\<close>

text \<open>
  Claim C6, as amended. In every state a process reaches by at most \<open>2 ^ 31 - 1\<close> calls under
  \<^verbatim>\<open>demand_paging.c\<close> or under \<^verbatim>\<open>lazy.c\<close>, the sequence numbers of the \<^verbatim>\<open>RESIDENT\<close> descriptors are
  pairwise distinct and below \<^verbatim>\<open>next_fifo_seq\<close> (I4), and the counter is at most the number of
  calls. The code that makes a page resident gives its descriptor the value of the counter
  and increments the counter, a C \<^verbatim>\<open>int\<close>, by \<^verbatim>\<open>next_fifo_seq++\<close>: the file-load and zero-fill
  branches of \<^verbatim>\<open>handle_page_fault\<close> (\<open>make_resident_dp\<close>), a successful \<^verbatim>\<open>swap_in_page\<close>, and a
  successful \<^verbatim>\<open>lazy_handle_fault\<close> on either of its paths.
\<close>

theorem fifo_sequence_numbers:
  "(reachable_dp n p \<and> n \<le> 2147483647 \<longrightarrow> I4 p \<and> next_fifo_seq p \<le> int n)
   \<and> (reachable_lazy m q \<and> m \<le> 2147483647 \<longrightarrow> I4 q \<and> next_fifo_seq q \<le> int m)
   \<and> admitted p1 i1 (make_resident_dp p1 (Some i1) a1)
   \<and> (fst (swap_in_page e2 p2 a2 pa2) = 0 \<and> fst (get_page_info_dp p2 a2) = Some i2
      \<longrightarrow> admitted p2 i2 (snd (swap_in_page e2 p2 a2 pa2)))
   \<and> (fst (lazy_handle_fault e3 q3 a3 w3) = 0
        \<and> get_page_info_lazy q3 (PGROUNDDOWN a3) = Some i3
      \<longrightarrow> admitted q3 i3 (snd (lazy_handle_fault e3 q3 a3 w3)))"
  using reachable_dp_I4 [of n p] reachable_lazy_I4 [of m q] make_resident_dp_admitted
    swap_in_page_admitted lazy_handle_fault_admitted
  by blast

text \<open>
  The theorem at work: two pages faulted in after the initialisation, under either file,
  carry different numbers below the counter; and the three places that make a page
  resident, each on a state where it succeeds.
\<close>

theorem fifo_sequence_numbers_witness:
  "reachable_dp 3 dp_two_pages
   \<and> state (pages dp_two_pages 0) = RESIDENT \<and> state (pages dp_two_pages 1) = RESIDENT
   \<and> seq (pages dp_two_pages 0) \<noteq> seq (pages dp_two_pages 1)
   \<and> seq (pages dp_two_pages 1) < next_fifo_seq dp_two_pages
   \<and> next_fifo_seq dp_two_pages \<le> 3
   \<and> reachable_lazy 3 lazy_two_pages
   \<and> state (pages lazy_two_pages 4) = RESIDENT \<and> state (pages lazy_two_pages 5) = RESIDENT
   \<and> seq (pages lazy_two_pages 4) \<noteq> seq (pages lazy_two_pages 5)
   \<and> seq (pages lazy_two_pages 5) < next_fifo_seq lazy_two_pages
   \<and> next_fifo_seq lazy_two_pages \<le> 3
   \<and> admitted dp_boot 0 (make_resident_dp dp_boot (Some 0) 0x4000)
   \<and> fst (swap_in_page env0 dp_swapped 0x4000 0x87000000) = 0
   \<and> fst (get_page_info_dp dp_swapped 0x4000) = Some 0
   \<and> admitted dp_swapped 0 (snd (swap_in_page env0 dp_swapped 0x4000 0x87000000))
   \<and> fst (lazy_handle_fault env0 lazy_boot 0x4000 True) = 0
   \<and> get_page_info_lazy lazy_boot (PGROUNDDOWN 0x4000) = Some 4
   \<and> admitted lazy_boot 4 (snd (lazy_handle_fault env0 lazy_boot 0x4000 True))"
proof -
  note t = fifo_sequence_numbers [of 3 dp_two_pages 3 lazy_two_pages dp_boot 0 "0x4000" env0
      dp_swapped "0x4000" "0x87000000" 0 env0 lazy_boot "0x4000" True 4]
  have r0: "reachable_dp (Suc 0) dp_boot"
    unfolding dp_boot_def by (intro reachable_dp.dp_exec_layout reachable_dp.dp_init)
  have r1: "reachable_dp (Suc (Suc 0)) dp_one_page"
    unfolding dp_one_page_def using r0 by (rule reachable_dp.dp_fault)
  have "reachable_dp (Suc (Suc (Suc 0))) dp_two_pages"
    unfolding dp_two_pages_def using r1 by (rule reachable_dp.dp_fault)
  then have r2: "reachable_dp 3 dp_two_pages" by (simp add: numeral_3_eq_3)
  have l0: "reachable_lazy (Suc 0) lazy_boot"
    unfolding lazy_boot_def by (intro reachable_lazy.lazy_exec_layout reachable_lazy.lazy_init)
  have l1: "reachable_lazy (Suc (Suc 0)) lazy_one_page"
    unfolding lazy_one_page_def using l0 by (rule reachable_lazy.lazy_fault)
  have "reachable_lazy (Suc (Suc (Suc 0))) lazy_two_pages"
    unfolding lazy_two_pages_def using l1 by (rule reachable_lazy.lazy_fault)
  then have l2: "reachable_lazy 3 lazy_two_pages" by (simp add: numeral_3_eq_3)
  from t r2 have i: "I4 dp_two_pages" and ic: "next_fifo_seq dp_two_pages \<le> 3" by simp_all
  from t l2 have j: "I4 lazy_two_pages" and jc: "next_fifo_seq lazy_two_pages \<le> 3" by simp_all
  have i1: "seq (pages dp_two_pages 0) \<noteq> seq (pages dp_two_pages 1)"
    and i2: "seq (pages dp_two_pages 1) < next_fifo_seq dp_two_pages"
    using i dp_two_pages_fields unfolding I4_def MAX_PROC_PAGES_def
    by simp_all
  have j1: "seq (pages lazy_two_pages 4) \<noteq> seq (pages lazy_two_pages 5)"
    and j2: "seq (pages lazy_two_pages 5) < next_fifo_seq lazy_two_pages"
    using j lazy_two_pages_fields unfolding I4_def MAX_PROC_PAGES_def
    by simp_all
  from t have a1: "admitted dp_boot 0 (make_resident_dp dp_boot (Some 0) 0x4000)" by blast
  from t dp_swapped_swap_in
  have a2: "admitted dp_swapped 0 (snd (swap_in_page env0 dp_swapped 0x4000 0x87000000))"
    by blast
  from t lazy_boot_fault
  have a3: "admitted lazy_boot 4 (snd (lazy_handle_fault env0 lazy_boot 0x4000 True))"
    by simp
  show ?thesis
    using r2 l2 ic jc i1 i2 j1 j2 a1 a2 a3 dp_two_pages_fields lazy_two_pages_fields
      dp_swapped_swap_in lazy_boot_fault
    by simp
qed

text \<open>
  The claim as stated fails where the counter overflows. After \<open>2 ^ 31\<close> calls of \<^verbatim>\<open>exec\<close> the
  stack page is \<^verbatim>\<open>RESIDENT\<close> with the number \<^verbatim>\<open>INT_MAX\<close> and the counter is \<open>- 2 ^ 31\<close>: the state is
  reachable and I4 does not hold in it, under either file. And a fault on a state that
  satisfies I4 with the counter at \<^verbatim>\<open>INT_MAX\<close> succeeds and leaves a state that does not.
\<close>

theorem fifo_sequence_numbers_counterexample:
  "reachable_dp 2147483648 dp_wrapped
   \<and> state (pages dp_wrapped 0) = RESIDENT
   \<and> seq (pages dp_wrapped 0) = 2147483647
   \<and> next_fifo_seq dp_wrapped = - 2147483648
   \<and> \<not> I4 dp_wrapped
   \<and> reachable_lazy 2147483648 lazy_wrapped
   \<and> state (pages lazy_wrapped 4) = RESIDENT
   \<and> seq (pages lazy_wrapped 4) = 2147483647
   \<and> next_fifo_seq lazy_wrapped = - 2147483648
   \<and> \<not> I4 lazy_wrapped
   \<and> I4 dp_last
   \<and> next_fifo_seq dp_last = 2147483647
   \<and> fst (handle_page_fault env0 dp_last 0x4000 False) = 0
   \<and> state (pages (snd (handle_page_fault env0 dp_last 0x4000 False)) 0) = RESIDENT
   \<and> seq (pages (snd (handle_page_fault env0 dp_last 0x4000 False)) 0) = 2147483647
   \<and> next_fifo_seq (snd (handle_page_fault env0 dp_last 0x4000 False)) = - 2147483648
   \<and> \<not> I4 (snd (handle_page_fault env0 dp_last 0x4000 False))"
proof -
  have a: "\<not> I4 dp_wrapped"
    by (rule I4_broken [of 0]) (simp_all add: dp_wrapped_fields MAX_PROC_PAGES_def)
  have b: "\<not> I4 lazy_wrapped"
    by (rule I4_broken [of 4]) (simp_all add: lazy_wrapped_fields MAX_PROC_PAGES_def)
  have c: "\<not> I4 (snd (handle_page_fault env0 dp_last 0x4000 False))"
    by (rule I4_broken [of 0]) (simp_all add: dp_last_fault MAX_PROC_PAGES_def)
  show ?thesis
    using a b c dp_wrapped_fields lazy_wrapped_fields dp_last_fault by simp
qed
section \<open>C7: the swap-slot allocator\<close>

text \<open>
  Claim C7. When the bitmap has a cleared bit, the allocator returns the smallest index
  below \<^verbatim>\<open>MAX_SWAP_SLOTS\<close> whose bit is cleared and sets that bit, changing nothing else;
  when all \<^verbatim>\<open>MAX_SWAP_SLOTS\<close> bits are set it returns \<open>- 1\<close> and leaves the state as it is;
  \<^verbatim>\<open>free_swap_slot\<close> clears the bit of a slot in range and does nothing for a slot out of
  range. For \<^verbatim>\<open>demand_paging.c\<close> this holds on every state. The allocator of \<^verbatim>\<open>lazy.c\<close> first
  tests \<^verbatim>\<open>num_swapped_pages >= MAX_SWAP_SLOTS\<close>; the bitmap and the counter it is called with
  are those of a reachable state (\<^verbatim>\<open>lazy_evict_page\<close> changes neither before the call), where
  the counter is the number of set bits (\<open>reachable_lazy_slots_ok\<close>), so that the test fails
  whenever a bit is cleared.
\<close>

theorem swap_slot_allocator:
  fixes p1 p2 p3 p4 :: "uint32 proc" and q0 q1 q2 q3 q4 :: "uint64 proc"
  shows
  "(k < MAX_SWAP_SLOTS \<and> \<not> slot_used_dp (swap_slot_bitmap p1) k
      \<and> (\<forall>j<k. slot_used_dp (swap_slot_bitmap p1) j) \<longrightarrow>
      fst (alloc_swap_slot_dp p1) = int k
      \<and> snd (alloc_swap_slot_dp p1) = p1\<lparr>swap_slot_bitmap := swap_slot_bitmap (snd (alloc_swap_slot_dp p1))\<rparr>
      \<and> (\<forall>j. slot_used_dp (swap_slot_bitmap (snd (alloc_swap_slot_dp p1))) j
               = (j = k \<or> slot_used_dp (swap_slot_bitmap p1) j)))
   \<and> ((\<forall>j<MAX_SWAP_SLOTS. slot_used_dp (swap_slot_bitmap p2) j) \<longrightarrow>
      alloc_swap_slot_dp p2 = (- 1, p2))
   \<and> (0 \<le> s \<and> s < int MAX_SWAP_SLOTS \<longrightarrow>
      free_swap_slot_dp p3 s = p3\<lparr>swap_slot_bitmap := swap_slot_bitmap (free_swap_slot_dp p3 s)\<rparr>
      \<and> (\<forall>j. slot_used_dp (swap_slot_bitmap (free_swap_slot_dp p3 s)) j
               = (j \<noteq> nat s \<and> slot_used_dp (swap_slot_bitmap p3) j)))
   \<and> (t < 0 \<or> int MAX_SWAP_SLOTS \<le> t \<longrightarrow> free_swap_slot_dp p4 t = p4)
   \<and> (k' < MAX_SWAP_SLOTS \<and> \<not> slot_used_lazy (swap_slot_bitmap q1) k'
      \<and> (\<forall>j<k'. slot_used_lazy (swap_slot_bitmap q1) j)
      \<and> reachable_lazy n q0 \<and> swap_slot_bitmap q1 = swap_slot_bitmap q0
      \<and> num_swapped_pages q1 = num_swapped_pages q0 \<longrightarrow>
      fst (alloc_swap_slot_lazy q1) = int k'
      \<and> snd (alloc_swap_slot_lazy q1) = q1\<lparr>swap_slot_bitmap := swap_slot_bitmap (snd (alloc_swap_slot_lazy q1))\<rparr>
      \<and> (\<forall>j. slot_used_lazy (swap_slot_bitmap (snd (alloc_swap_slot_lazy q1))) j
               = (j = k' \<or> slot_used_lazy (swap_slot_bitmap q1) j)))
   \<and> ((\<forall>j<MAX_SWAP_SLOTS. slot_used_lazy (swap_slot_bitmap q2) j) \<longrightarrow>
      alloc_swap_slot_lazy q2 = (- 1, q2))
   \<and> (0 \<le> s' \<and> s' < int MAX_SWAP_SLOTS \<longrightarrow>
      free_swap_slot_lazy q3 s' = q3\<lparr>swap_slot_bitmap := swap_slot_bitmap (free_swap_slot_lazy q3 s')\<rparr>
      \<and> (\<forall>j. slot_used_lazy (swap_slot_bitmap (free_swap_slot_lazy q3 s')) j
               = (j \<noteq> nat s' \<and> slot_used_lazy (swap_slot_bitmap q3) j)))
   \<and> (t' < 0 \<or> int MAX_SWAP_SLOTS \<le> t' \<longrightarrow> free_swap_slot_lazy q4 t' = q4)"
proof (intro conjI impI)
  assume h: "k < MAX_SWAP_SLOTS \<and> \<not> slot_used_dp (swap_slot_bitmap p1) k
      \<and> (\<forall>j<k. slot_used_dp (swap_slot_bitmap p1) j)"
  then have a: "alloc_scan_dp (swap_slot_bitmap p1) 0 =
      (int k, (swap_slot_bitmap p1)(k div 32 := swap_slot_bitmap p1 (k div 32) OR push_bit (k mod 32) 1))"
    by (intro alloc_scan_dp_found) (auto simp: MAX_SWAP_SLOTS_def)
  show "fst (alloc_swap_slot_dp p1) = int k"
    by (simp add: alloc_swap_slot_dp_def a)
  show "snd (alloc_swap_slot_dp p1) = p1\<lparr>swap_slot_bitmap := swap_slot_bitmap (snd (alloc_swap_slot_dp p1))\<rparr>"
    by (simp add: alloc_swap_slot_dp_def a)
  have "swap_slot_bitmap (snd (alloc_swap_slot_dp p1)) =
      (swap_slot_bitmap p1)(k div 32 := swap_slot_bitmap p1 (k div 32) OR push_bit (k mod 32) 1)"
    by (simp add: alloc_swap_slot_dp_def a)
  then show "\<forall>j. slot_used_dp (swap_slot_bitmap (snd (alloc_swap_slot_dp p1))) j
               = (j = k \<or> slot_used_dp (swap_slot_bitmap p1) j)"
    by (simp only: slot_used_dp_set simp_thms)
next
  assume "\<forall>j<MAX_SWAP_SLOTS. slot_used_dp (swap_slot_bitmap p2) j"
  then have "alloc_scan_dp (swap_slot_bitmap p2) 0 = (- 1, swap_slot_bitmap p2)"
    by (intro alloc_scan_dp_full) (auto simp: MAX_SWAP_SLOTS_def)
  then show "alloc_swap_slot_dp p2 = (- 1, p2)"
    by (simp add: alloc_swap_slot_dp_def)
next
  assume h: "0 \<le> s \<and> s < int MAX_SWAP_SLOTS"
  then show "free_swap_slot_dp p3 s = p3\<lparr>swap_slot_bitmap := swap_slot_bitmap (free_swap_slot_dp p3 s)\<rparr>"
    by (simp add: free_swap_slot_dp_def MAX_SWAP_SLOTS_def Let_def)
  from h have "swap_slot_bitmap (free_swap_slot_dp p3 s) =
      (swap_slot_bitmap p3)(nat s div 32 := swap_slot_bitmap p3 (nat s div 32) AND NOT (push_bit (nat s mod 32) 1))"
    by (simp add: free_swap_slot_dp_def MAX_SWAP_SLOTS_def Let_def)
  then show "\<forall>j. slot_used_dp (swap_slot_bitmap (free_swap_slot_dp p3 s)) j
               = (j \<noteq> nat s \<and> slot_used_dp (swap_slot_bitmap p3) j)"
    by (simp only: slot_used_dp_clear simp_thms)
next
  assume "t < 0 \<or> int MAX_SWAP_SLOTS \<le> t"
  then show "free_swap_slot_dp p4 t = p4"
    by (auto simp: free_swap_slot_dp_def MAX_SWAP_SLOTS_def)
next
  assume h: "k' < MAX_SWAP_SLOTS \<and> \<not> slot_used_lazy (swap_slot_bitmap q1) k'
      \<and> (\<forall>j<k'. slot_used_lazy (swap_slot_bitmap q1) j)
      \<and> reachable_lazy n q0 \<and> swap_slot_bitmap q1 = swap_slot_bitmap q0
      \<and> num_swapped_pages q1 = num_swapped_pages q0"
  then have a: "alloc_scan_lazy (swap_slot_bitmap q1) 0 =
      (int k', (swap_slot_bitmap q1)(k' div 64 := swap_slot_bitmap q1 (k' div 64) OR push_bit (k' mod 64) 1))"
    by (intro alloc_scan_lazy_found) (auto simp: MAX_SWAP_SLOTS_def)
  from h have "num_swapped_pages q1 < int MAX_SWAP_SLOTS"
    using reachable_lazy_room [of n q0 q1 k'] by blast
  then have g: "\<not> int MAX_SWAP_SLOTS \<le> num_swapped_pages q1" by simp
  show "fst (alloc_swap_slot_lazy q1) = int k'"
    by (simp add: alloc_swap_slot_lazy_def a g)
  show "snd (alloc_swap_slot_lazy q1) = q1\<lparr>swap_slot_bitmap := swap_slot_bitmap (snd (alloc_swap_slot_lazy q1))\<rparr>"
    by (simp add: alloc_swap_slot_lazy_def a g)
  have "swap_slot_bitmap (snd (alloc_swap_slot_lazy q1)) =
      (swap_slot_bitmap q1)(k' div 64 := swap_slot_bitmap q1 (k' div 64) OR push_bit (k' mod 64) 1)"
    by (simp add: alloc_swap_slot_lazy_def a g)
  then show "\<forall>j. slot_used_lazy (swap_slot_bitmap (snd (alloc_swap_slot_lazy q1))) j
               = (j = k' \<or> slot_used_lazy (swap_slot_bitmap q1) j)"
    by (simp only: slot_used_lazy_set simp_thms)
next
  assume "\<forall>j<MAX_SWAP_SLOTS. slot_used_lazy (swap_slot_bitmap q2) j"
  then have "alloc_scan_lazy (swap_slot_bitmap q2) 0 = (- 1, swap_slot_bitmap q2)"
    by (intro alloc_scan_lazy_full) (auto simp: MAX_SWAP_SLOTS_def)
  then show "alloc_swap_slot_lazy q2 = (- 1, q2)"
    by (simp add: alloc_swap_slot_lazy_def)
next
  assume h: "0 \<le> s' \<and> s' < int MAX_SWAP_SLOTS"
  then have "nat s' < 16 * 64" unfolding MAX_SWAP_SLOTS_def by linarith
  then have i16: "nat s' div 64 < 16" by (simp only: div_less_iff_less_mult zero_less_numeral)
  from h i16 show "free_swap_slot_lazy q3 s' = q3\<lparr>swap_slot_bitmap := swap_slot_bitmap (free_swap_slot_lazy q3 s')\<rparr>"
    by (simp add: free_swap_slot_lazy_def Let_def)
  from h i16 have "swap_slot_bitmap (free_swap_slot_lazy q3 s') =
      (swap_slot_bitmap q3)(nat s' div 64 := swap_slot_bitmap q3 (nat s' div 64) AND NOT (push_bit (nat s' mod 64) 1))"
    by (simp add: free_swap_slot_lazy_def Let_def)
  then show "\<forall>j. slot_used_lazy (swap_slot_bitmap (free_swap_slot_lazy q3 s')) j
               = (j \<noteq> nat s' \<and> slot_used_lazy (swap_slot_bitmap q3) j)"
    by (simp only: slot_used_lazy_clear simp_thms)
next
  assume "t' < 0 \<or> int MAX_SWAP_SLOTS \<le> t'"
  then show "free_swap_slot_lazy q4 t' = q4"
    by (auto simp: free_swap_slot_lazy_def)
qed

theorem swap_slot_allocator_witness:
  "fst (alloc_swap_slot_dp bitmap_one_dp) = 1
   \<and> slot_used_dp (swap_slot_bitmap (snd (alloc_swap_slot_dp bitmap_one_dp))) 1
   \<and> alloc_swap_slot_dp bitmap_full_dp = (- 1, bitmap_full_dp)
   \<and> \<not> slot_used_dp (swap_slot_bitmap (free_swap_slot_dp bitmap_full_dp 5)) 5
   \<and> free_swap_slot_dp bitmap_one_dp 1024 = bitmap_one_dp
   \<and> reachable_lazy 3 lazy_one_swapped
   \<and> fst (alloc_swap_slot_lazy lazy_one_swapped) = 1
   \<and> slot_used_lazy (swap_slot_bitmap (snd (alloc_swap_slot_lazy lazy_one_swapped))) 1
   \<and> alloc_swap_slot_lazy bitmap_full_lazy = (- 1, bitmap_full_lazy)
   \<and> \<not> slot_used_lazy (swap_slot_bitmap (free_swap_slot_lazy bitmap_full_lazy 5)) 5
   \<and> free_swap_slot_lazy bitmap_one_lazy (- 1) = bitmap_one_lazy"
proof -
  have h1: "1 < MAX_SWAP_SLOTS \<and> \<not> slot_used_dp (swap_slot_bitmap bitmap_one_dp) 1
      \<and> (\<forall>j<1. slot_used_dp (swap_slot_bitmap bitmap_one_dp) j)"
    by (simp add: slot_used_dp_def bitmap_one_dp_def MAX_SWAP_SLOTS_def bit_simps)
  have h2: "\<forall>j<MAX_SWAP_SLOTS. slot_used_dp (swap_slot_bitmap bitmap_full_dp) j"
    by (simp add: slot_used_dp_def bitmap_full_dp_def bit_simps)
  have h3: "0 \<le> (5::int) \<and> 5 < int MAX_SWAP_SLOTS" by (simp add: MAX_SWAP_SLOTS_def)
  have h4: "(1024::int) < 0 \<or> int MAX_SWAP_SLOTS \<le> 1024" by (simp add: MAX_SWAP_SLOTS_def)
  have h5: "1 < MAX_SWAP_SLOTS \<and> \<not> slot_used_lazy (swap_slot_bitmap lazy_one_swapped) 1
      \<and> (\<forall>j<1. slot_used_lazy (swap_slot_bitmap lazy_one_swapped) j)
      \<and> reachable_lazy 3 lazy_one_swapped
      \<and> swap_slot_bitmap lazy_one_swapped = swap_slot_bitmap lazy_one_swapped
      \<and> num_swapped_pages lazy_one_swapped = num_swapped_pages lazy_one_swapped"
    by (simp add: slot_used_lazy_def lazy_one_swapped_slots lazy_one_swapped_reachable
        MAX_SWAP_SLOTS_def bit_simps)
  have h6: "\<forall>j<MAX_SWAP_SLOTS. slot_used_lazy (swap_slot_bitmap bitmap_full_lazy) j"
    by (simp add: slot_used_lazy_def bitmap_full_lazy_def bit_simps)
  have h8: "(- 1::int) < 0 \<or> int MAX_SWAP_SLOTS \<le> - 1" by simp
  note t = swap_slot_allocator [of 1 bitmap_one_dp bitmap_full_dp 5 bitmap_full_dp 1024 bitmap_one_dp
      1 lazy_one_swapped 3 lazy_one_swapped bitmap_full_lazy 5 bitmap_full_lazy "- 1" bitmap_one_lazy]
  from t h1 h2 h3 h4 h5 h6 h8 lazy_one_swapped_reachable show ?thesis by simp
qed

section \<open>C8: a short write to the swap file\<close>

text \<open>
  Claim C8, as amended. In \<^verbatim>\<open>demand_paging.c\<close>, when the write of a swap-out is short (\<^verbatim>\<open>writei\<close>
  returns something other than \<^verbatim>\<open>PGSIZE\<close>), \<^verbatim>\<open>swap_out_page\<close> returns \<open>- 1\<close> to its caller and
  the slot it had allocated is released again: the bitmap is as it was before the call
  and the descriptors are untouched. \<^verbatim>\<open>evict_page\<close> passes the failure on: it returns
  \<open>- 1\<close>, and the victim keeps its mapping, its frame and its descriptor.
\<close>

theorem short_swap_write_dp:
  assumes sf: "swapfile p = Some ip"
    and fp: "find_page (pages p) (PGROUNDDOWN v) 0 (num_pages p) = Some i"
    and al: "fst (alloc_swap_slot_dp p) = int k"
    and sh: "writei_ret e \<noteq> int PGSIZE"
  shows "fst (swap_out_page e p v pa) = - 1
       \<and> \<not> slot_used_dp (swap_slot_bitmap (snd (swap_out_page e p v pa))) k
       \<and> swap_slot_bitmap (snd (swap_out_page e p v pa)) = swap_slot_bitmap p
       \<and> pages (snd (swap_out_page e p v pa)) = pages p
       \<and> (state (pages p i) = RESIDENT \<and> is_dirty (pages p i) \<and> walk p v = Some pte \<longrightarrow>
            fst (evict_page e p v) = - 1
          \<and> pagetable (snd (evict_page e p v)) = pagetable p
          \<and> kfreed (snd (evict_page e p v)) = kfreed p
          \<and> pages (snd (evict_page e p v)) = pages p
          \<and> swap_slot_bitmap (snd (evict_page e p v)) = swap_slot_bitmap p)"
proof -
  note s = swap_out_page_short [OF sf fp al sh]
  have a: "fst (swap_out_page e p v pa) = - 1
       \<and> \<not> slot_used_dp (swap_slot_bitmap (snd (swap_out_page e p v pa))) k
       \<and> swap_slot_bitmap (snd (swap_out_page e p v pa)) = swap_slot_bitmap p
       \<and> pages (snd (swap_out_page e p v pa)) = pages p"
    using s(3) by (simp add: s(1))
  have b: "fst (evict_page e p v) = - 1
          \<and> pagetable (snd (evict_page e p v)) = pagetable p
          \<and> kfreed (snd (evict_page e p v)) = kfreed p
          \<and> pages (snd (evict_page e p v)) = pages p
          \<and> swap_slot_bitmap (snd (evict_page e p v)) = swap_slot_bitmap p"
    if h: "state (pages p i) = RESIDENT \<and> is_dirty (pages p i) \<and> walk p v = Some pte"
  proof -
    let ?q = "printf (EVICT_dirty v) (printf (VICTIM v (seq (pages p i))) p)"
    have q1: "swapfile ?q = Some ip" using sf by (simp add: printf_def)
    have q2: "find_page (pages ?q) (PGROUNDDOWN v) 0 (num_pages ?q) = Some i"
      using fp by (simp add: printf_def)
    have q3: "fst (alloc_swap_slot_dp ?q) = int k"
      using al by (simp add: alloc_swap_slot_dp_printf)
    note t = swap_out_page_short(1) [OF q1 q2 q3 sh, of "frame pte"]
    show ?thesis
      using h by (simp add: evict_page_def get_page_info_dp_found [OF fp] Let_def t)
        (simp add: printf_def)
  qed
  from a b show ?thesis by blast
qed

theorem short_swap_write_dp_witness:
  "fst (swap_out_page env_short dp_resident 0x4000 0x87000000) = - 1
   \<and> swap_slot_bitmap (snd (swap_out_page env_short dp_resident 0x4000 0x87000000))
       = swap_slot_bitmap dp_resident
   \<and> fst (evict_page env_short dp_resident 0x4000) = - 1
   \<and> pagetable (snd (evict_page env_short dp_resident 0x4000)) = pagetable dp_resident
   \<and> fst (handle_page_fault env_short dp_resident 0x5000 True) = - 1"
proof -
  have 1: "swapfile dp_resident = Some 30"
    by (simp add: dp_resident_def dp_image_def)
  have 2: "find_page (pages dp_resident) (PGROUNDDOWN 0x4000) 0 (num_pages dp_resident) = Some 0"
    by (simp add: dp_resident_find_heap)
  have 3: "fst (alloc_swap_slot_dp dp_resident) = int 0" by (simp add: dp_resident_alloc)
  have 4: "writei_ret env_short \<noteq> int PGSIZE" by (simp add: env_short_def PGSIZE_def)
  have 5: "state (pages dp_resident 0) = RESIDENT \<and> is_dirty (pages dp_resident 0)
      \<and> walk dp_resident 0x4000 = Some \<lparr>frame = 0x87000000, perms = {PTE_U, PTE_R, PTE_W}\<rparr>"
    by (simp add: dp_resident_def dp_image_def walk_def)
  from short_swap_write_dp [OF 1 2 3 4, of "0x87000000" "\<lparr>frame = 0x87000000, perms = {PTE_U, PTE_R, PTE_W}\<rparr>"] 5 dp_resident_fault_short
  show ?thesis by simp
qed

text \<open>
  The claim as stated fails on both files: after a write of 100 bytes \<^verbatim>\<open>swap_out_page\<close> has
  freed slot 0, the slot it allocated, and \<^verbatim>\<open>lazy_evict_page\<close>, which does not look at what
  \<^verbatim>\<open>writei\<close> returns, reports success (1).
\<close>

theorem short_swap_write_counterexample:
  "writei_ret env_short < int PGSIZE
   \<and> fst (alloc_swap_slot_dp dp_resident) = 0
   \<and> fst (swap_out_page env_short dp_resident 0x4000 0x87000000) = - 1
   \<and> \<not> slot_used_dp (swap_slot_bitmap (snd (swap_out_page env_short dp_resident 0x4000 0x87000000))) 0
   \<and> fst (lazy_evict_page env_short lazy_resident) = 1"
proof -
  have 1: "swapfile dp_resident = Some 30"
    by (simp add: dp_resident_def dp_image_def)
  have 2: "find_page (pages dp_resident) (PGROUNDDOWN 0x4000) 0 (num_pages dp_resident) = Some 0"
    by (simp add: dp_resident_find_heap)
  have 3: "fst (alloc_swap_slot_dp dp_resident) = int 0" by (simp add: dp_resident_alloc)
  have 4: "writei_ret env_short \<noteq> int PGSIZE" by (simp add: env_short_def PGSIZE_def)
  note s = swap_out_page_short(1) [OF 1 2 3 4, of "0x87000000"] swap_out_page_short(3) [OF 1 2 3 4]
  have 5: "fst (lazy_evict_page env_short lazy_resident) = 1"
    by (simp add: lazy_evict_page_def lazy_victim_scan.simps to_uint32_def
        alloc_swap_slot_lazy_def alloc_scan_lazy.simps alloc_scan_bits.simps walkaddr_def walk_def
        printf_def fs_def writei_def
        lazy_resident_def lazy_image_def proc0_def env_short_def env0_def
        MAX_PROC_PAGES_def MAX_SWAP_SLOTS_def PGSIZE_def Let_def split_def)
  from s 3 5 show ?thesis by (simp add: env_short_def PGSIZE_def)
qed

section \<open>C9: destroying the swap file\<close>

text \<open>
  Claim C9. \<^verbatim>\<open>delete_swap_file\<close> always returns; applied to a process without a swap file
  it changes nothing, applied a second time it changes nothing, and so applying it twice
  is the same as applying it once. In both files.
\<close>

theorem delete_swap_file_idempotent:
  "delete_swap_file_dp (delete_swap_file_dp p) = delete_swap_file_dp p
   \<and> (swapfile p = None \<longrightarrow> delete_swap_file_dp p = p)
   \<and> swapfile (delete_swap_file_dp p) = None
   \<and> delete_swap_file_lazy (delete_swap_file_lazy q) = delete_swap_file_lazy q
   \<and> (swapfile_inode q = None \<longrightarrow> delete_swap_file_lazy q = q)
   \<and> swapfile_inode (delete_swap_file_lazy q) = None"
proof -
  have dp: "swapfile (delete_swap_file_dp p) = None"
    by (simp add: delete_swap_file_dp_def Let_def printf_def fs_def split: option.splits)
  have lz: "swapfile_inode (delete_swap_file_lazy q) = None"
    by (simp add: delete_swap_file_lazy_def Let_def fs_def split: option.splits)
  have dp0: "swapfile p' = None \<Longrightarrow> delete_swap_file_dp p' = p'" for p'
    by (simp add: delete_swap_file_dp_def)
  have lz0: "swapfile_inode q' = None \<Longrightarrow> delete_swap_file_lazy q' = q'" for q'
    by (simp add: delete_swap_file_lazy_def)
  from dp lz dp0 lz0 show ?thesis by blast
qed

theorem delete_swap_file_idempotent_witness:
  "delete_swap_file_dp proc0 = proc0
   \<and> delete_swap_file_dp (delete_swap_file_dp swapfile_open_dp) = delete_swap_file_dp swapfile_open_dp
   \<and> fs_calls (delete_swap_file_dp swapfile_open_dp) = [Fileclose 30]
   \<and> delete_swap_file_lazy proc0 = proc0
   \<and> delete_swap_file_lazy (delete_swap_file_lazy swapfile_open_lazy) = delete_swap_file_lazy swapfile_open_lazy
   \<and> fs_calls (delete_swap_file_lazy swapfile_open_lazy) = [Begin_op, Ilock 30, Iupdate 30, Iunlock 30, Iput 30, End_op]"
proof -
  have a: "swapfile (proc0 :: uint32 proc) = None" "swapfile_inode (proc0 :: uint64 proc) = None"
    by (simp_all add: proc0_def)
  have b: "fs_calls (delete_swap_file_dp swapfile_open_dp) = [Fileclose 30]"
    by (simp add: delete_swap_file_dp_def swapfile_open_dp_def bitmap_one_dp_def proc0_def Let_def printf_def fs_def)
  have c: "fs_calls (delete_swap_file_lazy swapfile_open_lazy) = [Begin_op, Ilock 30, Iupdate 30, Iunlock 30, Iput 30, End_op]"
    by (simp add: delete_swap_file_lazy_def swapfile_open_lazy_def bitmap_one_lazy_def proc0_def Let_def fs_def)
  show ?thesis
    using delete_swap_file_idempotent [of proc0 proc0] delete_swap_file_idempotent [of swapfile_open_dp swapfile_open_lazy] a b c
    by simp
qed

section \<open>C10: lazy growth of the program break\<close>

lemma sint32_to_uint64:
  fixes n :: "32 word"
  assumes "0 \<le> sint n"
  shows "unat (of_int (sint n) :: uint64) = nat (sint n)"
proof -
  have "sint n < 2 ^ 31" using sint_lt [of n] by simp
  then have lt: "nat (sint n) < 2 ^ 64" using assms by (simp add: nat_less_iff)
  have "(of_int (sint n) :: uint64) = of_nat (nat (sint n))" using assms by simp
  then show ?thesis using lt by (simp add: unat_of_nat del: of_nat_nat)
qed

text \<open>
  Claim C10. For a call of \<^verbatim>\<open>sys_sbrk\<close> with a mode other than \<^verbatim>\<open>SBRK_EAGER\<close> and \<open>n \<ge> 0\<close>:
  when \<open>sz + n\<close> wraps around in 64 bits the call returns \<open>- 1\<close> and the state is
  unchanged; otherwise it returns the old \<open>sz\<close>, and \<open>sz\<close> grows by exactly \<open>n\<close> while no
  other field changes, so no frame is taken and no mapping installed.
\<close>

theorem sbrk_lazy:
  fixes n t :: "32 word"
  assumes "0 \<le> sint n" and "sint t \<noteq> SBRK_EAGER e"
  shows "(if 2 ^ 64 \<le> unat (sz p) + nat (sint n)
          then sys_sbrk e growproc n t p = (- 1, p)
          else sys_sbrk e growproc n t p = (sz p, p\<lparr>sz := sz p + of_int (sint n)\<rparr>)
             \<and> unat (sz p + of_int (sint n)) = unat (sz p) + nat (sint n)
             \<and> pagetable (snd (sys_sbrk e growproc n t p)) = pagetable p
             \<and> physmem (snd (sys_sbrk e growproc n t p)) = physmem p)"
proof -
  let ?w = "of_int (sint n) :: uint64"
  have u: "unat ?w = nat (sint n)" using assms(1) by (rule sint32_to_uint64)
  have wrap: "(sz p + ?w < sz p) = (2 ^ 64 \<le> unat (sz p) + nat (sint n))"
    using no_olen_add_nat [of "sz p" ?w] u by (simp add: not_le [symmetric])
  show ?thesis
  proof (cases "2 ^ 64 \<le> unat (sz p) + nat (sint n)")
    case True
    with wrap assms show ?thesis by (simp add: sys_sbrk_def Let_def)
  next
    case False
    then have "unat (sz p + ?w) = unat (sz p) + nat (sint n)"
      using u by (simp add: unat_add_lem [THEN iffD1])
    with False wrap assms show ?thesis by (simp add: sys_sbrk_def Let_def)
  qed
qed

theorem sbrk_lazy_witness:
  "sys_sbrk env0 (\<lambda>n p. (- 1, p)) 4096 2 (proc0\<lparr>sz := 0x4000\<rparr> :: uint64 proc)
     = (0x4000, proc0\<lparr>sz := 0x5000\<rparr>)
   \<and> sys_sbrk env0 (\<lambda>n p. (- 1, p)) 4096 2 (proc0\<lparr>sz := 0xFFFFFFFFFFFFF000\<rparr> :: uint64 proc)
     = (- 1, proc0\<lparr>sz := 0xFFFFFFFFFFFFF000\<rparr>)"
proof -
  have a: "0 \<le> sint (4096 :: 32 word)"
    and b: "sint (2 :: 32 word) \<noteq> SBRK_EAGER env0"
    by (simp_all add: env0_def)
  show ?thesis
    using sbrk_lazy [OF a(1) b, of "proc0\<lparr>sz := 0x4000\<rparr> :: uint64 proc" "\<lambda>n p. (- 1, p)"]
      sbrk_lazy [OF a(1) b, of "proc0\<lparr>sz := 0xFFFFFFFFFFFFF000\<rparr> :: uint64 proc" "\<lambda>n p. (- 1, p)"]
    by simp
qed

end
